(* ===== verification/Ws_Prelude.thy ===== *)
theory Ws_Prelude
  imports "HOL-Library.Word"
begin

text \<open>
  Shared vocabulary of the development: the machine types of the Rust sources as words, the
  result type of fallible functions with the reading of the \<^verbatim>\<open>?\<close> operator, checked and
  wrapping arithmetic on \<^verbatim>\<open>usize\<close>, big- and little-endian byte orders, and the list lemmas
  the component theories share.  The model fixes a 64-bit target, the only kind the project
  releases wheels for, so \<^verbatim>\<open>usize\<close> ranges over the naturals below \<open>2 ^ 64\<close>.
\<close>

unbundle bit_operations_syntax

section \<open>Machine types\<close>

type_synonym u8 = "8 word"
type_synonym u16 = "16 word"
type_synonym u32 = "32 word"
type_synonym bytes = "u8 list"

named_theorems result_simps
  \<open>rewriting of the result type: when a chain of fallible steps succeeds or fails\<close>

named_theorems byte_order_simps
  \<open>lengths and round trips of the byte-order conversions\<close>

section \<open>Results\<close>

text \<open>
  A Rust \<^verbatim>\<open>Result<T, E>\<close> is the sum \<open>'e + 'a\<close> with \<open>Inl\<close> the error;
  \<open>and_then r f\<close> is \<^verbatim>\<open>let x = r?; f(x)\<close>.
\<close>

fun and_then :: "'e + 'a \<Rightarrow> ('a \<Rightarrow> 'e + 'b) \<Rightarrow> 'e + 'b" where
  "and_then (Inl e) f = Inl e"
| "and_then (Inr x) f = f x"

lemma and_then_Inr_iff [result_simps]:
  "and_then r f = Inr y \<longleftrightarrow> (\<exists>x. r = Inr x \<and> f x = Inr y)"
  by (cases r) auto

lemma and_then_Inl_iff [result_simps]:
  "and_then r f = Inl e \<longleftrightarrow> r = Inl e \<or> (\<exists>x. r = Inr x \<and> f x = Inl e)"
  by (cases r) auto

lemma and_then_cong [fundef_cong]:
  assumes "r = r'" and "\<And>x. r' = Inr x \<Longrightarrow> f x = f' x"
  shows "and_then r f = and_then r' f'"
  using assms by (cases r') auto

definition guard :: "bool \<Rightarrow> 'e \<Rightarrow> 'e + unit" where
  "guard b e = (if b then Inr () else Inl e)"

lemma guard_Inr_iff [result_simps]: "guard b e = Inr u \<longleftrightarrow> b"
  by (simp add: guard_def)

lemma guard_Inl_iff [result_simps]: "guard b e = Inl e' \<longleftrightarrow> \<not> b \<and> e' = e"
  by (auto simp: guard_def)

definition ok_or :: "'a option \<Rightarrow> 'e \<Rightarrow> 'e + 'a" where
  "ok_or x e = (case x of None \<Rightarrow> Inl e | Some y \<Rightarrow> Inr y)"

lemma ok_or_Inr_iff [result_simps]: "ok_or x e = Inr y \<longleftrightarrow> x = Some y"
  by (auto simp: ok_or_def split: option.splits)

lemma ok_or_Inl_iff [result_simps]: "ok_or x e = Inl e' \<longleftrightarrow> x = None \<and> e' = e"
  by (auto simp: ok_or_def split: option.splits)

section \<open>Unsigned arithmetic of a given width\<close>

definition USIZE_MAX :: nat where
  "USIZE_MAX = 2 ^ 64 - 1"

definition U32_MAX :: nat where
  "U32_MAX = 2 ^ 32 - 1"

text \<open>\<^verbatim>\<open>checked_add\<close> and \<^verbatim>\<open>checked_mul\<close> of an unsigned type whose largest value is \<open>m\<close>.\<close>

definition checked_add :: "nat \<Rightarrow> nat \<Rightarrow> nat \<Rightarrow> nat option" where
  "checked_add m a b = (if a + b \<le> m then Some (a + b) else None)"

definition checked_mul :: "nat \<Rightarrow> nat \<Rightarrow> nat \<Rightarrow> nat option" where
  "checked_mul m a b = (if a * b \<le> m then Some (a * b) else None)"

lemma checked_add_Some_iff [simp]: "checked_add m a b = Some c \<longleftrightarrow> c = a + b \<and> a + b \<le> m"
  by (auto simp: checked_add_def)

lemma checked_add_None_iff [simp]: "checked_add m a b = None \<longleftrightarrow> m < a + b"
  by (auto simp: checked_add_def)

lemma checked_mul_Some_iff [simp]: "checked_mul m a b = Some c \<longleftrightarrow> c = a * b \<and> a * b \<le> m"
  by (auto simp: checked_mul_def)

lemma checked_mul_None_iff [simp]: "checked_mul m a b = None \<longleftrightarrow> m < a * b"
  by (auto simp: checked_mul_def)

section \<open>Big-endian integers\<close>

text \<open>\<^verbatim>\<open>uN::from_be_bytes\<close> on any number of bytes, and \<^verbatim>\<open>to_be_bytes\<close> at \<open>n\<close> bytes.\<close>

definition from_be_bytes :: "bytes \<Rightarrow> nat" where
  "from_be_bytes bs = foldl (\<lambda>acc b. acc * 256 + unat b) 0 bs"

primrec to_be_bytes :: "nat \<Rightarrow> nat \<Rightarrow> bytes" where
  "to_be_bytes 0 v = []"
| "to_be_bytes (Suc n) v = to_be_bytes n (v div 256) @ [of_nat (v mod 256)]"

lemma from_be_bytes_Nil [simp]: "from_be_bytes [] = 0"
  by (simp add: from_be_bytes_def)

lemma from_be_bytes_snoc [simp]: "from_be_bytes (bs @ [b]) = from_be_bytes bs * 256 + unat b"
  by (simp add: from_be_bytes_def)

lemma length_to_be_bytes [simp, byte_order_simps]: "length (to_be_bytes n v) = n"
  by (induction n arbitrary: v) auto

lemma unat_u8_lt [simp]: "unat (b :: u8) < 256"
  using unsigned_less [of b, where ?'a = nat] by simp

lemma unat_u8_le [simp]: "unat (b :: u8) \<le> 255"
  using unat_u8_lt [of b] by linarith

lemma unat_of_nat_u8 [simp]: "unat (of_nat v :: u8) = v mod 256"
  by (simp add: unat_of_nat)

lemma from_be_bytes_less: "from_be_bytes bs < 256 ^ length bs"
proof (induction bs rule: rev_induct)
  case Nil
  then show ?case by simp
next
  case (snoc b bs)
  have "from_be_bytes bs * 256 + unat b < (from_be_bytes bs + 1) * 256"
    by (simp add: less_Suc_eq_le)
  also have "\<dots> \<le> 256 ^ length bs * 256"
    using snoc by (intro mult_le_mono1) linarith
  finally show ?case by (simp add: mult.commute)
qed

lemma from_to_be_bytes [byte_order_simps]: "from_be_bytes (to_be_bytes n v) = v mod 256 ^ n"
proof (induction n arbitrary: v)
  case 0
  then show ?case by simp
next
  case (Suc n)
  have "from_be_bytes (to_be_bytes (Suc n) v) = (v div 256) mod 256 ^ n * 256 + v mod 256"
    by (simp add: Suc)
  also have "\<dots> = v mod 256 ^ Suc n"
    using mod_mult2_eq [of v 256 "256 ^ n"] by (simp add: mult.commute add.commute)
  finally show ?case .
qed

lemma to_from_be_bytes [byte_order_simps]: "to_be_bytes (length bs) (from_be_bytes bs) = bs"
proof (induction bs rule: rev_induct)
  case Nil
  then show ?case by simp
next
  case (snoc b bs)
  have "(from_be_bytes bs * 256 + unat b) div 256 = from_be_bytes bs"
    using unat_u8_lt [of b] by (simp add: div_mult_self3 del: unat_u8_lt)
  moreover have "(of_nat ((from_be_bytes bs * 256 + unat b) mod 256) :: u8) = b"
    using unat_u8_lt [of b] by (simp add: word_unat_eq_iff del: unat_u8_lt)
  ultimately show ?case using snoc by simp
qed

section \<open>Lists\<close>

text \<open>
  \<^verbatim>\<open>windows(n).position(p)\<close> as the first index whose suffix satisfies a predicate, and its
  characterisation.
\<close>

fun find_suffix :: "('a list \<Rightarrow> bool) \<Rightarrow> 'a list \<Rightarrow> nat option" where
  "find_suffix P [] = None"
| "find_suffix P (x # xs) = (if P (x # xs) then Some 0 else map_option Suc (find_suffix P xs))"

lemma find_suffix_Some_iff:
  "find_suffix P xs = Some k \<longleftrightarrow>
     k < length xs \<and> P (drop k xs) \<and> (\<forall>j < k. \<not> P (drop j xs))"
proof (induction xs arbitrary: k)
  case Nil
  then show ?case by simp
next
  case (Cons x xs)
  show ?case
    by (cases k) (auto simp: Cons.IH All_less_Suc2)
qed

lemma find_suffix_None_iff:
  "find_suffix P xs = None \<longleftrightarrow> (\<forall>k < length xs. \<not> P (drop k xs))"
  by (induction xs) (auto simp: All_less_Suc2)

end
