(* ===== verification/Rust_Std.thy ===== *)
theory Rust_Std
  imports Ws_Prelude "HOL-Library.Sublist"
begin

text \<open>
  The functions of the Rust standard library on strings that the sources use.  A \<^verbatim>\<open>String\<close>
  is the list of its Unicode scalar values; bytes become a string through
  \<^verbatim>\<open>String::from_utf8_lossy\<close>, which replaces every maximal invalid piece by U+FFFD, and a
  string becomes bytes through its UTF-8 encoding.
\<close>

type_synonym rstring = "nat list"

definition lit :: "string \<Rightarrow> rstring" where
  "lit s = map of_char s"

section \<open>UTF-8\<close>

definition safe_get :: "bytes \<Rightarrow> nat \<Rightarrow> nat" where
  "safe_get bs i = (if i < length bs then unat (bs ! i) else 0)"

definition is_cont :: "nat \<Rightarrow> bool" where
  "is_cont b \<longleftrightarrow> 128 \<le> b \<and> b < 192"

text \<open>The second byte a three- or four-byte lead admits (no overlong forms, no surrogates).\<close>

definition second_ok :: "nat \<Rightarrow> nat \<Rightarrow> bool" where
  "second_ok b0 b1 \<longleftrightarrow>
     (if b0 = 224 then 160 \<le> b1 \<and> b1 < 192
      else if b0 = 237 then 128 \<le> b1 \<and> b1 < 160
      else if b0 = 240 then 144 \<le> b1 \<and> b1 < 192
      else if b0 = 244 then 128 \<le> b1 \<and> b1 < 144
      else is_cont b1)"

text \<open>One step of the lossy decoder: the scalar read, or \<open>None\<close>, and the bytes consumed.\<close>

definition utf8_next :: "bytes \<Rightarrow> nat option \<times> nat" where
  "utf8_next bs =
     (let b0 = safe_get bs 0; b1 = safe_get bs 1; b2 = safe_get bs 2; b3 = safe_get bs 3 in
      if b0 < 128 then (Some b0, 1)
      else if 194 \<le> b0 \<and> b0 < 224 then
        (if is_cont b1 then (Some ((b0 - 192) * 64 + (b1 - 128)), 2) else (None, 1))
      else if 224 \<le> b0 \<and> b0 < 240 then
        (if \<not> second_ok b0 b1 then (None, 1)
         else if \<not> is_cont b2 then (None, 2)
         else (Some ((b0 - 224) * 4096 + (b1 - 128) * 64 + (b2 - 128)), 3))
      else if 240 \<le> b0 \<and> b0 < 245 then
        (if \<not> second_ok b0 b1 then (None, 1)
         else if \<not> is_cont b2 then (None, 2)
         else if \<not> is_cont b3 then (None, 3)
         else (Some ((b0 - 240) * 262144 + (b1 - 128) * 4096 + (b2 - 128) * 64 + (b3 - 128)), 4))
      else (None, 1))"

lemma utf8_next_pos: "0 < snd (utf8_next bs)"
  by (simp add: utf8_next_def Let_def)

function from_utf8_lossy :: "bytes \<Rightarrow> rstring" where
  "from_utf8_lossy bs =
     (if bs = [] then []
      else (case fst (utf8_next bs) of Some u \<Rightarrow> u | None \<Rightarrow> 65533)
           # from_utf8_lossy (drop (snd (utf8_next bs)) bs))"
  by pat_completeness auto
termination
  by (relation "measure length") (auto simp: utf8_next_pos)

declare from_utf8_lossy.simps [simp del]

lemma from_utf8_lossy_Nil [simp]: "from_utf8_lossy [] = []"
  by (simp add: from_utf8_lossy.simps)

definition u8_of :: "nat \<Rightarrow> u8" where
  "u8_of n = of_nat n"

lemma unat_u8_of [simp]: "n < 256 \<Longrightarrow> unat (u8_of n) = n"
  by (simp add: u8_of_def)

definition utf8_char :: "nat \<Rightarrow> bytes" where
  "utf8_char u =
     (if u < 128 then [u8_of u]
      else if u < 2048 then [u8_of (192 + u div 64), u8_of (128 + u mod 64)]
      else if u < 65536 then
        [u8_of (224 + u div 4096), u8_of (128 + u div 64 mod 64), u8_of (128 + u mod 64)]
      else [u8_of (240 + u div 262144), u8_of (128 + u div 4096 mod 64),
            u8_of (128 + u div 64 mod 64), u8_of (128 + u mod 64)])"

definition utf8_encode :: "rstring \<Rightarrow> bytes" where
  "utf8_encode s = concat (map utf8_char s)"

definition scalar :: "nat \<Rightarrow> bool" where
  "scalar u \<longleftrightarrow> u < 1114112 \<and> \<not> (55296 \<le> u \<and> u < 57344)"

lemma safe_get_Cons [simp]:
  "safe_get (b # bs) 0 = unat b" "safe_get (b # bs) (Suc i) = safe_get bs i"
  by (simp_all add: safe_get_def)

lemma safe_get_numeral [simp]:
  "safe_get (b # bs) (numeral k) = safe_get bs (pred_numeral k)"
  by (simp add: numeral_eq_Suc)

lemma div_64_steps:
  "u div 4096 = u div 64 div (64 :: nat)" "u div 262144 = u div 4096 div (64 :: nat)"
  by (simp_all add: div_mult2_eq [symmetric])

lemma utf8_second_3:
  assumes "2048 \<le> u" "u < 65536" "scalar u"
  shows "second_ok (224 + u div 4096) (128 + u div 64 mod 64)"
proof -
  define q where "q = u div 64"
  have q: "32 \<le> q" "q < 1024" "\<not> (864 \<le> q \<and> q < 896)"
    using assms by (auto simp: q_def scalar_def)
  have "q div 64 = 0 \<Longrightarrow> 32 \<le> q mod 64" "q div 64 = 13 \<Longrightarrow> q mod 64 < 32" "q div 64 < 16"
    using q div_mult_mod_eq [of q 64] by linarith+
  then show ?thesis by (auto simp: second_ok_def is_cont_def div_64_steps q_def [symmetric])
qed

lemma utf8_second_4:
  assumes "65536 \<le> u" "scalar u"
  shows "second_ok (240 + u div 262144) (128 + u div 4096 mod 64)"
proof -
  define q where "q = u div 4096"
  have q: "16 \<le> q" "q < 272"
    using assms by (auto simp: q_def scalar_def)
  have "q div 64 = 0 \<Longrightarrow> 16 \<le> q mod 64" "q div 64 = 4 \<Longrightarrow> q mod 64 < 16"
    using q div_mult_mod_eq [of q 64] by linarith+
  moreover have "u div 262144 = q div 64" by (simp add: q_def div_mult2_eq [symmetric])
  ultimately show ?thesis by (auto simp: second_ok_def is_cont_def q_def [symmetric])
qed

lemma utf8_value_3: "u div 4096 * 4096 + u div 64 mod 64 * 64 + u mod 64 = (u :: nat)"
  using div_mult_mod_eq [of u 64] div_mult_mod_eq [of "u div 64" 64] div_64_steps(1) [of u]
  by linarith

lemma utf8_value_4:
  "u div 262144 * 262144 + u div 4096 mod 64 * 4096 + u div 64 mod 64 * 64 + u mod 64 = (u :: nat)"
  using utf8_value_3 [of u] div_mult_mod_eq [of "u div 4096" 64] div_64_steps [of u]
  by linarith

lemma utf8_next_char:
  assumes "scalar u"
  shows "utf8_next (utf8_char u @ rest) = (Some u, length (utf8_char u))"
proof -
  consider "u < 128" | "128 \<le> u" "u < 2048" | "2048 \<le> u" "u < 65536" | "65536 \<le> u"
    by linarith
  then show ?thesis
  proof cases
    case 1
    then show ?thesis by (simp add: utf8_char_def utf8_next_def)
  next
    case 2
    then have "u div 64 < 32" "2 \<le> u div 64" "u div 64 * 64 + u mod 64 = u"
      using div_mult_mod_eq [of u 64] by linarith+
    with 2 show ?thesis
      by (simp add: utf8_char_def utf8_next_def is_cont_def Let_def) arith
  next
    case 3
    then have "u div 4096 < 16" by linarith
    then show ?thesis
      using 3 utf8_second_3 [OF 3 assms] utf8_value_3 [of u]
      by (simp add: utf8_char_def utf8_next_def is_cont_def Let_def)
  next
    case 4
    with assms have "u div 262144 < 5" by (simp add: scalar_def)
    then show ?thesis
      using 4 utf8_second_4 [OF 4 assms] utf8_value_4 [of u]
      by (simp add: utf8_char_def utf8_next_def is_cont_def Let_def)
  qed
qed

lemma utf8_char_not_Nil [simp]: "utf8_char u \<noteq> []"
  by (simp add: utf8_char_def)

lemma from_utf8_lossy_encode: "list_all scalar s \<Longrightarrow> from_utf8_lossy (utf8_encode s) = s"
proof (induction s)
  case Nil
  then show ?case by (simp add: utf8_encode_def)
next
  case (Cons u s)
  have enc: "utf8_encode (u # s) = utf8_char u @ utf8_encode s"
    by (simp add: utf8_encode_def)
  from Cons.prems have "scalar u" and "list_all scalar s" by simp_all
  then show ?case
    using Cons.IH
    by (simp add: enc from_utf8_lossy.simps [of "utf8_char u @ utf8_encode s"] utf8_next_char)
qed

section \<open>String operations\<close>

definition to_ascii_lowercase :: "rstring \<Rightarrow> rstring" where
  "to_ascii_lowercase s = map (\<lambda>c. if 65 \<le> c \<and> c \<le> 90 then c + 32 else c) s"

definition eq_ignore_ascii_case :: "rstring \<Rightarrow> rstring \<Rightarrow> bool" where
  "eq_ignore_ascii_case s t \<longleftrightarrow> to_ascii_lowercase s = to_ascii_lowercase t"

text \<open>The Unicode property \<^verbatim>\<open>White_Space\<close>, which \<^verbatim>\<open>trim\<close> and \<^verbatim>\<open>split_whitespace\<close> use.\<close>

definition is_whitespace :: "nat \<Rightarrow> bool" where
  "is_whitespace c \<longleftrightarrow>
     9 \<le> c \<and> c \<le> 13 \<or> c = 32 \<or> c = 133 \<or> c = 160 \<or> c = 5760 \<or> 8192 \<le> c \<and> c \<le> 8202 \<or>
     c = 8232 \<or> c = 8233 \<or> c = 8239 \<or> c = 8287 \<or> c = 12288"

definition trim :: "rstring \<Rightarrow> rstring" where
  "trim s = rev (dropWhile is_whitespace (rev (dropWhile is_whitespace s)))"

fun split_by :: "(nat \<Rightarrow> bool) \<Rightarrow> rstring \<Rightarrow> rstring list" where
  "split_by p [] = [[]]"
| "split_by p (c # cs) =
     (if p c then [] # split_by p cs
      else (case split_by p cs of [] \<Rightarrow> [[c]] | w # ws \<Rightarrow> (c # w) # ws))"

definition split_char :: "nat \<Rightarrow> rstring \<Rightarrow> rstring list" where
  "split_char c s = split_by (\<lambda>d. d = c) s"

definition split_whitespace :: "rstring \<Rightarrow> rstring list" where
  "split_whitespace s = filter (\<lambda>w. w \<noteq> []) (split_by is_whitespace s)"

fun split_once :: "nat \<Rightarrow> rstring \<Rightarrow> (rstring \<times> rstring) option" where
  "split_once d [] = None"
| "split_once d (c # cs) =
     (if c = d then Some ([], cs)
      else map_option (\<lambda>(a, b). (c # a, b)) (split_once d cs))"

text \<open>\<^verbatim>\<open>lines()\<close>: pieces end at a newline, and a carriage return right before it goes too.\<close>

definition strip_cr :: "rstring \<Rightarrow> rstring" where
  "strip_cr l = (if l \<noteq> [] \<and> last l = 13 then butlast l else l)"

fun lines_from :: "rstring \<Rightarrow> rstring \<Rightarrow> rstring list" where
  "lines_from acc [] = (if acc = [] then [] else [rev acc])"
| "lines_from acc (c # cs) =
     (if c = 10 then strip_cr (rev acc) # lines_from [] cs else lines_from (c # acc) cs)"

definition lines :: "rstring \<Rightarrow> rstring list" where
  "lines s = lines_from [] s"

definition contains :: "rstring \<Rightarrow> rstring \<Rightarrow> bool" where
  "contains hay needle \<longleftrightarrow> needle = [] \<or> find_suffix (prefix needle) hay \<noteq> None"

text \<open>\<^verbatim>\<open>str::parse::<u16>()\<close>: an optional plus sign, then decimal digits, within the type.\<close>

definition is_digit :: "nat \<Rightarrow> bool" where
  "is_digit c \<longleftrightarrow> 48 \<le> c \<and> c \<le> 57"

definition digits_value :: "nat list \<Rightarrow> nat" where
  "digits_value ds = foldl (\<lambda>v d. v * 10 + (d - 48)) 0 ds"

definition parse_u16 :: "rstring \<Rightarrow> nat option" where
  "parse_u16 s =
     (let ds = (if s \<noteq> [] \<and> hd s = 43 then tl s else s) in
      if ds \<noteq> [] \<and> list_all is_digit ds \<and> digits_value ds \<le> 65535
      then Some (digits_value ds) else None)"

text \<open>The \<^verbatim>\<open>Display\<close> of an unsigned integer.\<close>

fun show_nat :: "nat \<Rightarrow> rstring" where
  "show_nat n = (if n < 10 then [48 + n] else show_nat (n div 10) @ [48 + n mod 10])"

declare show_nat.simps [simp del]

lemma show_nat_digits: "c \<in> set (show_nat n) \<Longrightarrow> 48 \<le> c \<and> c \<le> 57"
proof (induction n rule: show_nat.induct)
  case (1 n)
  show ?case
  proof (cases "n < 10")
    case True
    with "1.prems" show ?thesis by (simp add: show_nat.simps [of n])
  next
    case False
    have "n mod 10 < 10" by simp
    with "1" False show ?thesis by (auto simp: show_nat.simps [of n])
  qed
qed

lemma show_nat_not_Nil [simp]: "show_nat n \<noteq> []"
  by (subst show_nat.simps) simp

lemma digits_value_snoc [simp]: "digits_value (ds @ [d]) = digits_value ds * 10 + (d - 48)"
  by (simp add: digits_value_def)

lemma digits_value_Nil [simp]: "digits_value [] = 0"
  by (simp add: digits_value_def)

lemma digits_value_show_nat [simp]: "digits_value (show_nat n) = n"
proof (induction n rule: show_nat.induct)
  case (1 n)
  show ?case
  proof (cases "n < 10")
    case True
    then show ?thesis by (simp add: show_nat.simps [of n] digits_value_def)
  next
    case False
    then show ?thesis using 1 by (simp add: show_nat.simps [of n])
  qed
qed

text \<open>A canonical numeral, one without leading zeros, is what \<^verbatim>\<open>Display\<close> prints.\<close>

definition canonical :: "nat list \<Rightarrow> bool" where
  "canonical ds \<longleftrightarrow> ds \<noteq> [] \<and> list_all is_digit ds \<and> (length ds = 1 \<or> hd ds \<noteq> 48)"

lemma digits_value_pos:
  "list_all is_digit ds \<Longrightarrow> ds \<noteq> [] \<Longrightarrow> hd ds \<noteq> 48 \<Longrightarrow> 0 < digits_value ds"
proof (induction ds rule: rev_induct)
  case (snoc d ds)
  then show ?case by (cases ds) (auto simp: digits_value_def is_digit_def)
qed simp

lemma show_nat_digits_value: "canonical ds \<Longrightarrow> show_nat (digits_value ds) = ds"
proof (induction ds rule: rev_induct)
  case (snoc d ds)
  then have d: "48 \<le> d" "d \<le> 57" by (simp_all add: canonical_def is_digit_def)
  show ?case
  proof (cases ds)
    case Nil
    with d show ?thesis by (simp add: show_nat.simps [of "d - 48"] digits_value_def)
  next
    case (Cons a as)
    with snoc.prems have "canonical ds" "0 < digits_value ds"
      by (auto simp: canonical_def intro: digits_value_pos)
    moreover obtain k where k: "d = 48 + k" "k < 10"
      by (rule that [of "d - 48"]) (use d in auto)
    ultimately show ?thesis
      using snoc.IH by (simp add: show_nat.simps [of "digits_value ds * 10 + k"])
  qed
qed (simp add: canonical_def)

lemma canonical_show_nat: "canonical (show_nat n)"
proof (induction n rule: show_nat.induct)
  case (1 n)
  show ?case
  proof (cases "n < 10")
    case True
    then show ?thesis by (simp add: show_nat.simps [of n] canonical_def is_digit_def)
  next
    case False
    then have pos: "0 < n div 10" by simp
    have "hd (show_nat (n div 10)) \<noteq> 48"
    proof
      assume z: "hd (show_nat (n div 10)) = 48"
      with 1 False have "show_nat (n div 10) = [48]"
        by (cases "show_nat (n div 10)") (auto simp: canonical_def)
      then have "digits_value (show_nat (n div 10)) = digits_value [48]" by (rule arg_cong)
      also have "digits_value [48] = 0" by (simp add: digits_value_def)
      finally show False using pos by simp
    qed
    with 1 False show ?thesis
      by (simp add: show_nat.simps [of n] canonical_def is_digit_def)
  qed
qed

lemma contains_iff: "contains hay needle \<longleftrightarrow> sublist needle hay"
proof (cases "needle = []")
  case True
  then show ?thesis by (simp add: contains_def)
next
  case False
  have "find_suffix (prefix needle) hay \<noteq> None \<longleftrightarrow> (\<exists>k < length hay. prefix needle (drop k hay))"
    by (simp only: find_suffix_None_iff) blast
  also have "\<dots> \<longleftrightarrow> sublist needle hay"
  proof
    assume "\<exists>k < length hay. prefix needle (drop k hay)"
    then obtain k r where "drop k hay = needle @ r" by (auto elim: prefixE)
    then have "hay = take k hay @ needle @ r" by (metis append_take_drop_id)
    then show "sublist needle hay" by (auto simp: sublist_def)
  next
    assume "sublist needle hay"
    then obtain l r where "hay = l @ needle @ r" by (auto simp: sublist_def)
    with False show "\<exists>k < length hay. prefix needle (drop k hay)"
      by (intro exI [of _ "length l"]) auto
  qed
  finally show ?thesis using False by (simp add: contains_def)
qed

end
