(* ===== verification/Frame_Codec.thy ===== *)
theory Frame_Codec
  imports Rust_Std
begin

text \<open>
  Frame parsing of \<^verbatim>\<open>src/src/native_client/codec.rs\<close>: server frame headers, close payloads,
  the end of the HTTP response head and the frame walker of the frame-aligned receive paths.
  Parsers over a growing buffer share the contract \<open>stream_parser\<close>: once a prefix parses,
  more bytes do not change the answer.
\<close>

section \<open>Opcodes and limits\<close>

definition OP_CONTINUATION :: u8 where "OP_CONTINUATION = 0x0"
definition OP_TEXT :: u8 where "OP_TEXT = 0x1"
definition OP_BINARY :: u8 where "OP_BINARY = 0x2"
definition OP_CLOSE :: u8 where "OP_CLOSE = 0x8"
definition OP_PING :: u8 where "OP_PING = 0x9"
definition OP_PONG :: u8 where "OP_PONG = 0xA"

lemmas opcode_defs =
  OP_CONTINUATION_def OP_TEXT_def OP_BINARY_def OP_CLOSE_def OP_PING_def OP_PONG_def

definition MIN_HDR :: nat where "MIN_HDR = 2"
definition MAX_FRAME_SIZE :: nat where "MAX_FRAME_SIZE = 16 * 2 ^ 20"
definition MAX_MESSAGE_SIZE :: nat where "MAX_MESSAGE_SIZE = 64 * 2 ^ 20"

section \<open>Contract of a parser over a growing buffer\<close>

locale stream_parser =
  fixes parse :: "bytes \<Rightarrow> 'r option"
  assumes parse_stable: "parse b = Some r \<Longrightarrow> parse (b @ c) = Some r"
begin

lemma parse_prefix_agrees: "parse b = Some r \<Longrightarrow> parse (b @ c) = Some r' \<Longrightarrow> r = r'"
  using parse_stable by fastforce

lemma parse_pending_antimono: "parse (b @ c) = None \<Longrightarrow> parse b = None"
  using parse_stable by (cases "parse b") fastforce+

text \<open>However the stream is cut into reads, the first buffer that parses gives the answer the
  whole stream gives.\<close>

lemma parse_chunked:
  assumes "parse (concat (take n chunks)) = Some r"
  shows "parse (concat chunks) = Some r"
proof -
  have "concat chunks = concat (take n chunks) @ concat (drop n chunks)"
    by (simp add: concat_append [symmetric] del: concat_append)
  then show ?thesis using assms parse_stable by simp
qed

end

section \<open>Frame headers\<close>

text \<open>The result is \<^verbatim>\<open>(fin, rsv1, opcode, payload_len, header_size)\<close>.\<close>

type_synonym header = "bool \<times> bool \<times> u8 \<times> nat \<times> nat"

definition parse_header :: "bytes \<Rightarrow> header option" where
  "parse_header buf =
     (if length buf < MIN_HDR then None
      else
        let b0 = buf ! 0; b1 = buf ! 1;
            fin = (b0 AND 0x80 \<noteq> 0); rsv1 = (b0 AND 0x40 \<noteq> 0);
            opcode = b0 AND 0x0F; plen_short = b1 AND 0x7F
        in if plen_short \<le> 125 then Some (fin, rsv1, opcode, unat plen_short, 2)
           else if plen_short = 126 then
             (if length buf < 4 then None
              else Some (fin, rsv1, opcode, from_be_bytes [buf ! 2, buf ! 3], 4))
           else
             (if length buf < 10 then None
              else Some (fin, rsv1, opcode, from_be_bytes (take 8 (drop 2 buf)), 10)))"

text \<open>The \<^verbatim>\<open>unreachable!()\<close> arm of the match is unreachable: seven bits end at 127.\<close>

lemma plen_short_cases:
  fixes b :: u8
  shows "b AND 0x7F \<le> 125 \<or> b AND 0x7F = 126 \<or> b AND 0x7F = 127"
proof -
  have "b AND 0x7F \<le> 0x7F" by (rule word_and_le1)
  then have "unat (b AND 0x7F) \<le> 127" by (simp add: word_le_nat_alt)
  moreover have "unat (125 :: u8) = 125" "unat (126 :: u8) = 126" "unat (127 :: u8) = 127"
    by simp_all
  ultimately show ?thesis
    by (auto simp: word_le_nat_alt word_unat_eq_iff)
qed

lemma parse_header_append: "parse_header b = Some h \<Longrightarrow> parse_header (b @ c) = Some h"
  by (auto simp: parse_header_def Let_def MIN_HDR_def nth_append split: if_splits)

lemma parse_header_shape:
  assumes "parse_header buf = Some (fin, rsv1, opcode, plen, hdr)"
  shows "2 \<le> hdr" and "hdr \<le> length buf" and "hdr \<le> 10" and "plen < 2 ^ 64"
proof -
  have short: "unat (buf ! 1 AND 0x7F) < 2 ^ 64"
    by (rule order.strict_trans [OF unat_u8_lt]) simp
  have two: "from_be_bytes [buf ! 2, buf ! 3] < 2 ^ 64"
    by (rule order.strict_trans [OF from_be_bytes_less]) simp
  have eight: "from_be_bytes (take 8 (drop 2 buf)) < 2 ^ 64"
  proof -
    have "from_be_bytes (take 8 (drop 2 buf)) < 256 ^ length (take 8 (drop 2 buf))"
      by (rule from_be_bytes_less)
    also have "\<dots> \<le> 256 ^ 8" by (rule power_increasing) auto
    finally show ?thesis by simp
  qed
  from assms short two eight
  show "2 \<le> hdr" and "hdr \<le> length buf" and "hdr \<le> 10" and "plen < 2 ^ 64"
    by (auto simp: parse_header_def Let_def MIN_HDR_def split: if_splits)
qed

lemma parse_header_pos: "parse_header buf = Some (fin, rsv1, opcode, plen, hdr) \<Longrightarrow> 0 < hdr"
  using parse_header_shape(1) by fastforce

lemma parse_header_advance:
  "parse_header buf = Some (fin, rsv1, opcode, plen, hdr) \<Longrightarrow>
   length buf - (hdr + plen) < length buf"
  using parse_header_shape(1,2) by fastforce

interpretation hdr: stream_parser parse_header
  by unfold_locales (rule parse_header_append)

section \<open>Encoding a header\<close>

text \<open>
  The base header RFC 6455 prescribes for a first byte, a mask bit and a payload length, with
  the shortest length form.  Both ends of the protocol write it: the server with mask bit 0, the
  client with mask bit \<open>0x80\<close> and the mask key behind it.
\<close>

definition frame_head :: "u8 \<Rightarrow> u8 \<Rightarrow> nat \<Rightarrow> bytes" where
  "frame_head b0 m plen =
     (if plen \<le> 125 then [b0, m OR of_nat plen]
      else if plen \<le> 65535 then [b0, m OR 126] @ to_be_bytes 2 plen
      else [b0, m OR 127] @ to_be_bytes 8 plen)"

lemma u8_and_127_of_nat:
  "n \<le> 127 \<Longrightarrow> ((0x80 :: u8) OR of_nat n) AND 0x7F = of_nat n"
  "n \<le> 127 \<Longrightarrow> (of_nat n :: u8) AND 0x7F = of_nat n"
proof -
  assume n: "n \<le> 127"
  have mask: "(0x7F :: u8) = mask 7" by (simp add: mask_eq_exp_minus_1)
  have id: "(of_nat n :: u8) AND 0x7F = of_nat n"
    unfolding mask by (rule less_mask_eq) (use n in \<open>simp add: word_less_nat_alt unat_of_nat\<close>)
  show "(of_nat n :: u8) AND 0x7F = of_nat n" by (rule id)
  show "((0x80 :: u8) OR of_nat n) AND 0x7F = of_nat n"
    using id by (simp add: bit.conj_disj_distrib2)
qed

lemma length_frame_head:
  "length (frame_head b0 m plen) = (if plen \<le> 125 then 2 else if plen \<le> 65535 then 4 else 10)"
  by (simp add: frame_head_def)

lemma parse_header_frame_head:
  assumes m: "m = 0 \<or> m = 0x80" and plen: "plen < 2 ^ 64"
  shows "parse_header (frame_head b0 m plen @ rest) =
    Some (b0 AND 0x80 \<noteq> 0, b0 AND 0x40 \<noteq> 0, b0 AND 0x0F, plen, length (frame_head b0 m plen))"
proof -
  consider "plen \<le> 125" | "125 < plen" "plen \<le> 65535" | "65535 < plen" by linarith
  then show ?thesis
  proof cases
    case 1
    then have b1: "(m OR of_nat plen) AND 0x7F = of_nat plen"
      using m u8_and_127_of_nat [of plen] by auto
    have "(of_nat plen :: u8) \<le> 125" using 1 by (simp add: word_le_nat_alt)
    then show ?thesis
      using 1 by (simp add: parse_header_def frame_head_def b1 MIN_HDR_def Let_def)
  next
    case 2
    have b1: "(m OR 126) AND 0x7F = 126" using m by auto
    have "from_be_bytes (to_be_bytes 2 plen) = plen" using 2 by (simp add: from_to_be_bytes)
    then have "from_be_bytes [to_be_bytes 2 plen ! 0, to_be_bytes 2 plen ! 1] = plen"
      by (simp add: numeral_2_eq_2)
    then show ?thesis
      using 2 by (simp add: parse_header_def frame_head_def b1 MIN_HDR_def Let_def nth_append)
  next
    case 3
    have b1: "(m OR 127) AND 0x7F = 127" using m by auto
    have "from_be_bytes (to_be_bytes 8 plen) = plen" using plen by (simp add: from_to_be_bytes)
    then show ?thesis
      using 3 by (simp add: parse_header_def frame_head_def b1 MIN_HDR_def Let_def)
  qed
qed

section \<open>Close payloads and the end of the response head\<close>

definition parse_close_payload :: "bytes \<Rightarrow> u16 option \<times> rstring option" where
  "parse_close_payload payload =
     ((if 2 \<le> length payload then Some (of_nat (from_be_bytes [payload ! 0, payload ! 1])) else None),
      (if 2 < length payload then Some (from_utf8_lossy (drop 2 payload)) else None))"

definition crlfcrlf :: bytes where
  "crlfcrlf = [13, 10, 13, 10]"

definition find_header_end :: "bytes \<Rightarrow> nat option" where
  "find_header_end buf = map_option (\<lambda>p. p + 4) (find_suffix (\<lambda>s. take 4 s = crlfcrlf) buf)"

lemma length_crlfcrlf [simp]: "length crlfcrlf = 4"
  by (simp add: crlfcrlf_def)

lemma take4_crlfcrlf_length: "take 4 s = crlfcrlf \<Longrightarrow> 4 \<le> length s"
  using length_take [of 4 s] by simp

lemma find_header_end_Some_iff:
  "find_header_end buf = Some e \<longleftrightarrow>
     (4 \<le> e \<and> e \<le> length buf \<and> take 4 (drop (e - 4) buf) = crlfcrlf \<and>
      (\<forall>j < e - 4. take 4 (drop j buf) \<noteq> crlfcrlf))"
proof -
  have "find_header_end buf = Some e \<longleftrightarrow>
      4 \<le> e \<and> find_suffix (\<lambda>s. take 4 s = crlfcrlf) buf = Some (e - 4)"
    by (auto simp: find_header_end_def)
  also have "\<dots> \<longleftrightarrow> (4 \<le> e \<and> e \<le> length buf \<and> take 4 (drop (e - 4) buf) = crlfcrlf \<and>
      (\<forall>j < e - 4. take 4 (drop j buf) \<noteq> crlfcrlf))"
    using take4_crlfcrlf_length [of "drop (e - 4) buf"] by (auto simp: find_suffix_Some_iff)
  finally show ?thesis .
qed

lemma find_header_end_append:
  assumes "find_header_end b = Some e"
  shows "find_header_end (b @ c) = Some e"
proof -
  from assms have e: "4 \<le> e" "e \<le> length b" "take 4 (drop (e - 4) b) = crlfcrlf"
    "\<forall>j < e - 4. take 4 (drop j b) \<noteq> crlfcrlf"
    by (auto simp: find_header_end_Some_iff)
  have "take 4 (drop j (b @ c)) = take 4 (drop j b)" if "j \<le> e - 4" for j
    using that e by simp
  with e show ?thesis by (auto simp: find_header_end_Some_iff)
qed

interpretation head: stream_parser find_header_end
  by unfold_locales (rule find_header_end_append)

section \<open>The frame walker\<close>

record FastFrame =
  ff_opcode :: u8
  ff_payload :: bytes
  ff_payload_start :: nat

datatype VisitOutcome = VisitContinue | VisitStop

datatype ScanOutcome =
    Exhausted nat
  | Partial nat nat
  | Fallback nat
  | Stopped nat

fun scan_consumed :: "ScanOutcome \<Rightarrow> nat" where
  "scan_consumed (Exhausted c) = c"
| "scan_consumed (Partial c n) = c"
| "scan_consumed (Fallback c) = c"
| "scan_consumed (Stopped c) = c"

type_synonym ('s, 'e) visitor = "FastFrame \<Rightarrow> 's \<Rightarrow> ('e + VisitOutcome) \<times> 's"

text \<open>The loop of \<^verbatim>\<open>walk_frames\<close> from offset \<open>off\<close>; the visitor is a closure over the state \<open>s\<close>.\<close>

function walk_frames_from ::
  "bytes \<Rightarrow> ('s, 'e) visitor \<Rightarrow> nat \<Rightarrow> 's \<Rightarrow> ('e + ScanOutcome) \<times> 's" where
  "walk_frames_from data visitor off s =
     (case parse_header (drop off data) of
        None \<Rightarrow> (Inr (Exhausted off), s)
      | Some (fin, rsv1, opcode, plen, hdr) \<Rightarrow>
          if plen > MAX_FRAME_SIZE then (Inr (Fallback off), s)
          else if length data - off < hdr + plen then (Inr (Partial off (hdr + plen)), s)
          else if \<not> fin \<or> opcode = OP_CONTINUATION \<or> rsv1 then (Inr (Fallback off), s)
          else
            (case visitor \<lparr>ff_opcode = opcode, ff_payload = take plen (drop (off + hdr) data),
                          ff_payload_start = off + hdr\<rparr> s of
               (Inl e, s') \<Rightarrow> (Inl e, s')
             | (Inr VisitStop, s') \<Rightarrow> (Inr (Stopped (off + (hdr + plen))), s')
             | (Inr VisitContinue, s') \<Rightarrow> walk_frames_from data visitor (off + (hdr + plen)) s'))"
  by pat_completeness auto
termination
proof (relation "measure (\<lambda>(data, visitor, off, s). length data - off)")
  fix data :: bytes and off plen hdr s' s and visitor :: "('s, 'e) visitor" and fin rsv1 opcode
    and h :: header and x1 x2 x3 x4 x5 x6 x7
  assume "parse_header (drop off data) = Some h" "(fin, x1) = h" "(rsv1, x2) = x1"
    "(opcode, x3) = x2" "(plen, hdr) = x3"
  then have "parse_header (drop off data) = Some (fin, rsv1, opcode, plen, hdr)" by simp
  then have "2 \<le> hdr" "hdr \<le> length (drop off data)" by (rule parse_header_shape)+
  then show "((data, visitor, off + (hdr + plen), s'), data, visitor, off, s)
      \<in> measure (\<lambda>(data, visitor, off, s). length data - off)"
    by simp
qed simp

declare walk_frames_from.simps [simp del]

definition walk_frames :: "bytes \<Rightarrow> ('s, 'e) visitor \<Rightarrow> 's \<Rightarrow> ('e + ScanOutcome) \<times> 's" where
  "walk_frames data visitor s = walk_frames_from data visitor 0 s"

section \<open>What the walker visits\<close>

text \<open>
  One turn of the loop without the visitor: either the scan ends at this offset, or there is
  a frame and the offset behind it.  The frames of a window are the turns until the scan ends.
\<close>

definition scan_step :: "bytes \<Rightarrow> nat \<Rightarrow> ScanOutcome + FastFrame \<times> nat" where
  "scan_step data off =
     (case parse_header (drop off data) of
        None \<Rightarrow> Inl (Exhausted off)
      | Some (fin, rsv1, opcode, plen, hdr) \<Rightarrow>
          if plen > MAX_FRAME_SIZE then Inl (Fallback off)
          else if length data - off < hdr + plen then Inl (Partial off (hdr + plen))
          else if \<not> fin \<or> opcode = OP_CONTINUATION \<or> rsv1 then Inl (Fallback off)
          else Inr (\<lparr>ff_opcode = opcode, ff_payload = take plen (drop (off + hdr) data),
                     ff_payload_start = off + hdr\<rparr>, off + (hdr + plen)))"

lemma scan_step_InrD:
  assumes "scan_step data off = Inr (f, off')"
  shows "off < off'" and "off' \<le> length data"
    and "off' = ff_payload_start f + length (ff_payload f)"
    and "ff_payload f = take (length (ff_payload f)) (drop (ff_payload_start f) data)"
    and "length (ff_payload f) \<le> MAX_FRAME_SIZE"
proof -
  from assms obtain fin rsv1 opcode plen hdr where
    ph: "parse_header (drop off data) = Some (fin, rsv1, opcode, plen, hdr)"
    and le: "hdr + plen \<le> length data - off" "plen \<le> MAX_FRAME_SIZE"
    and f: "f = \<lparr>ff_opcode = opcode, ff_payload = take plen (drop (off + hdr) data),
                 ff_payload_start = off + hdr\<rparr>" "off' = off + (hdr + plen)"
    by (auto simp: scan_step_def split: option.splits if_splits)
  have hdr: "2 \<le> hdr" "hdr \<le> length data - off" using parse_header_shape [OF ph] by simp_all
  have len: "length (ff_payload f) = plen" using f le hdr by simp
  show "off < off'" "off' \<le> length data" using f le hdr by simp_all
  show "off' = ff_payload_start f + length (ff_payload f)" using len f by simp
  show "ff_payload f = take (length (ff_payload f)) (drop (ff_payload_start f) data)"
    using len f by simp
  show "length (ff_payload f) \<le> MAX_FRAME_SIZE" using len le by simp
qed

lemma walk_frames_from_step:
  "walk_frames_from data visitor off s =
     (case scan_step data off of
        Inl out \<Rightarrow> (Inr out, s)
      | Inr (f, off') \<Rightarrow>
          (case visitor f s of
             (Inl e, s') \<Rightarrow> (Inl e, s')
           | (Inr VisitStop, s') \<Rightarrow> (Inr (Stopped off'), s')
           | (Inr VisitContinue, s') \<Rightarrow> walk_frames_from data visitor off' s'))"
  by (subst walk_frames_from.simps) (auto simp: scan_step_def split: option.split)

function split_frames :: "bytes \<Rightarrow> nat \<Rightarrow> FastFrame list \<times> ScanOutcome" where
  "split_frames data off =
     (case scan_step data off of
        Inl out \<Rightarrow> ([], out)
      | Inr (f, off') \<Rightarrow> map_prod (Cons f) id (split_frames data off'))"
  by pat_completeness auto
termination
  by (relation "measure (\<lambda>(data, off). length data - off)")
    (auto, frule scan_step_InrD(1), drule scan_step_InrD(2), linarith)

declare split_frames.simps [simp del]

fun visit_frames ::
  "('s, 'e) visitor \<Rightarrow> FastFrame list \<Rightarrow> 's \<Rightarrow> ('e + FastFrame option) \<times> 's" where
  "visit_frames visitor [] s = (Inr None, s)"
| "visit_frames visitor (f # fs) s =
     (case visitor f s of
        (Inl e, s') \<Rightarrow> (Inl e, s')
      | (Inr VisitStop, s') \<Rightarrow> (Inr (Some f), s')
      | (Inr VisitContinue, s') \<Rightarrow> visit_frames visitor fs s')"

definition ff_end :: "FastFrame \<Rightarrow> nat" where
  "ff_end f = ff_payload_start f + length (ff_payload f)"

lemma walk_frames_from_split:
  "walk_frames_from data visitor off s =
     (case visit_frames visitor (fst (split_frames data off)) s of
        (Inl e, s') \<Rightarrow> (Inl e, s')
      | (Inr None, s') \<Rightarrow> (Inr (snd (split_frames data off)), s')
      | (Inr (Some f), s') \<Rightarrow> (Inr (Stopped (ff_end f)), s'))"
proof (induction data off arbitrary: s rule: split_frames.induct)
  case (1 data off)
  show ?case
  proof (cases "scan_step data off")
    case (Inl out)
    then show ?thesis
      by (simp add: walk_frames_from_step [of data visitor off] split_frames.simps [of data off])
  next
    case (Inr p)
    obtain f off' where p: "p = (f, off')" by (cases p)
    note step = Inr [unfolded p]
    have end_f: "off' = ff_end f" using scan_step_InrD(3) [OF step] by (simp add: ff_end_def)
    have split: "split_frames data off = map_prod (Cons f) id (split_frames data off')"
      by (simp add: split_frames.simps [of data off] step)
    show ?thesis
      unfolding walk_frames_from_step [of data visitor off] split
      using "1.IH" [OF step refl]
      by (auto simp: step end_f split: prod.split sum.split option.split VisitOutcome.split)
  qed
qed

definition outcome_ok :: "bytes \<Rightarrow> ScanOutcome \<Rightarrow> bool" where
  "outcome_ok data out \<longleftrightarrow>
     scan_consumed out \<le> length data \<and>
     (case out of
        Exhausted c \<Rightarrow> parse_header (drop c data) = None
      | Partial c n \<Rightarrow> length data - c < n \<and> n \<le> 10 + MAX_FRAME_SIZE
      | Fallback c \<Rightarrow> (\<exists>fin rsv1 opcode plen hdr.
            parse_header (drop c data) = Some (fin, rsv1, opcode, plen, hdr) \<and>
            (plen > MAX_FRAME_SIZE \<or> \<not> fin \<or> opcode = OP_CONTINUATION \<or> rsv1))
      | Stopped c \<Rightarrow> 0 < c)"

lemma scan_step_InlD:
  "scan_step data off = Inl out \<Longrightarrow> off \<le> length data \<Longrightarrow> outcome_ok data out"
  using parse_header_shape(3)
  by (fastforce simp: scan_step_def outcome_ok_def split: option.splits if_splits)

lemma split_frames_ok:
  "off \<le> length data \<Longrightarrow> outcome_ok data (snd (split_frames data off))"
proof (induction data off rule: split_frames.induct)
  case (1 data off)
  then show ?case
    by (cases "scan_step data off")
      (auto simp: split_frames.simps [of data off] scan_step_InlD dest: scan_step_InrD(2))
qed

lemma split_frames_member:
  "f \<in> set (fst (split_frames data off)) \<Longrightarrow>
   0 < ff_end f \<and> ff_end f \<le> length data \<and> length (ff_payload f) \<le> MAX_FRAME_SIZE \<and>
   ff_payload f = take (length (ff_payload f)) (drop (ff_payload_start f) data)"
proof (induction data off rule: split_frames.induct)
  case (1 data off)
  show ?case
  proof (cases "scan_step data off")
    case (Inl out)
    with "1.prems" show ?thesis by (simp add: split_frames.simps [of data off])
  next
    case (Inr p)
    obtain g off' where step: "scan_step data off = Inr (g, off')" using Inr by (cases p) auto
    from "1.prems" step consider "f = g" | "f \<in> set (fst (split_frames data off'))"
      by (auto simp: split_frames.simps [of data off])
    then show ?thesis
    proof cases
      case 1
      with scan_step_InrD [OF step] show ?thesis by (auto simp: ff_end_def)
    next
      case 2
      with "1.IH" [OF step refl] show ?thesis by blast
    qed
  qed
qed

lemma visit_frames_member: "visit_frames v fs s = (Inr (Some f), s') \<Longrightarrow> f \<in> set fs"
  by (induction fs arbitrary: s) (auto split: prod.splits sum.splits VisitOutcome.splits)

lemma walk_frames_outcome_ok:
  assumes "walk_frames data visitor s = (Inr out, s')"
  shows "outcome_ok data out"
proof -
  consider "out = snd (split_frames data 0)"
    | f where "out = Stopped (ff_end f)" "f \<in> set (fst (split_frames data 0))"
    using assms
    by (auto simp: walk_frames_def walk_frames_from_split dest: visit_frames_member
        split: prod.splits sum.splits option.splits)
  then show ?thesis
  proof cases
    case 1
    then show ?thesis by (simp add: split_frames_ok)
  next
    case 2
    with split_frames_member [OF 2(2)] show ?thesis by (simp add: outcome_ok_def)
  qed
qed

section \<open>Properties\<close>

text \<open>C28 A header that parses is stable and in bounds: reading more of the stream never changes
  it, the header lies inside the buffer and is 2, 4 or 10 bytes long, the payload length fits
  \<^verbatim>\<open>u64\<close>, and the sum \<^verbatim>\<open>hdr + plen\<close>, which the callers form only after the size check,
  does not wrap.\<close>

theorem parse_header_sound:
  assumes "parse_header buf = Some (fin, rsv1, opcode, plen, hdr)"
  shows "parse_header (buf @ rest) = Some (fin, rsv1, opcode, plen, hdr) \<and>
    hdr \<in> {2, 4, 10} \<and> hdr \<le> length buf \<and> opcode \<le> 0x0F \<and> plen \<le> USIZE_MAX \<and>
    (plen \<le> MAX_FRAME_SIZE \<longrightarrow> hdr + plen \<le> USIZE_MAX)"
proof (intro conjI impI)
  note shape = parse_header_shape [OF assms]
  show "parse_header (buf @ rest) = Some (fin, rsv1, opcode, plen, hdr)"
    using assms by (rule hdr.parse_stable)
  show "hdr \<in> {2, 4, 10}" "opcode \<le> 0x0F"
    using assms word_and_le1 [of "buf ! 0" "0x0F"]
    by (auto simp: parse_header_def Let_def split: if_splits)
  show "hdr \<le> length buf" "plen \<le> USIZE_MAX" using shape by (simp_all add: USIZE_MAX_def)
  show "hdr + plen \<le> USIZE_MAX" if "plen \<le> MAX_FRAME_SIZE"
    using shape that by (simp add: USIZE_MAX_def MAX_FRAME_SIZE_def)
qed

theorem parse_header_sound_witness:
  "parse_header ([0x82, 126, 1, 0] @ [7, 7]) = Some (True, False, 2, 256, 4) \<and>
   4 + 256 \<le> USIZE_MAX"
proof -
  have "parse_header [0x82, 126, 1, 0] = Some (True, False, 2, 256, 4)"
    by (simp add: parse_header_def MIN_HDR_def from_be_bytes_def)
  from parse_header_sound [OF this, of "[7, 7]"] show ?thesis
    by (simp add: MAX_FRAME_SIZE_def)
qed

text \<open>C27 The header codec round trip: a frame head written with the shortest length form,
  masked or not, parses back to its flags, opcode and payload length, and the header size is
  where the head ends.\<close>

theorem header_round_trip:
  assumes "m = 0 \<or> m = 0x80" and "plen \<le> USIZE_MAX"
  shows "parse_header (frame_head b0 m plen @ rest) =
    Some (b0 AND 0x80 \<noteq> 0, b0 AND 0x40 \<noteq> 0, b0 AND 0x0F, plen, length (frame_head b0 m plen))"
  using assms by (intro parse_header_frame_head) (auto simp: USIZE_MAX_def)

theorem header_round_trip_witness:
  "parse_header (frame_head 0x82 0x80 70000 @ [1, 2, 3, 4]) =
     Some (True, False, 2, 70000, length (frame_head 0x82 0x80 70000))"
  using header_round_trip [of "0x80" 70000 "0x82" "[1, 2, 3, 4]"] by (simp add: USIZE_MAX_def)



end
