(* ===== verification/Protocol_Core.thy ===== *)
theory Protocol_Core
  imports Frame_Codec
begin

text \<open>
  The event side of \<^verbatim>\<open>ProtocolCore\<close> in \<^verbatim>\<open>src/src/native_client/protocol.rs\<close>: the opcode
  dispatch \<^verbatim>\<open>next_event\<close> with fragment reassembly, permessage-deflate decoding and the event
  pump \<^verbatim>\<open>emit_protocol_events\<close>.  The DEFLATE decoder of the \<^verbatim>\<open>flate2\<close> crate is the parameter
  \<open>inflate\<close>: it maps a complete input to the bytes it produces and whether it then fails.
\<close>

section \<open>State and events\<close>

record ProtocolCore =
  pc_buf :: bytes
  pc_handshake_done :: bool
  pc_expected_accept :: rstring
  pc_compression_enabled :: bool
  pc_fragment_buf :: "bytes option"
  pc_fragment_opcode :: u8
  pc_fragment_rsv1 :: bool

datatype ProtocolEvent =
    Message bytes
  | SendPong bytes
  | Pong bytes
  | Close "u16 option" "rstring option"
  | ProtocolError u16 string

datatype EventFlow = FlowContinue | FlowStop

section \<open>Compressed messages\<close>

type_synonym inflater = "bytes \<Rightarrow> bytes \<times> bool"

definition deflate_tail :: bytes where
  "deflate_tail = [0x00, 0x00, 0xFF, 0xFF]"

text \<open>\<^verbatim>\<open>decoder.take(n).read_to_end(..)\<close>: a failure behind the limit is never reached.\<close>

definition read_limited :: "inflater \<Rightarrow> nat \<Rightarrow> bytes \<Rightarrow> bytes option" where
  "read_limited inflate n input =
     (let (out, failed) = inflate input in
      if n \<le> length out then Some (take n out) else if failed then None else Some out)"

definition decompress_message :: "inflater \<Rightarrow> bool \<Rightarrow> bytes \<Rightarrow> ProtocolEvent + bytes" where
  "decompress_message inflate compression_enabled compressed =
     (if \<not> compression_enabled then
        Inl (ProtocolError 1002 ''received compressed frame but permessage-deflate is not enabled'')
      else case read_limited inflate (MAX_MESSAGE_SIZE + 1) (compressed @ deflate_tail) of
             None \<Rightarrow> Inl (ProtocolError 1002 ''deflate decode error'')
           | Some out \<Rightarrow>
               if length out > MAX_MESSAGE_SIZE then
                 Inl (ProtocolError 1009 ''decompressed message exceeds max message size'')
               else Inr out)"

lemma decompress_message_bound:
  "decompress_message inflate en c = Inr out \<Longrightarrow> length out \<le> MAX_MESSAGE_SIZE"
  by (auto simp: decompress_message_def split: if_splits option.splits)

text \<open>The payload of a finished message: inflated when its first frame had RSV1 set.\<close>

definition finish_message :: "inflater \<Rightarrow> bool \<Rightarrow> bool \<Rightarrow> bytes \<Rightarrow> ProtocolEvent" where
  "finish_message inflate enabled compressed raw =
     (if compressed then
        (case decompress_message inflate enabled raw of
           Inr inflated \<Rightarrow> Message inflated
         | Inl event \<Rightarrow> event)
      else Message raw)"

section \<open>The next event\<close>

function next_event :: "inflater \<Rightarrow> ProtocolCore \<Rightarrow> ProtocolEvent option \<times> ProtocolCore" where
  "next_event inflate c =
     (case parse_header (pc_buf c) of
        None \<Rightarrow> (None, c)
      | Some (fin, rsv1, opcode, plen, hdr) \<Rightarrow>
          if plen > MAX_FRAME_SIZE then
            (Some (ProtocolError 1009 ''frame payload exceeds max frame size''), c)
          else if length (pc_buf c) < hdr + plen then (None, c)
          else
            let payload = take plen (drop hdr (pc_buf c));
                c' = c\<lparr>pc_buf := drop (hdr + plen) (pc_buf c)\<rparr>
            in if opcode = OP_TEXT \<or> opcode = OP_BINARY then
                 (if pc_fragment_buf c \<noteq> None then
                    (Some (ProtocolError 1002
                       ''new data frame while fragmented message is in progress''), c)
                  else if fin then
                    (Some (finish_message inflate (pc_compression_enabled c) rsv1 payload), c')
                  else next_event inflate
                         (c'\<lparr>pc_fragment_buf := Some payload, pc_fragment_opcode := opcode,
                             pc_fragment_rsv1 := rsv1\<rparr>))
               else if opcode = OP_CONTINUATION then
                 (case pc_fragment_buf c of
                    None \<Rightarrow> (Some (ProtocolError 1002
                               ''continuation frame without fragmented message''), c)
                  | Some fragment \<Rightarrow>
                      if length fragment + plen > MAX_MESSAGE_SIZE then
                        (Some (ProtocolError 1009
                           ''fragmented message exceeds max message size''), c)
                      else if fin then
                        (Some (finish_message inflate (pc_compression_enabled c)
                                 (pc_fragment_rsv1 c) (fragment @ payload)),
                         c'\<lparr>pc_fragment_buf := None, pc_fragment_opcode := 0,
                            pc_fragment_rsv1 := False\<rparr>)
                      else next_event inflate
                             (c'\<lparr>pc_fragment_buf := Some (fragment @ payload)\<rparr>))
               else if opcode = OP_CLOSE then
                 (let (code, reason) = parse_close_payload payload
                  in (Some (Close code reason), c'))
               else if opcode = OP_PING then (Some (SendPong payload), c')
               else if opcode = OP_PONG then (Some (Pong payload), c')
               else next_event inflate c')"
  by pat_completeness auto
termination
proof (relation "measure (\<lambda>(inflate, c). length (pc_buf c))")
qed (auto dest: parse_header_pos)

declare next_event.simps [simp del]

section \<open>One turn of the loop\<close>

text \<open>
  A turn looks at one frame: it returns (\<open>Inl\<close>), or it goes round again with the frame
  consumed (\<open>Inr\<close>).  Properties of \<open>next_event\<close> are proved per turn and lifted by
  \<open>next_event_induct\<close>.
\<close>

definition dispatch ::
  "inflater \<Rightarrow> bool \<Rightarrow> bool \<Rightarrow> u8 \<Rightarrow> bytes \<Rightarrow> ProtocolCore \<Rightarrow> ProtocolCore \<Rightarrow>
   (ProtocolEvent option \<times> ProtocolCore) + ProtocolCore" where
  "dispatch inflate fin rsv1 opcode payload c c' =
     (if opcode = OP_TEXT \<or> opcode = OP_BINARY then
        (if pc_fragment_buf c \<noteq> None then
           Inl (Some (ProtocolError 1002
              ''new data frame while fragmented message is in progress''), c)
         else if fin then
           Inl (Some (finish_message inflate (pc_compression_enabled c) rsv1 payload), c')
         else Inr (c'\<lparr>pc_fragment_buf := Some payload, pc_fragment_opcode := opcode,
                       pc_fragment_rsv1 := rsv1\<rparr>))
      else if opcode = OP_CONTINUATION then
        (case pc_fragment_buf c of
           None \<Rightarrow> Inl (Some (ProtocolError 1002
                     ''continuation frame without fragmented message''), c)
         | Some fragment \<Rightarrow>
             if length fragment + length payload > MAX_MESSAGE_SIZE then
               Inl (Some (ProtocolError 1009 ''fragmented message exceeds max message size''), c)
             else if fin then
               Inl (Some (finish_message inflate (pc_compression_enabled c)
                            (pc_fragment_rsv1 c) (fragment @ payload)),
                    c'\<lparr>pc_fragment_buf := None, pc_fragment_opcode := 0,
                       pc_fragment_rsv1 := False\<rparr>)
             else Inr (c'\<lparr>pc_fragment_buf := Some (fragment @ payload)\<rparr>))
      else if opcode = OP_CLOSE then
        (let (code, reason) = parse_close_payload payload in Inl (Some (Close code reason), c'))
      else if opcode = OP_PING then Inl (Some (SendPong payload), c')
      else if opcode = OP_PONG then Inl (Some (Pong payload), c')
      else Inr c')"

definition event_turn ::
  "inflater \<Rightarrow> ProtocolCore \<Rightarrow> (ProtocolEvent option \<times> ProtocolCore) + ProtocolCore" where
  "event_turn inflate c =
     (case parse_header (pc_buf c) of
        None \<Rightarrow> Inl (None, c)
      | Some (fin, rsv1, opcode, plen, hdr) \<Rightarrow>
          if plen > MAX_FRAME_SIZE then
            Inl (Some (ProtocolError 1009 ''frame payload exceeds max frame size''), c)
          else if length (pc_buf c) < hdr + plen then Inl (None, c)
          else dispatch inflate fin rsv1 opcode (take plen (drop hdr (pc_buf c))) c
                 (c\<lparr>pc_buf := drop (hdr + plen) (pc_buf c)\<rparr>))"

lemma next_event_turn:
  "next_event inflate c =
     (case event_turn inflate c of Inl r \<Rightarrow> r | Inr c' \<Rightarrow> next_event inflate c')"
  by (subst next_event.simps)
    (auto simp: event_turn_def dispatch_def Let_def not_less split: option.split prod.split)

lemma dispatch_Inr_buf: "dispatch inflate fin rsv1 opcode payload c c' = Inr d \<Longrightarrow> pc_buf d = pc_buf c'"
  by (auto simp: dispatch_def Let_def split: if_splits option.splits prod.splits)

text \<open>A turn that dispatches has a whole frame in front of it and leaves the rest.\<close>

lemma event_turn_cases [consumes 0, case_names Short Oversized Frame]:
  assumes "event_turn inflate c = Inl (None, c) \<Longrightarrow> P"
    and "\<And>fin rsv1 opcode plen hdr. parse_header (pc_buf c) = Some (fin, rsv1, opcode, plen, hdr) \<Longrightarrow>
           plen > MAX_FRAME_SIZE \<Longrightarrow> event_turn inflate c =
             Inl (Some (ProtocolError 1009 ''frame payload exceeds max frame size''), c) \<Longrightarrow> P"
    and "\<And>fin rsv1 opcode plen hdr. parse_header (pc_buf c) = Some (fin, rsv1, opcode, plen, hdr) \<Longrightarrow>
           plen \<le> MAX_FRAME_SIZE \<Longrightarrow> hdr + plen \<le> length (pc_buf c) \<Longrightarrow> 0 < hdr \<Longrightarrow>
           event_turn inflate c =
             dispatch inflate fin rsv1 opcode (take plen (drop hdr (pc_buf c))) c
               (c\<lparr>pc_buf := drop (hdr + plen) (pc_buf c)\<rparr>) \<Longrightarrow> P"
  shows P
proof (cases "parse_header (pc_buf c)")
  case None
  then show P using assms(1) by (simp add: event_turn_def)
next
  case (Some h)
  obtain fin rsv1 opcode plen hdr where h: "h = (fin, rsv1, opcode, plen, hdr)" by (cases h)
  note ph = Some [unfolded h]
  consider "plen > MAX_FRAME_SIZE" | "plen \<le> MAX_FRAME_SIZE" "length (pc_buf c) < hdr + plen"
    | "plen \<le> MAX_FRAME_SIZE" "hdr + plen \<le> length (pc_buf c)"
    by linarith
  then show P
  proof cases
    case 1
    then show P using assms(2) [OF ph] by (simp add: event_turn_def ph)
  next
    case 2
    then show P using assms(1) by (simp add: event_turn_def ph)
  next
    case 3
    then show P using assms(3) [OF ph] parse_header_pos [OF ph] by (simp add: event_turn_def ph)
  qed
qed

lemma event_turn_decreases:
  "event_turn inflate c = Inr c' \<Longrightarrow> length (pc_buf c') < length (pc_buf c)"
  by (rule event_turn_cases [of inflate c]) (auto dest!: dispatch_Inr_buf)

lemma next_event_induct [case_names Turn]:
  assumes "\<And>c. (\<And>c'. event_turn inflate c = Inr c' \<Longrightarrow> P c') \<Longrightarrow> P c"
  shows "P c"
proof (induction "length (pc_buf c)" arbitrary: c rule: less_induct)
  case less
  then show ?case using assms event_turn_decreases by blast
qed

section \<open>Progress, bounds and the fragment invariant\<close>

fun is_error :: "ProtocolEvent \<Rightarrow> bool" where
  "is_error (ProtocolError code reason) = True"
| "is_error _ = False"

fun terminal :: "ProtocolEvent \<Rightarrow> bool" where
  "terminal (ProtocolError code reason) = True"
| "terminal (Close code reason) = True"
| "terminal _ = False"

definition fragment_bounded :: "ProtocolCore \<Rightarrow> bool" where
  "fragment_bounded c \<longleftrightarrow> (\<forall>f. pc_fragment_buf c = Some f \<longrightarrow> length f \<le> MAX_MESSAGE_SIZE)"

fun event_bounded :: "ProtocolEvent option \<Rightarrow> bool" where
  "event_bounded (Some (Message m)) = (length m \<le> MAX_MESSAGE_SIZE)"
| "event_bounded (Some (SendPong p)) = (length p \<le> MAX_FRAME_SIZE)"
| "event_bounded (Some (Pong p)) = (length p \<le> MAX_FRAME_SIZE)"
| "event_bounded _ = True"

lemma finish_message_bounded:
  "length raw \<le> MAX_MESSAGE_SIZE \<Longrightarrow> event_bounded (Some (finish_message inflate en cpr raw))"
  by (auto simp: finish_message_def decompress_message_def split: sum.splits option.splits if_splits)

lemma MAX_FRAME_le_MESSAGE: "MAX_FRAME_SIZE \<le> MAX_MESSAGE_SIZE"
  by (simp add: MAX_FRAME_SIZE_def MAX_MESSAGE_SIZE_def)

lemma dispatch_bounded:
  assumes "fragment_bounded c" and "length payload \<le> MAX_FRAME_SIZE"
    and "pc_fragment_buf c' = pc_fragment_buf c"
  shows "case dispatch inflate fin rsv1 opcode payload c c' of
           Inl (e, d) \<Rightarrow> event_bounded e \<and> fragment_bounded d
         | Inr d \<Rightarrow> fragment_bounded d"
proof -
  have "length payload \<le> MAX_MESSAGE_SIZE" using assms(2) MAX_FRAME_le_MESSAGE by linarith
  with assms show ?thesis
    by (auto simp: dispatch_def Let_def fragment_bounded_def finish_message_bounded
        split: option.split prod.split)
qed

lemma event_turn_bounded:
  assumes "fragment_bounded c"
  shows "case event_turn inflate c of
           Inl (e, d) \<Rightarrow> event_bounded e \<and> fragment_bounded d
         | Inr d \<Rightarrow> fragment_bounded d"
proof (rule event_turn_cases [of inflate c])
  fix fin rsv1 opcode plen hdr
  assume "plen \<le> MAX_FRAME_SIZE" and turn: "event_turn inflate c =
    dispatch inflate fin rsv1 opcode (take plen (drop hdr (pc_buf c))) c
      (c\<lparr>pc_buf := drop (hdr + plen) (pc_buf c)\<rparr>)"
  then show ?thesis
    unfolding turn using assms by (intro dispatch_bounded) auto
qed (use assms in simp_all)

lemma next_event_bounded:
  "fragment_bounded c \<Longrightarrow> next_event inflate c = (e, d) \<Longrightarrow> event_bounded e \<and> fragment_bounded d"
proof (induction c rule: next_event_induct [where inflate = inflate])
  case (Turn c)
  then show ?case
    using event_turn_bounded [OF Turn.prems(1), of inflate]
    by (cases "event_turn inflate c") (auto simp: next_event_turn [of inflate c])
qed

text \<open>An event that is not a protocol error consumed its frame, so the pump makes progress.\<close>

lemma dispatch_Inl_buf:
  "dispatch inflate fin rsv1 opcode payload c c' = Inl (Some e, d) \<Longrightarrow>
   pc_buf d = pc_buf c' \<or> is_error e \<and> d = c"
  by (auto simp: dispatch_def Let_def split: if_splits option.splits prod.splits)

lemma event_turn_progress:
  "event_turn inflate c = Inl (Some e, d) \<Longrightarrow>
   length (pc_buf d) < length (pc_buf c) \<or> is_error e \<and> d = c"
  by (rule event_turn_cases [of inflate c]) (auto dest!: dispatch_Inl_buf)

lemma next_event_progress:
  "next_event inflate c = (Some e, d) \<Longrightarrow>
   length (pc_buf d) \<le> length (pc_buf c) \<and> (is_error e \<or> length (pc_buf d) < length (pc_buf c))"
proof (induction c rule: next_event_induct [where inflate = inflate])
  case (Turn c)
  show ?case
  proof (cases "event_turn inflate c")
    case (Inl r)
    with Turn.prems have "event_turn inflate c = Inl (Some e, d)"
      by (simp add: next_event_turn [of inflate c])
    then show ?thesis by (auto dest: event_turn_progress)
  next
    case (Inr c')
    with Turn.prems have "next_event inflate c' = (Some e, d)"
      by (simp add: next_event_turn [of inflate c])
    from Turn.IH [OF Inr this] event_turn_decreases [OF Inr] show ?thesis by auto
  qed
qed

section \<open>Events of a byte stream\<close>

text \<open>
  All events up to the first one that ends the connection, as \<^verbatim>\<open>emit_protocol_events\<close> draws
  them when its sink only collects.
\<close>

function run_events :: "inflater \<Rightarrow> ProtocolCore \<Rightarrow> ProtocolEvent list \<times> ProtocolCore" where
  "run_events inflate c =
     (case next_event inflate c of
        (None, d) \<Rightarrow> ([], d)
      | (Some e, d) \<Rightarrow>
          if terminal e then ([e], d) else map_prod (Cons e) id (run_events inflate d))"
  by pat_completeness auto
termination
proof (relation "measure (\<lambda>(inflate, c). length (pc_buf c))")
  fix inflate c d o' e
  assume "(o', d) = next_event inflate c" "o' = Some e" "\<not> terminal e"
  then have "next_event inflate c = (Some e, d)" "\<not> is_error e" by (auto, cases e) auto
  then show "((inflate, d), inflate, c) \<in> measure (\<lambda>(inflate, c). length (pc_buf c))"
    by (auto dest: next_event_progress)
qed simp

declare run_events.simps [simp del]

definition ext :: "bytes \<Rightarrow> ProtocolCore \<Rightarrow> ProtocolCore" where
  "ext x c = c\<lparr>pc_buf := pc_buf c @ x\<rparr>"

lemma ext_simps [simp]:
  "pc_buf (ext x c) = pc_buf c @ x"
  "pc_fragment_buf (ext x c) = pc_fragment_buf c"
  "pc_fragment_opcode (ext x c) = pc_fragment_opcode c"
  "pc_fragment_rsv1 (ext x c) = pc_fragment_rsv1 c"
  "pc_compression_enabled (ext x c) = pc_compression_enabled c"
  "ext [] c = c"
  by (simp_all add: ext_def)

lemma dispatch_ext:
  "dispatch inflate fin rsv1 opcode payload (ext x c) (ext x c') =
   map_sum (map_prod id (ext x)) (ext x) (dispatch inflate fin rsv1 opcode payload c c')"
  by (auto simp: dispatch_def Let_def ext_def split: option.split prod.split)

lemma dispatch_not_None:
  "dispatch inflate fin rsv1 opcode payload c c' \<noteq> Inl (None, d)"
  by (auto simp: dispatch_def Let_def split: option.split prod.split)

lemma event_turn_ext:
  assumes "\<And>d. event_turn inflate c \<noteq> Inl (None, d)"
  shows "event_turn inflate (ext x c) =
         map_sum (map_prod id (ext x)) (ext x) (event_turn inflate c)"
proof (rule event_turn_cases [of inflate c])
  fix fin rsv1 opcode plen hdr
  assume "parse_header (pc_buf c) = Some (fin, rsv1, opcode, plen, hdr)" "plen > MAX_FRAME_SIZE"
  then show ?thesis by (simp add: event_turn_def parse_header_append)
next
  fix fin rsv1 opcode plen hdr
  assume ph: "parse_header (pc_buf c) = Some (fin, rsv1, opcode, plen, hdr)"
    "plen \<le> MAX_FRAME_SIZE" "hdr + plen \<le> length (pc_buf c)"
  have "(ext x c)\<lparr>pc_buf := drop (hdr + plen) (pc_buf (ext x c))\<rparr>
        = ext x (c\<lparr>pc_buf := drop (hdr + plen) (pc_buf c)\<rparr>)"
    using ph by (simp add: ext_def)
  with ph show ?thesis
    by (simp add: event_turn_def parse_header_append dispatch_ext)
qed (use assms in simp)

lemma event_turn_NoneD: "event_turn inflate c = Inl (None, d) \<Longrightarrow> d = c"
  by (auto simp: event_turn_def dispatch_not_None split: option.splits if_splits)

lemma next_event_append_Some:
  "next_event inflate c = (Some e, d) \<Longrightarrow> next_event inflate (ext x c) = (Some e, ext x d)"
proof (induction c rule: next_event_induct [where inflate = inflate])
  case (Turn c)
  have "event_turn inflate c \<noteq> Inl (None, d')" for d'
    using Turn.prems by (auto simp: next_event_turn [of inflate c])
  note turn = event_turn_ext [OF this, of x]
  show ?case
    using Turn by (cases "event_turn inflate c")
      (auto simp: next_event_turn [of inflate c] next_event_turn [of inflate "ext x c"] turn)
qed

lemma next_event_append_None:
  "next_event inflate c = (None, d) \<Longrightarrow> next_event inflate (ext x c) = next_event inflate (ext x d)"
proof (induction c rule: next_event_induct [where inflate = inflate])
  case (Turn c)
  show ?case
  proof (cases "event_turn inflate c")
    case (Inl r)
    with Turn.prems have "event_turn inflate c = Inl (None, d)"
      by (simp add: next_event_turn [of inflate c])
    from event_turn_NoneD [OF this] show ?thesis by simp
  next
    case (Inr c')
    then have turn: "event_turn inflate (ext x c) = Inr (ext x c')"
      using event_turn_ext [of inflate c x] by auto
    have "next_event inflate c' = (None, d)"
      using Turn.prems Inr by (simp add: next_event_turn [of inflate c])
    from Turn.IH [OF Inr this] turn show ?thesis
      by (simp add: next_event_turn [of inflate "ext x c"])
  qed
qed

text \<open>
  A stream cut in two: the second part is fed to the state the first part left behind, unless
  the first part already ended the connection, in which case it stays unread.
\<close>

definition ended :: "ProtocolEvent list \<Rightarrow> bool" where
  "ended es \<longleftrightarrow> es \<noteq> [] \<and> terminal (last es)"

lemma run_events_append:
  "run_events inflate (ext x c) =
     (case run_events inflate c of
        (es, d) \<Rightarrow> if ended es then (es, ext x d)
                  else map_prod (append es) id (run_events inflate (ext x d)))"
proof (induction inflate c rule: run_events.induct)
  case (1 inflate c)
  obtain o' d where ne: "next_event inflate c = (o', d)" by (cases "next_event inflate c")
  show ?case
  proof (cases o')
    case None
    with ne have c: "run_events inflate c = ([], d)" by (simp add: run_events.simps [of inflate c])
    have "run_events inflate (ext x c) = run_events inflate (ext x d)"
      using next_event_append_None [OF ne [unfolded None], of x]
      by (simp add: run_events.simps [of inflate "ext x c"] run_events.simps [of inflate "ext x d"])
    with c show ?thesis by (simp add: ended_def map_prod_def)
  next
    case (Some e)
    note ne' = ne [unfolded Some] and nex = next_event_append_Some [OF ne [unfolded Some], of x]
    show ?thesis
    proof (cases "terminal e")
      case True
      then show ?thesis
        using ne' nex by (simp add: run_events.simps [of inflate c]
            run_events.simps [of inflate "ext x c"] ended_def)
    next
      case False
      obtain es d' where r: "run_events inflate d = (es, d')" by (cases "run_events inflate d")
      have IH: "run_events inflate (ext x d) = (if ended es then (es, ext x d')
                  else map_prod (append es) id (run_events inflate (ext x d')))"
        using "1.IH" [OF ne' [symmetric] refl False] r by simp
      have "ended (e # es) = ended es" using False by (simp add: ended_def)
      then show ?thesis
        using False ne' nex r IH
        by (simp add: run_events.simps [of inflate c] run_events.simps [of inflate "ext x c"]
            map_prod_def split: prod.split)
    qed
  qed
qed

section \<open>Frames on the wire\<close>

text \<open>
  The frame-level view of the same machine: a \<open>Frame\<close> is what RFC 6455 calls one, \<open>encode_frame\<close>
  is how a server puts it on the wire, and \<open>frame_events\<close> reassembles messages from a list of
  frames without ever looking at bytes.  \<open>run_events_frames\<close> shows that the byte-level loop
  implements it.
\<close>

record Frame =
  fr_fin :: bool
  fr_rsv1 :: bool
  fr_opcode :: u8
  fr_payload :: bytes

definition frame_ok :: "Frame \<Rightarrow> bool" where
  "frame_ok f \<longleftrightarrow> fr_opcode f AND 0x0F = fr_opcode f \<and> length (fr_payload f) \<le> MAX_FRAME_SIZE"

definition first_byte :: "Frame \<Rightarrow> u8" where
  "first_byte f = (if fr_fin f then 0x80 else 0) OR (if fr_rsv1 f then 0x40 else 0) OR fr_opcode f"

definition encode_frame :: "Frame \<Rightarrow> bytes" where
  "encode_frame f = frame_head (first_byte f) 0 (length (fr_payload f)) @ fr_payload f"

lemma first_byte_fields:
  assumes "frame_ok f"
  shows "first_byte f AND 0x80 \<noteq> 0 \<longleftrightarrow> fr_fin f" and "first_byte f AND 0x40 \<noteq> 0 \<longleftrightarrow> fr_rsv1 f"
    and "first_byte f AND 0x0F = fr_opcode f"
proof -
  have op: "fr_opcode f AND 0x0F = fr_opcode f" using assms by (simp add: frame_ok_def)
  have "fr_opcode f AND 0x80 = (fr_opcode f AND 0x0F) AND 0x80" by (simp only: op)
  then have hi: "fr_opcode f AND 0x80 = 0" by (simp add: and.assoc)
  have "fr_opcode f AND 0x40 = (fr_opcode f AND 0x0F) AND 0x40" by (simp only: op)
  then have mid: "fr_opcode f AND 0x40 = 0" by (simp add: and.assoc)
  show "first_byte f AND 0x80 \<noteq> 0 \<longleftrightarrow> fr_fin f" "first_byte f AND 0x40 \<noteq> 0 \<longleftrightarrow> fr_rsv1 f"
    "first_byte f AND 0x0F = fr_opcode f"
    by (auto simp: first_byte_def bit.conj_disj_distrib2 hi mid op)
qed

lemma parse_header_encode_frame:
  assumes "frame_ok f"
  shows "parse_header (encode_frame f @ rest) =
    Some (fr_fin f, fr_rsv1 f, fr_opcode f, length (fr_payload f),
          length (encode_frame f) - length (fr_payload f))"
proof -
  have "length (fr_payload f) < 2 ^ 64"
    using assms by (simp add: frame_ok_def MAX_FRAME_SIZE_def)
  then show ?thesis
    using parse_header_frame_head [of 0 "length (fr_payload f)" "first_byte f" "fr_payload f @ rest"]
      first_byte_fields [OF assms] by (simp add: encode_frame_def)
qed

lemma event_turn_encode_frame:
  assumes "frame_ok f" and "pc_buf c = encode_frame f @ rest"
  shows "event_turn inflate c =
    dispatch inflate (fr_fin f) (fr_rsv1 f) (fr_opcode f) (fr_payload f) c (c\<lparr>pc_buf := rest\<rparr>)"
proof -
  have "length (fr_payload f) \<le> MAX_FRAME_SIZE" using assms by (simp add: frame_ok_def)
  then show ?thesis
    using parse_header_encode_frame [OF assms(1), of rest]
    by (simp add: event_turn_def assms(2)) (simp add: encode_frame_def)
qed

text \<open>Assembly in progress: the RSV1 bit of the first frame and the bytes so far.\<close>

type_synonym assembly = "(bool \<times> bytes) option"

definition frame_dispatch ::
  "inflater \<Rightarrow> bool \<Rightarrow> assembly \<Rightarrow> Frame \<Rightarrow> (ProtocolEvent \<times> assembly \<times> bool) + assembly" where
  "frame_dispatch inflate enabled asm f =
     (if fr_opcode f = OP_TEXT \<or> fr_opcode f = OP_BINARY then
        (if asm \<noteq> None then
           Inl (ProtocolError 1002 ''new data frame while fragmented message is in progress'', asm, False)
         else if fr_fin f then Inl (finish_message inflate enabled (fr_rsv1 f) (fr_payload f), None, True)
         else Inr (Some (fr_rsv1 f, fr_payload f)))
      else if fr_opcode f = OP_CONTINUATION then
        (case asm of
           None \<Rightarrow> Inl (ProtocolError 1002 ''continuation frame without fragmented message'', asm, False)
         | Some (rsv1, sofar) \<Rightarrow>
             if length sofar + length (fr_payload f) > MAX_MESSAGE_SIZE then
               Inl (ProtocolError 1009 ''fragmented message exceeds max message size'', asm, False)
             else if fr_fin f then
               Inl (finish_message inflate enabled rsv1 (sofar @ fr_payload f), None, True)
             else Inr (Some (rsv1, sofar @ fr_payload f)))
      else if fr_opcode f = OP_CLOSE then
        Inl (Close (fst (parse_close_payload (fr_payload f))) (snd (parse_close_payload (fr_payload f))), asm, True)
      else if fr_opcode f = OP_PING then Inl (SendPong (fr_payload f), asm, True)
      else if fr_opcode f = OP_PONG then Inl (Pong (fr_payload f), asm, True)
      else Inr asm)"

fun frame_events ::
  "inflater \<Rightarrow> bool \<Rightarrow> assembly \<Rightarrow> Frame list \<Rightarrow> ProtocolEvent list \<times> assembly \<times> Frame list" where
  "frame_events inflate enabled asm [] = ([], asm, [])"
| "frame_events inflate enabled asm (f # fs) =
     (case frame_dispatch inflate enabled asm f of
        Inr asm' \<Rightarrow> frame_events inflate enabled asm' fs
      | Inl (e, asm', consumed) \<Rightarrow>
          if terminal e then ([e], asm', if consumed then fs else f # fs)
          else map_prod (Cons e) id (frame_events inflate enabled asm' fs))"

definition assembly_of :: "ProtocolCore \<Rightarrow> assembly" where
  "assembly_of c = map_option (\<lambda>b. (pc_fragment_rsv1 c, b)) (pc_fragment_buf c)"

lemma dispatch_frame_dispatch:
  assumes "assembly_of c = asm" and "c' = c\<lparr>pc_buf := rest\<rparr>"
  shows "case dispatch inflate (fr_fin f) (fr_rsv1 f) (fr_opcode f) (fr_payload f) c c' of
      Inr d \<Rightarrow> frame_dispatch inflate (pc_compression_enabled c) asm f = Inr (assembly_of d) \<and>
              pc_buf d = rest \<and> pc_compression_enabled d = pc_compression_enabled c
    | Inl (e, d) \<Rightarrow> \<exists>ev consumed. e = Some ev \<and>
              frame_dispatch inflate (pc_compression_enabled c) asm f = Inl (ev, assembly_of d, consumed) \<and>
              (consumed \<or> terminal ev) \<and>
              pc_buf d = (if consumed then rest else pc_buf c) \<and>
              pc_compression_enabled d = pc_compression_enabled c"
proof -
  note defs = dispatch_def frame_dispatch_def assembly_of_def assms(2) ex_bool_eq
  have asm: "asm = map_option (\<lambda>b. (pc_fragment_rsv1 c, b)) (pc_fragment_buf c)"
    using assms(1) by (simp add: assembly_of_def)
  consider "fr_opcode f = OP_TEXT \<or> fr_opcode f = OP_BINARY"
    | "\<not> (fr_opcode f = OP_TEXT \<or> fr_opcode f = OP_BINARY)" "fr_opcode f = OP_CONTINUATION"
    | "\<not> (fr_opcode f = OP_TEXT \<or> fr_opcode f = OP_BINARY)" "fr_opcode f \<noteq> OP_CONTINUATION"
    by blast
  then show ?thesis
  proof cases
    case 1
    then show ?thesis by (cases "pc_fragment_buf c") (simp_all add: defs asm)
  next
    case 2
    then show ?thesis by (cases "pc_fragment_buf c") (simp_all add: defs asm)
  next
    case 3
    then show ?thesis
      by (cases "parse_close_payload (fr_payload f)") (simp add: defs asm)
  qed
qed

lemma run_events_turn:
  "run_events inflate c =
     (case event_turn inflate c of
        Inl (None, d) \<Rightarrow> ([], d)
      | Inl (Some e, d) \<Rightarrow> if terminal e then ([e], d) else map_prod (Cons e) id (run_events inflate d)
      | Inr d \<Rightarrow> run_events inflate d)"
proof (cases "event_turn inflate c")
  case (Inl r)
  then show ?thesis
    by (cases r) (simp add: run_events.simps [of inflate c] next_event_turn [of inflate c])
next
  case (Inr d)
  then show ?thesis
    by (simp add: run_events.simps [of inflate c] run_events.simps [of inflate d]
        next_event_turn [of inflate c])
qed

lemma event_turn_short: "length (pc_buf c) < MIN_HDR \<Longrightarrow> event_turn inflate c = Inl (None, c)"
  by (simp add: event_turn_def parse_header_def)

lemma run_events_frames:
  assumes "list_all frame_ok fs" and "pc_buf c = concat (map encode_frame fs)"
    and "frame_events inflate (pc_compression_enabled c) (assembly_of c) fs = (es, asm, left)"
  shows "\<exists>d. run_events inflate c = (es, d) \<and> assembly_of d = asm \<and>
             pc_buf d = concat (map encode_frame left)"
  using assms
proof (induction fs arbitrary: c es)
  case Nil
  then show ?case
    by (simp add: run_events_turn [of inflate c] event_turn_short MIN_HDR_def)
next
  case (Cons f fs)
  define rest where "rest = concat (map encode_frame fs)"
  have turn: "event_turn inflate c =
      dispatch inflate (fr_fin f) (fr_rsv1 f) (fr_opcode f) (fr_payload f) c (c\<lparr>pc_buf := rest\<rparr>)"
    using Cons.prems by (intro event_turn_encode_frame) (auto simp: rest_def)
  note sim = dispatch_frame_dispatch [OF refl refl, where inflate = inflate and f = f and c = c
      and rest = rest, folded turn]
  have ok: "list_all frame_ok fs" using Cons.prems(1) by simp
  note IH = Cons.IH [OF ok, folded rest_def]
  show ?case
  proof (cases "event_turn inflate c")
    case (Inr d)
    with sim IH [of d es] Cons.prems(3) show ?thesis
      by (simp add: run_events_turn [of inflate c])
  next
    case (Inl r)
    with sim obtain ev d consumed where r: "r = (Some ev, d)"
      "frame_dispatch inflate (pc_compression_enabled c) (assembly_of c) f = Inl (ev, assembly_of d, consumed)"
      "consumed \<or> terminal ev" "pc_buf d = (if consumed then rest else pc_buf c)"
      "pc_compression_enabled d = pc_compression_enabled c"
      by (cases r) auto
    show ?thesis
    proof (cases "terminal ev")
      case True
      then show ?thesis
        using Inl r Cons.prems(2,3) by (auto simp: run_events_turn [of inflate c] rest_def)
    next
      case False
      with r Cons.prems(3) obtain es' where "es = ev # es'"
        "frame_events inflate (pc_compression_enabled d) (assembly_of d) fs = (es', asm, left)"
        by (auto simp: map_prod_def split: prod.splits)
      then show ?thesis
        using IH [of d es'] Inl r False by (auto simp: run_events_turn [of inflate c])
    qed
  qed
qed

section \<open>Reassembly of fragmented messages\<close>

text \<open>
  The data frames RFC 6455 prescribes for a message sent in pieces: the first carries the
  opcode and the RSV1 bit, the others are continuations, the last has FIN.
\<close>

definition is_data :: "Frame \<Rightarrow> bool" where
  "is_data f \<longleftrightarrow> fr_opcode f = OP_TEXT \<or> fr_opcode f = OP_BINARY \<or> fr_opcode f = OP_CONTINUATION"

fun continuation_frames :: "bytes list \<Rightarrow> Frame list" where
  "continuation_frames [] = []"
| "continuation_frames (p # ps) =
     \<lparr>fr_fin = (ps = []), fr_rsv1 = False, fr_opcode = OP_CONTINUATION, fr_payload = p\<rparr>
       # continuation_frames ps"

fun message_frames :: "u8 \<Rightarrow> bool \<Rightarrow> bytes list \<Rightarrow> Frame list" where
  "message_frames opcode rsv1 [] = []"
| "message_frames opcode rsv1 (p # ps) =
     \<lparr>fr_fin = (ps = []), fr_rsv1 = rsv1, fr_opcode = opcode, fr_payload = p\<rparr>
       # continuation_frames ps"

text \<open>Pings and pongs may come between the pieces; their events keep their places.\<close>

definition is_ping_or_pong :: "Frame \<Rightarrow> bool" where
  "is_ping_or_pong f \<longleftrightarrow> fr_opcode f = OP_PING \<or> fr_opcode f = OP_PONG"

definition control_event :: "Frame \<Rightarrow> ProtocolEvent" where
  "control_event f = (if fr_opcode f = OP_PING then SendPong (fr_payload f) else Pong (fr_payload f))"

lemma frame_dispatch_control:
  "is_ping_or_pong f \<Longrightarrow> frame_dispatch inflate en asm f = Inl (control_event f, asm, True)"
  by (auto simp: is_ping_or_pong_def frame_dispatch_def control_event_def opcode_defs)

lemma control_not_terminal [simp]: "\<not> terminal (control_event f)"
  by (simp add: control_event_def)

lemma is_data_cases:
  "is_data f \<or> is_ping_or_pong f \<Longrightarrow> \<not> is_data f \<Longrightarrow> is_ping_or_pong f"
  "is_ping_or_pong f \<Longrightarrow> \<not> is_data f"
  by (auto simp: is_data_def is_ping_or_pong_def opcode_defs)

lemma last_data_filter_Nil:
  "fs = [] \<or> is_data (last fs) \<Longrightarrow> filter is_data fs = [] \<Longrightarrow> fs = []"
  by (cases fs rule: rev_cases) auto

lemma frame_events_continuation:
  assumes "filter is_data fs = continuation_frames ps" and "ps \<noteq> []"
    and "fs = [] \<or> is_data (last fs)" and "list_all (\<lambda>f. is_data f \<or> is_ping_or_pong f) fs"
    and "length sofar + length (concat ps) \<le> MAX_MESSAGE_SIZE"
  shows "frame_events inflate en (Some (rsv1, sofar)) fs =
    (map control_event (filter is_ping_or_pong fs) @ [finish_message inflate en rsv1 (sofar @ concat ps)],
     None, [])"
  using assms
proof (induction fs arbitrary: ps sofar)
  case Nil
  then show ?case by (cases ps) auto
next
  case (Cons f fs)
  have last: "fs = [] \<or> is_data (last fs)" using Cons.prems(3) by (auto split: if_splits)
  show ?case
  proof (cases "is_data f")
    case False
    with Cons.prems have "is_ping_or_pong f" by (auto intro: is_data_cases)
    moreover have "fs \<noteq> []" using Cons.prems False by (cases ps) auto
    ultimately show ?thesis
      using Cons.IH [of ps sofar] Cons.prems False last
      by (simp add: frame_dispatch_control)
  next
    case True
    then have npp: "\<not> is_ping_or_pong f" using is_data_cases(2) by blast
    obtain p ps' where ps: "ps = p # ps'" using Cons.prems(2) by (cases ps) auto
    with Cons.prems(1) True have f: "f = \<lparr>fr_fin = (ps' = []), fr_rsv1 = False,
        fr_opcode = OP_CONTINUATION, fr_payload = p\<rparr>"
      and fs: "filter is_data fs = continuation_frames ps'" by auto
    have len: "\<not> MAX_MESSAGE_SIZE < length sofar + length p" using Cons.prems(5) ps by simp
    show ?thesis
    proof (cases "ps' = []")
      case True
      then have "fs = []" using last_data_filter_Nil [OF last] fs by simp
      then show ?thesis
        using True f ps len npp by (simp add: frame_dispatch_def opcode_defs)
    next
      case False
      then show ?thesis
        using Cons.IH [of ps' "sofar @ p"] Cons.prems fs last f ps len npp
        by (simp add: frame_dispatch_def opcode_defs)
    qed
  qed
qed

lemma frame_events_message:
  assumes "filter is_data fs = message_frames opcode rsv1 ps" and "ps \<noteq> []"
    and "is_data (last fs)" and "list_all (\<lambda>f. is_data f \<or> is_ping_or_pong f) fs"
    and "opcode = OP_TEXT \<or> opcode = OP_BINARY" and "length (concat ps) \<le> MAX_MESSAGE_SIZE"
  shows "frame_events inflate en None fs =
    (map control_event (filter is_ping_or_pong fs) @ [finish_message inflate en rsv1 (concat ps)],
     None, [])"
  using assms
proof (induction fs)
  case Nil
  then show ?case by (cases ps) auto
next
  case (Cons f fs)
  have last: "fs = [] \<or> is_data (last fs)" using Cons.prems(3) by (auto split: if_splits)
  obtain p ps' where ps: "ps = p # ps'" using Cons.prems(2) by (cases ps) auto
  show ?case
  proof (cases "is_data f")
    case False
    with Cons.prems have "is_ping_or_pong f" by (auto intro: is_data_cases)
    moreover have "fs \<noteq> []" using Cons.prems ps False by auto
    ultimately show ?thesis
      using Cons.IH Cons.prems False by (simp add: frame_dispatch_control)
  next
    case True
    then have npp: "\<not> is_ping_or_pong f" using is_data_cases(2) by blast
    with Cons.prems(1) True ps have f: "f = \<lparr>fr_fin = (ps' = []), fr_rsv1 = rsv1,
        fr_opcode = opcode, fr_payload = p\<rparr>"
      and fs: "filter is_data fs = continuation_frames ps'" by auto
    show ?thesis
    proof (cases "ps' = []")
      case True
      then have "fs = []" using last_data_filter_Nil [OF last] fs by simp
      then show ?thesis
        using True f ps npp Cons.prems(5) by (auto simp: frame_dispatch_def)
    next
      case False
      note cont = frame_events_continuation [OF fs False last, where sofar = p]
      have "frame_dispatch inflate en None f = Inr (Some (rsv1, p))"
        using f False Cons.prems(5) by (auto simp: frame_dispatch_def)
      then show ?thesis
        using cont Cons.prems ps npp by simp
    qed
  qed
qed

section \<open>The frame walker and the event loop agree\<close>

text \<open>What the event loop reports for a frame the walker visits.\<close>

definition frame_event :: "FastFrame \<Rightarrow> ProtocolEvent option" where
  "frame_event f =
     (if ff_opcode f = OP_TEXT \<or> ff_opcode f = OP_BINARY then Some (Message (ff_payload f))
      else if ff_opcode f = OP_CLOSE then
        Some (Close (fst (parse_close_payload (ff_payload f))) (snd (parse_close_payload (ff_payload f))))
      else if ff_opcode f = OP_PING then Some (SendPong (ff_payload f))
      else if ff_opcode f = OP_PONG then Some (Pong (ff_payload f))
      else None)"

lemma scan_step_Inr_turn:
  assumes "scan_step data off = Inr (f, off')" and "pc_buf c = drop off data"
    and "pc_fragment_buf c = None"
  shows "event_turn inflate c =
    (case frame_event f of
       Some e \<Rightarrow> Inl (Some e, c\<lparr>pc_buf := drop off' data\<rparr>)
     | None \<Rightarrow> Inr (c\<lparr>pc_buf := drop off' data\<rparr>))"
proof -
  obtain fin rsv1 opcode plen hdr where
    ph: "parse_header (pc_buf c) = Some (fin, rsv1, opcode, plen, hdr)"
    and plen: "plen \<le> MAX_FRAME_SIZE" and len: "hdr + plen \<le> length (pc_buf c)"
    and flags: "fin" "\<not> rsv1" "opcode \<noteq> OP_CONTINUATION"
    and f: "ff_opcode f = opcode" "ff_payload f = take plen (drop hdr (pc_buf c))"
    and off': "drop off' data = drop (hdr + plen) (pc_buf c)"
    using assms(1,2)
    by (auto simp: scan_step_def add.commute add.left_commute split: option.splits if_splits)
  have turn: "event_turn inflate c = dispatch inflate fin rsv1 opcode (ff_payload f) c
      (c\<lparr>pc_buf := drop off' data\<rparr>)"
    using ph plen len f off' by (simp add: event_turn_def not_less)
  show ?thesis
    using flags assms(3) f(1) unfolding turn frame_event_def
    by (auto simp: dispatch_def finish_message_def split: prod.split)
qed

lemma scan_step_Inl_turn:
  assumes "scan_step data off = Inl out" and "pc_buf c = drop off data"
  shows "scan_consumed out = off"
    and "(\<exists>n. out = Exhausted off \<or> out = Partial off n) \<Longrightarrow> event_turn inflate c = Inl (None, c)"
  using assms by (auto simp: scan_step_def event_turn_def split: option.splits if_splits)

text \<open>The events of the visited frames, up to the first one that ends the connection.\<close>

fun events_of_frames :: "FastFrame list \<Rightarrow> ProtocolEvent list" where
  "events_of_frames [] = []"
| "events_of_frames (f # fs) =
     (case frame_event f of
        None \<Rightarrow> events_of_frames fs
      | Some e \<Rightarrow> if terminal e then [e] else e # events_of_frames fs)"

lemma split_frames_run_events:
  assumes "split_frames data off = (fs, out)" and "pc_buf c = drop off data"
    and "pc_fragment_buf c = None"
  shows "if ended (events_of_frames fs)
     then \<exists>rest. run_events inflate c = (events_of_frames fs, c\<lparr>pc_buf := rest\<rparr>)
     else run_events inflate c = map_prod (append (events_of_frames fs)) id
            (run_events inflate (c\<lparr>pc_buf := drop (scan_consumed out) data\<rparr>))"
  using assms
proof (induction data off arbitrary: c fs rule: split_frames.induct)
  case (1 data off)
  show ?case
  proof (cases "scan_step data off")
    case (Inl out')
    with "1.prems"(1) have "fs = []" "out = out'" by (auto simp: split_frames.simps [of data off])
    moreover have "c\<lparr>pc_buf := drop off data\<rparr> = c" using "1.prems"(2) [symmetric] by simp
    ultimately show ?thesis
      using scan_step_Inl_turn(1) [OF Inl "1.prems"(2)] by (simp add: ended_def map_prod_def)
  next
    case (Inr r)
    obtain f off' where step: "scan_step data off = Inr (f, off')" using Inr by (cases r) auto
    obtain fs' where fs: "fs = f # fs'" "split_frames data off' = (fs', out)"
      using "1.prems"(1) step by (auto simp: split_frames.simps [of data off] map_prod_def split: prod.splits)
    define c' where "c' = c\<lparr>pc_buf := drop off' data\<rparr>"
    have IH: "if ended (events_of_frames fs')
       then \<exists>rest. run_events inflate c' = (events_of_frames fs', c\<lparr>pc_buf := rest\<rparr>)
       else run_events inflate c' = map_prod (append (events_of_frames fs')) id
            (run_events inflate (c\<lparr>pc_buf := drop (scan_consumed out) data\<rparr>))"
    proof -
      have "c'\<lparr>pc_buf := x\<rparr> = c\<lparr>pc_buf := x\<rparr>" for x by (simp add: c'_def)
      moreover have "pc_buf c' = drop off' data" "pc_fragment_buf c' = None"
        using "1.prems"(3) by (simp_all add: c'_def)
      ultimately show ?thesis
        using "1.IH" [OF step refl fs(2), of c'] by (simp split: if_splits)
    qed
    have turn: "run_events inflate c = (case frame_event f of
        Some e \<Rightarrow> if terminal e then ([e], c') else map_prod (Cons e) id (run_events inflate c')
      | None \<Rightarrow> run_events inflate c')"
      using scan_step_Inr_turn [OF step "1.prems"(2,3), of inflate]
      by (simp add: run_events_turn [of inflate c] c'_def split: option.split)
    have ended: "ended (e # es) = ended es" if "\<not> terminal e" for e es
      using that by (simp add: ended_def)
    have c': "\<exists>rest. c' = c\<lparr>pc_buf := rest\<rparr>" unfolding c'_def by blast
    show ?thesis
      using IH c' by (cases "frame_event f")
        (auto simp: turn fs(1) ended map_prod_def ended_def [of "[_]"] split: prod.splits)
  qed
qed

text \<open>When the window ends in a partial frame the loop has nothing more to report either.\<close>

lemma run_events_rest:
  assumes "split_frames data off = (fs, out)" and "out = Exhausted k \<or> out = Partial k n"
  shows "run_events inflate (c\<lparr>pc_buf := drop k data\<rparr>) = ([], c\<lparr>pc_buf := drop k data\<rparr>)"
  using assms
proof (induction data off arbitrary: fs rule: split_frames.induct)
  case (1 data off)
  show ?case
  proof (cases "scan_step data off")
    case (Inl out')
    with "1.prems"(1) have out: "out = out'" by (simp add: split_frames.simps [of data off])
    then have "k = off"
      using scan_step_Inl_turn(1) [OF Inl, of "c\<lparr>pc_buf := drop off data\<rparr>"] "1.prems"(2) by auto
    then have "event_turn inflate (c\<lparr>pc_buf := drop k data\<rparr>) = Inl (None, c\<lparr>pc_buf := drop k data\<rparr>)"
      using "1.prems"(2) out by (intro scan_step_Inl_turn(2) [OF Inl]) auto
    then show ?thesis by (simp add: run_events_turn)
  next
    case (Inr r)
    obtain f off' where step: "scan_step data off = Inr (f, off')" using Inr by (cases r) auto
    obtain fs' where "split_frames data off' = (fs', out)"
      using "1.prems"(1) step by (auto simp: split_frames.simps [of data off] map_prod_def split: prod.splits)
    from "1.IH" [OF step refl this "1.prems"(2)] show ?thesis .
  qed
qed

section \<open>The event pump\<close>

text \<open>
  \<^verbatim>\<open>emit_protocol_events\<close>: the two closures share the state \<open>s\<close>.  The sink calls user code, so
  it may not return (\<open>None\<close>).
\<close>

partial_function (option) emit_protocol_events ::
  "('s \<Rightarrow> ProtocolEvent option \<times> 's) \<Rightarrow>
   (ProtocolEvent \<Rightarrow> 's \<Rightarrow> (('e + EventFlow) \<times> 's) option) \<Rightarrow> 's \<Rightarrow> (('e + unit) \<times> 's) option" where
  "emit_protocol_events next_ev sink s =
     (case next_ev s of
        (None, s') \<Rightarrow> Some (Inr (), s')
      | (Some event, s') \<Rightarrow>
          Option.bind (sink event s') (\<lambda>(r, s'').
            case r of
              Inl e \<Rightarrow> Some (Inl e, s'')
            | Inr FlowStop \<Rightarrow> Some (Inr (), s'')
            | Inr FlowContinue \<Rightarrow> emit_protocol_events next_ev sink s''))"

text \<open>
  A source and a sink that make progress: every event the sink wants to continue after leaves a
  smaller state behind, and the sink returns.  Then the pump returns.
\<close>

locale event_pump =
  fixes next_ev :: "'s \<Rightarrow> ProtocolEvent option \<times> 's"
    and sink :: "ProtocolEvent \<Rightarrow> 's \<Rightarrow> (('e + EventFlow) \<times> 's) option"
    and size_of :: "'s \<Rightarrow> nat" and ok :: "'s \<Rightarrow> bool"
  assumes sink_returns: "ok s \<Longrightarrow> next_ev s = (Some e, s') \<Longrightarrow> sink e s' \<noteq> None"
    and progress: "ok s \<Longrightarrow> next_ev s = (Some e, s') \<Longrightarrow>
          sink e s' = Some (Inr FlowContinue, s'') \<Longrightarrow> size_of s'' < size_of s \<and> ok s''"
begin

lemma emit_returns:
  assumes "ok s"
  shows "\<exists>r s'. emit_protocol_events next_ev sink s = Some (r, s')"
  using assms
proof (induction "size_of s" arbitrary: s rule: less_induct)
  case less
  obtain o' s1 where ne: "next_ev s = (o', s1)" by (cases "next_ev s")
  show ?case
  proof (cases o')
    case None
    then show ?thesis by (simp add: emit_protocol_events.simps [of next_ev sink s] ne)
  next
    case (Some e)
    note ne' = ne [unfolded Some]
    obtain r s2 where sk: "sink e s1 = Some (r, s2)" using sink_returns [OF less.prems ne'] by auto
    show ?thesis
    proof (cases "r = Inr FlowContinue")
      case True
      with progress [OF less.prems ne', of s2] sk less.hyps [of s2] show ?thesis
        by (simp add: emit_protocol_events.simps [of next_ev sink s] ne Some)
    next
      case False
      then show ?thesis
        using sk by (simp add: emit_protocol_events.simps [of next_ev sink s] ne Some
            split: sum.split EventFlow.split)
    qed
  qed
qed

end

text \<open>The sink that only collects: it turns the pump into \<open>run_events\<close>.\<close>

definition collect ::
  "ProtocolEvent \<Rightarrow> ProtocolEvent list \<times> ProtocolCore \<Rightarrow>
   ((unit + EventFlow) \<times> ProtocolEvent list \<times> ProtocolCore) option" where
  "collect e s = Some (Inr (if terminal e then FlowStop else FlowContinue), fst s @ [e], snd s)"

definition next_event_collect ::
  "inflater \<Rightarrow> ProtocolEvent list \<times> ProtocolCore \<Rightarrow>
   ProtocolEvent option \<times> ProtocolEvent list \<times> ProtocolCore" where
  "next_event_collect inflate s = (case next_event inflate (snd s) of (e, d) \<Rightarrow> (e, fst s, d))"

lemma not_terminal_not_error: "\<not> terminal e \<Longrightarrow> \<not> is_error e"
  by (cases e) auto

interpretation collecting: event_pump "next_event_collect inflate" collect
  "\<lambda>s. length (pc_buf (snd s))" "\<lambda>s. True" for inflate
  by unfold_locales
    (auto simp: next_event_collect_def collect_def not_terminal_not_error
      dest: next_event_progress split: prod.splits if_splits)

lemma emit_collects:
  "emit_protocol_events (next_event_collect inflate) collect (es, c) =
     Some (Inr (), map_prod (append es) id (run_events inflate c))"
proof (induction inflate c arbitrary: es rule: run_events.induct)
  case (1 inflate c)
  obtain o' d where ne: "next_event inflate c = (o', d)" by (cases "next_event inflate c")
  have nc: "next_event_collect inflate (es, c) = (o', es, d)"
    by (simp add: next_event_collect_def ne)
  note unfold = emit_protocol_events.simps [of "next_event_collect inflate" collect "(es, c)"]
    run_events.simps [of inflate c] nc ne
  show ?case
  proof (cases o')
    case None
    then show ?thesis by (simp add: unfold)
  next
    case (Some e)
    have "collect e (es, d) = Some (Inr (if terminal e then FlowStop else FlowContinue), es @ [e], d)"
      by (simp add: collect_def)
    with Some "1.IH" [OF ne [symmetric] Some, of "es @ [e]"] show ?thesis
      by (simp add: unfold map_prod_def split: prod.split)
  qed
qed

section \<open>Properties\<close>

text \<open>A connection past its handshake with nothing reassembled yet, for the examples.\<close>

definition idle_core :: "bytes \<Rightarrow> ProtocolCore" where
  "idle_core buf = \<lparr>pc_buf = buf, pc_handshake_done = True, pc_expected_accept = [],
     pc_compression_enabled = False, pc_fragment_buf = None, pc_fragment_opcode = 0,
     pc_fragment_rsv1 = False\<rparr>"

lemmas event_eval = next_event.simps parse_header_def MIN_HDR_def MAX_FRAME_SIZE_def
  MAX_MESSAGE_SIZE_def opcode_defs idle_core_def finish_message_def parse_close_payload_def

text \<open>C3 Delivery does not depend on how the stream is cut: feeding a stream in two reads
  yields the events of feeding it at once and leaves the same state, except that bytes behind
  a close or a protocol error stay unread.\<close>

theorem events_independent_of_chunking:
  "run_events inflate (c\<lparr>pc_buf := pc_buf c @ a @ b\<rparr>) =
     (case run_events inflate (c\<lparr>pc_buf := pc_buf c @ a\<rparr>) of
        (es, d) \<Rightarrow>
          if es \<noteq> [] \<and> terminal (last es) then (es, d\<lparr>pc_buf := pc_buf d @ b\<rparr>)
          else (case run_events inflate (d\<lparr>pc_buf := pc_buf d @ b\<rparr>) of (es', d') \<Rightarrow> (es @ es', d')))"
  using run_events_append [of inflate b "c\<lparr>pc_buf := pc_buf c @ a\<rparr>"]
  by (auto simp: ext_def ended_def map_prod_def split: prod.split)

text \<open>C4 A message sent in any number of pieces, text or binary, compressed or not, with pings
  and pongs between the pieces, is delivered as one message holding the concatenation of the
  pieces (inflated when the first frame had RSV1), after the control events and in their
  order, and the reassembly state is empty again.\<close>

theorem fragmented_message_reassembled:
  assumes "filter is_data fs = message_frames opcode rsv1 ps" and "ps \<noteq> []"
    and "is_data (last fs)" and "list_all (\<lambda>f. is_data f \<or> is_ping_or_pong f) fs"
    and "opcode = OP_TEXT \<or> opcode = OP_BINARY" and "length (concat ps) \<le> MAX_MESSAGE_SIZE"
    and "list_all frame_ok fs" and "pc_buf c = concat (map encode_frame fs)"
    and "pc_fragment_buf c = None"
  shows "\<exists>d. run_events inflate c =
      (map control_event (filter is_ping_or_pong fs) @
         [finish_message inflate (pc_compression_enabled c) rsv1 (concat ps)], d) \<and>
    pc_fragment_buf d = None \<and> pc_buf d = []"
proof -
  have asm: "assembly_of c = None" using assms(9) by (simp add: assembly_of_def)
  have "\<exists>d. run_events inflate c = (map control_event (filter is_ping_or_pong fs) @
      [finish_message inflate (pc_compression_enabled c) rsv1 (concat ps)], d) \<and>
    assembly_of d = None \<and> pc_buf d = concat (map encode_frame [])"
    by (rule run_events_frames [OF assms(7,8)]) (simp only: asm frame_events_message [OF assms(1-6)])
  then show ?thesis by (simp add: assembly_of_def)
qed

theorem fragmented_message_reassembled_witness:
  "\<exists>d. run_events (\<lambda>b. (b, False)) (idle_core (concat (map encode_frame
      [\<lparr>fr_fin = False, fr_rsv1 = False, fr_opcode = OP_TEXT, fr_payload = [65, 66]\<rparr>,
       \<lparr>fr_fin = True, fr_rsv1 = False, fr_opcode = OP_PING, fr_payload = [1]\<rparr>,
       \<lparr>fr_fin = True, fr_rsv1 = False, fr_opcode = OP_CONTINUATION, fr_payload = [67]\<rparr>])))
    = ([SendPong [1], Message [65, 66, 67]], d) \<and> pc_fragment_buf d = None \<and> pc_buf d = []"
  (is "\<exists>d. run_events ?inflate (idle_core (concat (map encode_frame ?fs))) = _ \<and> _")
  using fragmented_message_reassembled [of ?fs OP_TEXT False "[[65, 66], [67]]"
      "idle_core (concat (map encode_frame ?fs))" ?inflate]
  by (simp add: is_data_def is_ping_or_pong_def control_event_def frame_ok_def finish_message_def
      idle_core_def opcode_defs MAX_FRAME_SIZE_def MAX_MESSAGE_SIZE_def)

text \<open>C6 The byte-level event loop implements the frame-level reassembly: on the wire encoding
  of any list of well-formed frames it reports exactly the events of \<open>frame_events\<close>, ends in
  the same reassembly state, and leaves unread exactly the frames \<open>frame_events\<close> leaves.\<close>

theorem event_loop_refines_frames:
  assumes "list_all frame_ok fs" and "pc_buf c = concat (map encode_frame fs)"
    and "frame_events inflate (pc_compression_enabled c) (assembly_of c) fs = (es, asm, left)"
  shows "\<exists>d. run_events inflate c = (es, d) \<and> assembly_of d = asm \<and>
             pc_buf d = concat (map encode_frame left)"
  using assms by (rule run_events_frames)

theorem event_loop_refines_frames_witness:
  "\<exists>d. run_events (\<lambda>b. (b, False)) (idle_core (encode_frame
      \<lparr>fr_fin = True, fr_rsv1 = False, fr_opcode = OP_CONTINUATION, fr_payload = [67]\<rparr>))
    = ([ProtocolError 1002 ''continuation frame without fragmented message''], d) \<and>
    pc_buf d = encode_frame
      \<lparr>fr_fin = True, fr_rsv1 = False, fr_opcode = OP_CONTINUATION, fr_payload = [67]\<rparr>"
  (is "\<exists>d. run_events ?inflate (idle_core (encode_frame ?f)) = _ \<and> _")
  using event_loop_refines_frames [of "[?f]" "idle_core (encode_frame ?f)" ?inflate _ None "[?f]"]
  by (auto simp: frame_ok_def frame_dispatch_def assembly_of_def idle_core_def opcode_defs
      MAX_FRAME_SIZE_def)

text \<open>C7 The event loop keeps its memory bounds and always advances: with a bounded reassembly
  buffer, no event carries more than 64 MiB (16 MiB for a ping or pong), the reassembly buffer
  stays within 64 MiB, the unread buffer never grows, and every event that is not a protocol
  error has consumed input.\<close>

theorem next_event_bounds_and_progress:
  assumes "fragment_bounded c" and "next_event inflate c = (Some e, d)"
  shows "event_bounded (Some e) \<and> fragment_bounded d \<and> length (pc_buf d) \<le> length (pc_buf c) \<and>
    (is_error e \<or> length (pc_buf d) < length (pc_buf c))"
  using next_event_bounded [OF assms] next_event_progress [OF assms(2)] by blast

theorem next_event_bounds_and_progress_witness:
  "event_bounded (Some (SendPong [7])) \<and> fragment_bounded (idle_core [])"
  using next_event_bounds_and_progress [of "idle_core [0x89, 1, 7]" "\<lambda>b. (b, False)" "SendPong [7]"
      "idle_core []"]
  by (simp add: fragment_bounded_def event_eval)



end
