(* ===== verification/Handshake.thy ===== *)
theory Handshake
  imports Protocol_Core
begin

text \<open>
  The opening handshake of \<^verbatim>\<open>src/src/native_client/protocol.rs\<close>: the request
  \<^verbatim>\<open>build_handshake\<close> writes and the checks \<^verbatim>\<open>process_handshake\<close> makes on the response, with
  the reserved header names of \<^verbatim>\<open>src/src/lib.rs\<close>.  Random key, SHA-1 and Base64 come from other
  crates and are parameters.
\<close>

section \<open>The response\<close>

datatype HandshakeOutcome =
    Complete
  | HandshakePending
  | Accepted "rstring option" bool
  | Rejected "nat option"

text \<open>The local variables of the header loop.\<close>

record header_scan =
  hs_upgrade :: bool
  hs_connection :: bool
  hs_accept_count :: nat
  hs_matched :: bool
  hs_subprotocol :: "rstring option"
  hs_deflate_accepted :: bool

definition scan_init :: header_scan where
  "scan_init = \<lparr>hs_upgrade = False, hs_connection = False, hs_accept_count = 0, hs_matched = False,
     hs_subprotocol = None, hs_deflate_accepted = False\<rparr>"

definition is_upgrade_token :: "rstring \<Rightarrow> bool" where
  "is_upgrade_token token \<longleftrightarrow> eq_ignore_ascii_case (trim token) (lit ''upgrade'')"

definition scan_line :: "rstring \<Rightarrow> header_scan \<Rightarrow> rstring \<Rightarrow> header_scan" where
  "scan_line expected_accept h line =
     (case split_once 58 line of
        None \<Rightarrow> h
      | Some (name, value) \<Rightarrow>
          if eq_ignore_ascii_case name (lit ''sec-websocket-accept'') then
            h\<lparr>hs_accept_count := hs_accept_count h + 1, hs_matched := (trim value = expected_accept)\<rparr>
          else if eq_ignore_ascii_case name (lit ''upgrade'') then
            h\<lparr>hs_upgrade := hs_upgrade h \<or> eq_ignore_ascii_case (trim value) (lit ''websocket'')\<rparr>
          else if eq_ignore_ascii_case name (lit ''connection'') then
            h\<lparr>hs_connection := hs_connection h \<or>
                 list_ex is_upgrade_token (split_char 44 value)\<rparr>
          else if eq_ignore_ascii_case name (lit ''sec-websocket-protocol'') then
            h\<lparr>hs_subprotocol := Some (trim value)\<rparr>
          else if eq_ignore_ascii_case name (lit ''sec-websocket-extensions'') then
            h\<lparr>hs_deflate_accepted := hs_deflate_accepted h \<or>
                 contains (to_ascii_lowercase value) (lit ''permessage-deflate'')\<rparr>
          else h)"

definition status_parts :: "rstring list \<Rightarrow> rstring list" where
  "status_parts ls = split_whitespace (case ls of [] \<Rightarrow> [] | l # _ \<Rightarrow> l)"

definition valid_version :: "rstring list \<Rightarrow> bool" where
  "valid_version ls \<longleftrightarrow> (case status_parts ls of [] \<Rightarrow> False | v # _ \<Rightarrow> v = lit ''HTTP/1.1'')"

definition status_code :: "rstring list \<Rightarrow> nat option" where
  "status_code ls = (case status_parts ls of _ # v # _ \<Rightarrow> parse_u16 v | _ \<Rightarrow> None)"

definition process_handshake :: "ProtocolCore \<Rightarrow> HandshakeOutcome \<times> ProtocolCore" where
  "process_handshake c =
     (if pc_handshake_done c then (Complete, c)
      else case find_header_end (pc_buf c) of
        None \<Rightarrow> (HandshakePending, c)
      | Some e \<Rightarrow>
          let ls = lines (from_utf8_lossy (take e (pc_buf c)));
              h = foldl (scan_line (pc_expected_accept c)) scan_init (tl ls);
              c' = c\<lparr>pc_buf := drop e (pc_buf c)\<rparr>
          in if \<not> valid_version ls \<or> status_code ls \<noteq> Some 101 \<or> \<not> hs_upgrade h \<or>
                \<not> hs_connection h \<or> \<not> hs_matched h \<or> hs_accept_count h \<noteq> 1
             then (Rejected (status_code ls), c')
             else
               let enabled = (pc_compression_enabled c \<and> hs_deflate_accepted h) in
               (Accepted (hs_subprotocol h) enabled,
                c'\<lparr>pc_handshake_done := True, pc_compression_enabled := enabled\<rparr>))"

section \<open>The request\<close>

definition RESERVED_WEBSOCKET_HEADERS :: "rstring list" where
  "RESERVED_WEBSOCKET_HEADERS =
     [lit ''host'', lit ''upgrade'', lit ''connection'', lit ''sec-websocket-key'',
      lit ''sec-websocket-version'', lit ''sec-websocket-protocol'']"

definition is_reserved_websocket_header :: "rstring \<Rightarrow> bool" where
  "is_reserved_websocket_header name \<longleftrightarrow>
     list_ex (\<lambda>reserved. eq_ignore_ascii_case reserved name) RESERVED_WEBSOCKET_HEADERS"

definition MAGIC :: rstring where
  "MAGIC = lit ''258EAFA5-E914-47DA-95CA-C5AB0DC85B11''"

definition crlf :: rstring where
  "crlf = [13, 10]"

definition join :: "rstring \<Rightarrow> rstring list \<Rightarrow> rstring" where
  "join sep ss = (case ss of [] \<Rightarrow> [] | s # ss' \<Rightarrow> s @ concat (map (\<lambda>t. sep @ t) ss'))"

definition host_header :: "rstring \<Rightarrow> rstring" where
  "host_header host = (if contains host (lit '':'') then lit ''['' @ host @ lit '']'' else host)"

definition build_handshake ::
  "(bytes \<Rightarrow> rstring) \<Rightarrow> (bytes \<Rightarrow> bytes) \<Rightarrow> bytes \<Rightarrow> rstring \<Rightarrow> nat \<Rightarrow> rstring \<Rightarrow>
   (rstring \<times> rstring) list \<Rightarrow> rstring list \<Rightarrow> bool \<Rightarrow> bytes \<times> rstring" where
  "build_handshake base64 sha1 key_bytes host port path headers subprotocols compression =
     (let key = base64 key_bytes;
          expected = base64 (sha1 (utf8_encode key @ utf8_encode MAGIC));
          req = lit ''GET '' @ path @ lit '' HTTP/1.1'' @ crlf @
                lit ''Host: '' @ host_header host @ lit '':'' @ show_nat port @ crlf @
                lit ''Upgrade: websocket'' @ crlf @
                lit ''Connection: Upgrade'' @ crlf @
                lit ''Sec-WebSocket-Key: '' @ key @ crlf @
                lit ''Sec-WebSocket-Version: 13'' @ crlf;
          req = (if subprotocols \<noteq> [] then
                   req @ lit ''Sec-WebSocket-Protocol: '' @ join (lit '', '') subprotocols @ crlf
                 else req);
          req = (if compression then
                   req @ lit ''Sec-WebSocket-Extensions: permessage-deflate; client_no_context_takeover; server_no_context_takeover'' @ crlf
                 else req);
          req = foldl (\<lambda>r (k, v). if is_reserved_websocket_header k then r
                                   else r @ k @ lit '': '' @ v @ crlf) req headers;
          req = req @ crlf
      in (utf8_encode req, expected))"

section \<open>What the header loop computes\<close>

text \<open>The fields of a head, and the values a field name has in it.\<close>

definition header_fields :: "rstring list \<Rightarrow> (rstring \<times> rstring) list" where
  "header_fields ls = List.map_filter (split_once 58) ls"

definition values_of :: "string \<Rightarrow> (rstring \<times> rstring) list \<Rightarrow> rstring list" where
  "values_of name fs = map snd (filter (\<lambda>(n, v). eq_ignore_ascii_case n (lit name)) fs)"

lemma fields_simps [simp]:
  "header_fields [] = []"
  "split_once 58 l = None \<Longrightarrow> header_fields (l # ls) = header_fields ls"
  "split_once 58 l = Some f \<Longrightarrow> header_fields (l # ls) = f # header_fields ls"
  by (simp_all add: header_fields_def map_filter_simps)

lemma fields_append: "header_fields (xs @ ys) = header_fields xs @ header_fields ys"
  by (induction xs) (simp_all add: header_fields_def map_filter_simps split: option.split)

lemma values_of_simps [simp]:
  "values_of name [] = []"
  "values_of name ((n, v) # fs) =
     (if eq_ignore_ascii_case n (lit name) then v # values_of name fs else values_of name fs)"
  by (simp_all add: values_of_def)

lemma values_of_append: "values_of name (xs @ ys) = values_of name xs @ values_of name ys"
  by (simp add: values_of_def)

lemma eq_ignore_ascii_case_lit:
  "eq_ignore_ascii_case n (lit a) \<Longrightarrow>
   eq_ignore_ascii_case n (lit b) \<longleftrightarrow> to_ascii_lowercase (lit a) = to_ascii_lowercase (lit b)"
  by (auto simp: eq_ignore_ascii_case_def)

text \<open>The loop from the right: it looks at every field once, so its result only depends on the
  values of five field names.\<close>

lemma scan_lines_snoc:
  "foldl (scan_line ex) h (ls @ [l]) = scan_line ex (foldl (scan_line ex) h ls) l"
  by simp

lemma lit_names_distinct:
  "to_ascii_lowercase (lit ''sec-websocket-accept'') \<noteq> to_ascii_lowercase (lit ''upgrade'')"
  "to_ascii_lowercase (lit ''sec-websocket-accept'') \<noteq> to_ascii_lowercase (lit ''connection'')"
  "to_ascii_lowercase (lit ''sec-websocket-accept'') \<noteq> to_ascii_lowercase (lit ''sec-websocket-protocol'')"
  "to_ascii_lowercase (lit ''sec-websocket-accept'') \<noteq> to_ascii_lowercase (lit ''sec-websocket-extensions'')"
  "to_ascii_lowercase (lit ''upgrade'') \<noteq> to_ascii_lowercase (lit ''connection'')"
  "to_ascii_lowercase (lit ''upgrade'') \<noteq> to_ascii_lowercase (lit ''sec-websocket-protocol'')"
  "to_ascii_lowercase (lit ''upgrade'') \<noteq> to_ascii_lowercase (lit ''sec-websocket-extensions'')"
  "to_ascii_lowercase (lit ''connection'') \<noteq> to_ascii_lowercase (lit ''sec-websocket-protocol'')"
  "to_ascii_lowercase (lit ''connection'') \<noteq> to_ascii_lowercase (lit ''sec-websocket-extensions'')"
  "to_ascii_lowercase (lit ''sec-websocket-protocol'') \<noteq> to_ascii_lowercase (lit ''sec-websocket-extensions'')"
  by (simp_all add: lit_def to_ascii_lowercase_def)

lemma scan_lines:
  "foldl (scan_line ex) scan_init ls =
     \<lparr>hs_upgrade = list_ex (\<lambda>v. eq_ignore_ascii_case (trim v) (lit ''websocket''))
                      (values_of ''upgrade'' (header_fields ls)),
      hs_connection = list_ex (\<lambda>v. list_ex is_upgrade_token (split_char 44 v))
                        (values_of ''connection'' (header_fields ls)),
      hs_accept_count = length (values_of ''sec-websocket-accept'' (header_fields ls)),
      hs_matched = (values_of ''sec-websocket-accept'' (header_fields ls) \<noteq> [] \<and>
                    trim (last (values_of ''sec-websocket-accept'' (header_fields ls))) = ex),
      hs_subprotocol =
        (if values_of ''sec-websocket-protocol'' (header_fields ls) = [] then None
         else Some (trim (last (values_of ''sec-websocket-protocol'' (header_fields ls))))),
      hs_deflate_accepted =
        list_ex (\<lambda>v. contains (to_ascii_lowercase v) (lit ''permessage-deflate''))
          (values_of ''sec-websocket-extensions'' (header_fields ls))\<rparr>"
proof (induction ls rule: rev_induct)
  case Nil
  then show ?case by (simp add: scan_init_def)
next
  case (snoc l ls)
  show ?case
  proof (cases "split_once 58 l")
    case None
    then show ?thesis unfolding scan_lines_snoc snoc
      by (simp add: scan_line_def fields_append)
  next
    case (Some f)
    obtain n v where f: "f = (n, v)" by (cases f)
    define low where "low = to_ascii_lowercase n"
    show ?thesis unfolding scan_lines_snoc snoc
      using lit_names_distinct
      by (simp add: scan_line_def fields_append values_of_append Some f
          eq_ignore_ascii_case_def low_def [symmetric])
  qed
qed

section \<open>Lines of a head\<close>

lemma lines_from_crlf:
  "10 \<notin> set l \<Longrightarrow> lines_from acc (l @ crlf @ rest) = (rev acc @ l) # lines_from [] rest"
  by (induction l arbitrary: acc) (auto simp: crlf_def strip_cr_def)

lemma lines_crlf: "10 \<notin> set l \<Longrightarrow> lines (l @ crlf @ rest) = l # lines rest"
  using lines_from_crlf [of l "[]" rest] by (simp add: lines_def)

definition head_text :: "rstring list \<Rightarrow> rstring" where
  "head_text ls = concat (map (\<lambda>l. l @ crlf) ls) @ crlf"

lemma head_text_simps [simp]:
  "head_text [] = crlf" "head_text (l # ls) = l @ crlf @ head_text ls"
  by (simp_all add: head_text_def)

lemma lines_head_text: "list_all (\<lambda>l. 10 \<notin> set l) ls \<Longrightarrow> lines (head_text ls) = ls @ [[]]"
  by (induction ls) (simp_all add: lines_crlf, simp add: lines_def crlf_def strip_cr_def)

text \<open>The end of the head is found where the blank line is, even with payload bytes behind it.\<close>

lemma find_suffix_skip:
  "(\<And>k. k < length xs \<Longrightarrow> \<not> P (drop k xs @ ys)) \<Longrightarrow>
   find_suffix P (xs @ ys) = map_option (\<lambda>k. length xs + k) (find_suffix P ys)"
proof (induction xs)
  case Nil
  then show ?case by (simp add: option.map_ident)
next
  case (Cons x xs)
  have "\<not> P (drop k xs @ ys)" if "k < length xs" for k using Cons.prems [of "Suc k"] that by simp
  from Cons.IH [OF this] Cons.prems [of 0] show ?case
    by (simp add: option.map_comp comp_def)
qed

lemma utf8_encode_append [simp]: "utf8_encode (s @ t) = utf8_encode s @ utf8_encode t"
  by (simp add: utf8_encode_def)

lemma utf8_encode_crlf [simp]: "utf8_encode crlf = [13, 10]"
  by (simp add: utf8_encode_def crlf_def utf8_char_def u8_of_def)

lemma unat_u8_of_ge: "128 \<le> n \<Longrightarrow> n < 256 \<Longrightarrow> 128 \<le> unat (u8_of n)"
  by simp

lemma utf8_char_ascii:
  assumes "b \<in> set (utf8_char u)" and "unat b < 128" and "scalar u"
  shows "u = unat b"
proof (cases "u < 128")
  case True
  then show ?thesis using assms(1) by (auto simp: utf8_char_def)
next
  case False
  have u: "u < 1114112" using assms(3) by (simp add: scalar_def)
  from assms(1) False obtain n where "b = u8_of n" "128 \<le> n" "n < 256"
  proof (cases "u < 2048")
    case True
    with assms(1) False show ?thesis
      by (auto simp: utf8_char_def intro: that [of "192 + u div 64"] that [of "128 + u mod 64"])
  next
    case 2: False
    show ?thesis
    proof (cases "u < 65536")
      case True
      with assms(1) False 2 show ?thesis
        by (auto simp: utf8_char_def intro: that [of "224 + u div 4096"]
            that [of "128 + u div 64 mod 64"] that [of "128 + u mod 64"])
    next
      case 3: False
      with assms(1) False 2 u show ?thesis
        by (auto simp: utf8_char_def intro: that [of "240 + u div 262144"]
            that [of "128 + u div 4096 mod 64"] that [of "128 + u div 64 mod 64"] that [of "128 + u mod 64"])
    qed
  qed
  with unat_u8_of_ge assms(2) show ?thesis by fastforce
qed

lemma utf8_encode_ascii:
  "b \<in> set (utf8_encode s) \<Longrightarrow> unat b < 128 \<Longrightarrow> list_all scalar s \<Longrightarrow> unat b \<in> set s"
  by (induction s) (auto simp: utf8_encode_def dest: utf8_char_ascii)

lemma not_crlfcrlf:
  "s = [] \<or> hd s \<noteq> 13 \<Longrightarrow> take 4 s \<noteq> crlfcrlf"
  "length s \<ge> 3 \<Longrightarrow> s ! 2 \<noteq> 13 \<Longrightarrow> take 4 s \<noteq> crlfcrlf"
proof -
  assume "s = [] \<or> hd s \<noteq> 13"
  then show "take 4 s \<noteq> crlfcrlf" by (cases s) (auto simp: crlfcrlf_def)
next
  assume "length s \<ge> 3" "s ! 2 \<noteq> 13"
  moreover have "take 4 s ! 2 = s ! 2" using \<open>length s \<ge> 3\<close> by (intro nth_take) simp
  moreover have "crlfcrlf ! 2 = 13" by (simp add: crlfcrlf_def)
  ultimately show "take 4 s \<noteq> crlfcrlf" by metis
qed

lemma find_header_end_lines:
  assumes "list_all (\<lambda>b. b \<noteq> [] \<and> 13 \<notin> set b) bs" and "bs \<noteq> []"
  shows "find_header_end (concat (map (\<lambda>b. b @ [13, 10]) bs) @ [13, 10] @ rest) =
    Some (length (concat (map (\<lambda>b. b @ [13, 10]) bs)) + 2)"
  using assms
proof (induction bs)
  case Nil
  then show ?case by simp
next
  case (Cons b bs)
  have skip: "take 4 (drop k b @ ys) \<noteq> crlfcrlf" if "k < length b" for k ys
  proof -
    have "hd (drop k b @ ys) = b ! k" using that by (simp add: hd_drop_conv_nth)
    moreover have "13 \<notin> set b" using Cons.prems(1) by simp
    with nth_mem [OF that] have "b ! k \<noteq> 13" by metis
    ultimately show ?thesis by (intro not_crlfcrlf(1)) simp
  qed
  show ?case
  proof (cases bs)
    case Nil
    have "find_suffix (\<lambda>s. take 4 s = crlfcrlf) (b @ [13, 10, 13, 10] @ rest) = Some (length b)"
      using find_suffix_skip [of b "\<lambda>s. take 4 s = crlfcrlf" "[13, 10, 13, 10] @ rest"] skip
      by (simp add: crlfcrlf_def)
    then show ?thesis by (simp add: Nil find_header_end_def)
  next
    case (Cons b' bs')
    define ys where "ys = concat (map (\<lambda>b. b @ [13, 10]) bs) @ [13, 10] @ rest"
    obtain y ys' where y: "ys = y # ys'" "y \<noteq> 13"
      using Cons.prems(1) Cons by (cases b') (auto simp: ys_def)
    have skip2: "take 4 (drop k (b @ [13, 10]) @ ys) \<noteq> crlfcrlf" if k: "k < length (b @ [13, 10])" for k
    proof -
      consider "k < length b" | "k = length b" | "k = Suc (length b)"
        using k by (simp add: less_Suc_eq) blast
      then show ?thesis
      proof cases
        case 1
        with skip [of k "[13, 10] @ ys"] show ?thesis by simp
      next
        case 2
        then show ?thesis using y by (simp add: crlfcrlf_def)
      next
        case 3
        then show ?thesis by (simp add: crlfcrlf_def)
      qed
    qed
    have "find_header_end (b @ [13, 10] @ ys) = map_option (\<lambda>e. length b + 2 + e) (find_header_end ys)"
      using find_suffix_skip [of "b @ [13, 10]" "\<lambda>s. take 4 s = crlfcrlf" ys] skip2
      by (simp add: find_header_end_def option.map_comp comp_def add.assoc)
    then show ?thesis
      using Cons.IH Cons.prems \<open>bs = b' # bs'\<close> by (simp add: ys_def)
  qed
qed

definition line_ok :: "rstring \<Rightarrow> bool" where
  "line_ok l \<longleftrightarrow> l \<noteq> [] \<and> 13 \<notin> set l \<and> 10 \<notin> set l \<and> list_all scalar l"

lemma utf8_encode_line:
  assumes "line_ok l"
  shows "utf8_encode l \<noteq> []" and "13 \<notin> set (utf8_encode l)"
proof -
  show "utf8_encode l \<noteq> []" using assms by (cases l) (auto simp: line_ok_def utf8_encode_def)
  show "13 \<notin> set (utf8_encode l)"
    using assms utf8_encode_ascii [of 13 l] by (auto simp: line_ok_def)
qed

lemma utf8_encode_head_text:
  "utf8_encode (head_text ls) = concat (map (\<lambda>b. b @ [13, 10]) (map utf8_encode ls)) @ [13, 10]"
  by (induction ls) simp_all

lemma find_header_end_head:
  assumes "list_all line_ok ls" and "ls \<noteq> []"
  shows "find_header_end (utf8_encode (head_text ls) @ rest) = Some (length (utf8_encode (head_text ls)))"
proof -
  have "list_all (\<lambda>b. b \<noteq> [] \<and> 13 \<notin> set b) (map utf8_encode ls)"
    using assms(1) by (induction ls) (simp_all add: utf8_encode_line)
  from find_header_end_lines [OF this, of rest] assms(2) show ?thesis
    unfolding utf8_encode_head_text by simp
qed

lemma lines_of_head:
  assumes "list_all line_ok ls"
  shows "lines (from_utf8_lossy (utf8_encode (head_text ls))) = ls @ [[]]"
proof -
  have "list_all scalar (head_text ls)"
    using assms by (induction ls) (auto simp: crlf_def scalar_def line_ok_def)
  moreover have "list_all (\<lambda>l. 10 \<notin> set l) ls"
    using assms by (induction ls) (auto simp: line_ok_def)
  ultimately show ?thesis by (simp add: from_utf8_lossy_encode lines_head_text)
qed

section \<open>The decision\<close>

definition handshake_ok :: "rstring \<Rightarrow> rstring list \<Rightarrow> bool" where
  "handshake_ok expected_accept ls \<longleftrightarrow>
     valid_version ls \<and> status_code ls = Some 101 \<and>
     (\<exists>v \<in> set (values_of ''upgrade'' (header_fields (tl ls))).
        eq_ignore_ascii_case (trim v) (lit ''websocket'')) \<and>
     (\<exists>v \<in> set (values_of ''connection'' (header_fields (tl ls))).
        \<exists>token \<in> set (split_char 44 v). is_upgrade_token token) \<and>
     (\<exists>v. values_of ''sec-websocket-accept'' (header_fields (tl ls)) = [v] \<and> trim v = expected_accept)"

lemma process_handshake_decides:
  assumes "\<not> pc_handshake_done c" and "find_header_end (pc_buf c) = Some e"
    and "ls = lines (from_utf8_lossy (take e (pc_buf c)))"
  shows "process_handshake c =
    (if handshake_ok (pc_expected_accept c) ls then
       (Accepted
          (if values_of ''sec-websocket-protocol'' (header_fields (tl ls)) = [] then None
           else Some (trim (last (values_of ''sec-websocket-protocol'' (header_fields (tl ls))))))
          (pc_compression_enabled c \<and>
             (\<exists>v \<in> set (values_of ''sec-websocket-extensions'' (header_fields (tl ls))).
                sublist (lit ''permessage-deflate'') (to_ascii_lowercase v))),
        c\<lparr>pc_buf := drop e (pc_buf c), pc_handshake_done := True,
          pc_compression_enabled := (pc_compression_enabled c \<and>
             (\<exists>v \<in> set (values_of ''sec-websocket-extensions'' (header_fields (tl ls))).
                sublist (lit ''permessage-deflate'') (to_ascii_lowercase v)))\<rparr>)
     else (Rejected (status_code ls), c\<lparr>pc_buf := drop e (pc_buf c)\<rparr>))"
proof -
  have one: "(xs \<noteq> [] \<and> trim (last xs) = t) \<and> length xs = 1 \<longleftrightarrow> (\<exists>v. xs = [v] \<and> trim v = t)"
    for xs t by (cases xs) auto
  define h where "h = foldl (scan_line (pc_expected_accept c)) scan_init (tl ls)"
  define bad where "bad \<longleftrightarrow> \<not> valid_version ls \<or> status_code ls \<noteq> Some 101 \<or> \<not> hs_upgrade h \<or>
      \<not> hs_connection h \<or> \<not> hs_matched h \<or> hs_accept_count h \<noteq> 1"
  have "\<not> bad \<longleftrightarrow> valid_version ls \<and> status_code ls = Some 101 \<and> hs_upgrade h \<and>
      hs_connection h \<and> (hs_matched h \<and> hs_accept_count h = 1)"
    by (simp only: bad_def de_Morgan_disj not_not)
  also have "\<dots> \<longleftrightarrow> handshake_ok (pc_expected_accept c) ls"
    unfolding handshake_ok_def one [symmetric] h_def scan_lines by (simp add: list_ex_iff)
  finally have ok: "bad \<longleftrightarrow> \<not> handshake_ok (pc_expected_accept c) ls" by blast
  have ph: "process_handshake c =
      (if bad then (Rejected (status_code ls), c\<lparr>pc_buf := drop e (pc_buf c)\<rparr>)
       else (Accepted (hs_subprotocol h) (pc_compression_enabled c \<and> hs_deflate_accepted h),
             c\<lparr>pc_buf := drop e (pc_buf c), pc_handshake_done := True,
               pc_compression_enabled := (pc_compression_enabled c \<and> hs_deflate_accepted h)\<rparr>))"
    unfolding bad_def using assms(1,2) by (simp only: process_handshake_def Let_def h_def assms(3) if_False option.case)
  have h: "hs_subprotocol h = (if values_of ''sec-websocket-protocol'' (header_fields (tl ls)) = [] then None
         else Some (trim (last (values_of ''sec-websocket-protocol'' (header_fields (tl ls))))))"
    "hs_deflate_accepted h \<longleftrightarrow> (\<exists>v \<in> set (values_of ''sec-websocket-extensions'' (header_fields (tl ls))).
        sublist (lit ''permessage-deflate'') (to_ascii_lowercase v))"
    by (simp_all add: h_def scan_lines contains_iff list_ex_iff)
  show ?thesis
    unfolding ph h [symmetric]
    by (cases "handshake_ok (pc_expected_accept c) ls") (simp_all only: ok simp_thms if_True if_False)
qed

section \<open>The server's view of the request\<close>

lemma split_once_name: "d \<notin> set n \<Longrightarrow> split_once d (n @ d # v) = Some (n, v)"
  by (induction n) auto

definition request_line :: "rstring \<Rightarrow> rstring" where
  "request_line path = lit ''GET '' @ path @ lit '' HTTP/1.1''"

definition own_lines :: "rstring \<Rightarrow> nat \<Rightarrow> rstring \<Rightarrow> rstring list \<Rightarrow> bool \<Rightarrow> rstring list" where
  "own_lines host port key subprotocols compression =
     [lit ''Host: '' @ host_header host @ lit '':'' @ show_nat port, lit ''Upgrade: websocket'',
      lit ''Connection: Upgrade'', lit ''Sec-WebSocket-Key: '' @ key, lit ''Sec-WebSocket-Version: 13''] @
     (if subprotocols \<noteq> [] then [lit ''Sec-WebSocket-Protocol: '' @ join (lit '', '') subprotocols] else []) @
     (if compression then
        [lit ''Sec-WebSocket-Extensions: permessage-deflate; client_no_context_takeover; server_no_context_takeover'']
      else [])"

definition user_lines :: "(rstring \<times> rstring) list \<Rightarrow> rstring list" where
  "user_lines headers =
     map (\<lambda>(k, v). k @ lit '': '' @ v) (filter (\<lambda>(k, v). \<not> is_reserved_websocket_header k) headers)"

lemma push_headers:
  "foldl (\<lambda>r (k, v). if is_reserved_websocket_header k then r else r @ k @ lit '': '' @ v @ crlf) req headers
   = req @ concat (map (\<lambda>l. l @ crlf) (user_lines headers))"
  by (induction headers arbitrary: req) (auto simp: user_lines_def)

lemma build_handshake_text:
  "build_handshake base64 sha1 key_bytes host port path headers subprotocols compression =
     (utf8_encode (head_text (request_line path #
        own_lines host port (base64 key_bytes) subprotocols compression @ user_lines headers)),
      base64 (sha1 (utf8_encode (base64 key_bytes) @ utf8_encode MAGIC)))"
  by (simp add: build_handshake_def push_headers own_lines_def request_line_def head_text_def Let_def
      del: utf8_encode_append)

lemma header_fields_user_lines:
  assumes "list_all (\<lambda>(k, v). 58 \<notin> set k) headers"
  shows "header_fields (user_lines headers) =
    map (\<lambda>(k, v). (k, 32 # v)) (filter (\<lambda>(k, v). \<not> is_reserved_websocket_header k) headers)"
  using assms
proof (induction headers)
  case Nil
  then show ?case by (simp add: user_lines_def)
next
  case (Cons kv headers)
  obtain k v where kv: "kv = (k, v)" by (cases kv)
  have "58 \<notin> set k" using Cons.prems by (simp add: kv)
  then have split: "split_once 58 (k @ lit '': '' @ v) = Some (k, 32 # v)"
    using split_once_name [of 58 k "32 # v"] by (simp add: lit_def)
  have tail: "user_lines (kv # headers) =
      (if is_reserved_websocket_header k then [] else [k @ lit '': '' @ v]) @ user_lines headers"
    by (simp add: user_lines_def kv)
  show ?case
    using Cons by (simp add: tail split) (simp add: kv)
qed

lemma values_of_not_reserved:
  assumes "is_reserved_websocket_header (lit name)"
  shows "values_of name (map (\<lambda>(k, v). (k, 32 # v))
           (filter (\<lambda>(k, v). \<not> is_reserved_websocket_header k) headers)) = []"
proof -
  have "is_reserved_websocket_header k" if "eq_ignore_ascii_case k (lit name)" for k
    using assms that
    by (auto simp: is_reserved_websocket_header_def list_ex_iff eq_ignore_ascii_case_def)
  then show ?thesis by (auto simp: values_of_def filter_empty_conv)
qed

lemma scalar_ascii: "u < 128 \<Longrightarrow> scalar u"
  by (simp add: scalar_def)

lemma lit_ascii: "c \<in> set (lit s) \<Longrightarrow> c < 256"
  by (auto simp: lit_def)

definition text_ok :: "rstring \<Rightarrow> bool" where
  "text_ok l \<longleftrightarrow> 13 \<notin> set l \<and> 10 \<notin> set l \<and> list_all scalar l"

lemma text_ok_append [simp]: "text_ok (a @ b) \<longleftrightarrow> text_ok a \<and> text_ok b"
  by (auto simp: text_ok_def)

lemma line_ok_text: "line_ok l \<longleftrightarrow> l \<noteq> [] \<and> text_ok l"
  by (auto simp: line_ok_def text_ok_def)

lemma text_ok_show_nat [simp]: "text_ok (show_nat n)"
  using show_nat_digits [of _ n] by (fastforce simp: text_ok_def list_all_iff intro: scalar_ascii)

lemma text_ok_host_header [simp]: "text_ok host \<Longrightarrow> text_ok (host_header host)"
  by (simp add: host_header_def lit_def) (simp add: text_ok_def scalar_def)

lemma text_ok_join: "list_all text_ok ss \<Longrightarrow> text_ok (join (lit '', '') ss)"
proof (cases ss)
  case (Cons s ss')
  assume ok: "list_all text_ok ss"
  have sep: "text_ok (lit '', '')" by (simp add: lit_def text_ok_def scalar_def)
  have "text_ok (concat (map (\<lambda>t. lit '', '' @ t) ts))" if "list_all text_ok ts" for ts
    using that by (induction ts) (simp_all add: sep, simp add: text_ok_def)
  with ok Cons show ?thesis by (simp add: join_def)
qed (simp add: join_def text_ok_def)

lemma text_ok_lit:
  "list_all (\<lambda>c. c \<noteq> 13 \<and> c \<noteq> 10 \<and> c < 128) (lit s) \<Longrightarrow> text_ok (lit s)"
  by (auto simp: text_ok_def list_all_iff scalar_def)

lemma own_lines_ok:
  assumes "text_ok host" and "text_ok key" and "list_all text_ok subprotocols"
  shows "list_all line_ok (own_lines host port key subprotocols compression)"
proof -
  have lits: "text_ok (lit ''Host: '')" "text_ok (lit '':'')" "text_ok (lit ''Upgrade: websocket'')"
    "text_ok (lit ''Connection: Upgrade'')" "text_ok (lit ''Sec-WebSocket-Key: '')"
    "text_ok (lit ''Sec-WebSocket-Version: 13'')" "text_ok (lit ''Sec-WebSocket-Protocol: '')"
    "text_ok (lit ''Sec-WebSocket-Extensions: permessage-deflate; client_no_context_takeover; server_no_context_takeover'')"
    by (rule text_ok_lit, simp add: lit_def)+
  have ne: "lit (c # cs) \<noteq> []" for c cs by (simp add: lit_def)
  show ?thesis
    using assms by (simp add: own_lines_def line_ok_text lits ne text_ok_join)
qed

lemma user_lines_ok:
  assumes "list_all (\<lambda>(k, v). text_ok k \<and> text_ok v \<and> 58 \<notin> set k) headers"
  shows "list_all line_ok (user_lines headers)"
proof -
  have sep: "text_ok (lit '': '')" "lit '': '' \<noteq> []" by (simp_all add: lit_def text_ok_def scalar_def)
  show ?thesis
    using assms by (induction headers) (auto simp: user_lines_def line_ok_text sep)
qed

lemma split_once_own:
  "split_once 58 (lit ''Host: '' @ v) = Some (lit ''Host'', 32 # v)"
  "split_once 58 (lit ''Upgrade: websocket'') = Some (lit ''Upgrade'', lit '' websocket'')"
  "split_once 58 (lit ''Connection: Upgrade'') = Some (lit ''Connection'', lit '' Upgrade'')"
  "split_once 58 (lit ''Sec-WebSocket-Key: '' @ v) = Some (lit ''Sec-WebSocket-Key'', 32 # v)"
  "split_once 58 (lit ''Sec-WebSocket-Version: 13'') = Some (lit ''Sec-WebSocket-Version'', lit '' 13'')"
  "split_once 58 (lit ''Sec-WebSocket-Protocol: '' @ v) = Some (lit ''Sec-WebSocket-Protocol'', 32 # v)"
  "split_once 58 (lit ''Sec-WebSocket-Extensions: permessage-deflate; client_no_context_takeover; server_no_context_takeover'')
     = Some (lit ''Sec-WebSocket-Extensions'',
             lit '' permessage-deflate; client_no_context_takeover; server_no_context_takeover'')"
  by (simp_all add: lit_def)

lemma eq_ignore_ascii_case_length:
  "length a \<noteq> length b \<Longrightarrow> \<not> eq_ignore_ascii_case (lit a) (lit b)"
  by (auto simp: eq_ignore_ascii_case_def to_ascii_lowercase_def lit_def dest: map_eq_imp_length_eq)

lemma own_values:
  fixes host port key subprotocols compression
  defines "fs \<equiv> header_fields (own_lines host port key subprotocols compression)"
  shows "values_of ''host'' fs = [32 # host_header host @ 58 # show_nat port]"
    and "values_of ''upgrade'' fs = [lit '' websocket'']"
    and "values_of ''connection'' fs = [lit '' Upgrade'']"
    and "values_of ''sec-websocket-key'' fs = [32 # key]"
    and "values_of ''sec-websocket-version'' fs = [lit '' 13'']"
    and "values_of ''sec-websocket-protocol'' fs =
           (if subprotocols = [] then [] else [32 # join (lit '', '') subprotocols])"
proof -
  have same: "eq_ignore_ascii_case (lit ''Host'') (lit ''host'')"
    "eq_ignore_ascii_case (lit ''Upgrade'') (lit ''upgrade'')"
    "eq_ignore_ascii_case (lit ''Connection'') (lit ''connection'')"
    "eq_ignore_ascii_case (lit ''Sec-WebSocket-Key'') (lit ''sec-websocket-key'')"
    "eq_ignore_ascii_case (lit ''Sec-WebSocket-Version'') (lit ''sec-websocket-version'')"
    "eq_ignore_ascii_case (lit ''Sec-WebSocket-Protocol'') (lit ''sec-websocket-protocol'')"
    by (simp_all add: lit_def eq_ignore_ascii_case_def to_ascii_lowercase_def)
  have "lit '':'' = [58]" by (simp add: lit_def)
  then show "values_of ''host'' fs = [32 # host_header host @ 58 # show_nat port]"
    "values_of ''upgrade'' fs = [lit '' websocket'']"
    "values_of ''connection'' fs = [lit '' Upgrade'']"
    "values_of ''sec-websocket-key'' fs = [32 # key]"
    "values_of ''sec-websocket-version'' fs = [lit '' 13'']"
    "values_of ''sec-websocket-protocol'' fs =
       (if subprotocols = [] then [] else [32 # join (lit '', '') subprotocols])"
    unfolding fs_def by (simp_all add: own_lines_def split_once_own same eq_ignore_ascii_case_length)
qed

section \<open>The standard reply\<close>

definition standard_reply :: "rstring \<Rightarrow> rstring list" where
  "standard_reply accept =
     [lit ''HTTP/1.1 101 Switching Protocols'', lit ''Upgrade: websocket'',
      lit ''Connection: Upgrade'', lit ''Sec-WebSocket-Accept: '' @ accept]"

definition printable :: "rstring \<Rightarrow> bool" where
  "printable s \<longleftrightarrow> list_all (\<lambda>c. 33 \<le> c \<and> c \<le> 126) s"

lemma trim_printable:
  assumes "printable s"
  shows "trim (32 # s) = s"
proof -
  have nw: "\<not> is_whitespace c" if "c \<in> set s" for c
    using assms that by (auto simp: printable_def list_all_iff is_whitespace_def)
  then have "dropWhile is_whitespace s = s"
    by (cases s) auto
  moreover have "dropWhile is_whitespace (rev s) = rev s"
    using nw by (cases s rule: rev_cases) auto
  moreover have "is_whitespace 32" by (simp add: is_whitespace_def)
  ultimately show ?thesis by (simp add: trim_def)
qed

lemma text_ok_printable: "printable s \<Longrightarrow> text_ok s"
  by (auto simp: printable_def text_ok_def list_all_iff scalar_def)

lemma standard_reply_ok: "printable accept \<Longrightarrow> list_all line_ok (standard_reply accept)"
  by (simp add: standard_reply_def line_ok_text text_ok_printable)
    (simp add: lit_def text_ok_def scalar_def)

lemma standard_reply_status:
  "valid_version (standard_reply a @ x)" "status_code (standard_reply a @ x) = Some 101"
proof -
  have "status_parts (standard_reply a @ x) = [lit ''HTTP/1.1'', lit ''101'', lit ''Switching'', lit ''Protocols'']"
    by (simp add: status_parts_def standard_reply_def split_whitespace_def lit_def is_whitespace_def)
  then show "valid_version (standard_reply a @ x)" "status_code (standard_reply a @ x) = Some 101"
    by (simp_all add: valid_version_def status_code_def lit_def parse_u16_def is_digit_def digits_value_def)
qed

lemma standard_reply_fields:
  "header_fields (tl (standard_reply a @ [[]])) =
     [(lit ''Upgrade'', lit '' websocket''), (lit ''Connection'', lit '' Upgrade''),
      (lit ''Sec-WebSocket-Accept'', 32 # a)]"
proof -
  have "split_once 58 (lit ''Sec-WebSocket-Accept: '' @ a) = Some (lit ''Sec-WebSocket-Accept'', 32 # a)"
    by (simp add: lit_def)
  then show ?thesis by (simp add: standard_reply_def split_once_own)
qed

lemma standard_reply_decision:
  assumes "printable a"
  shows "handshake_ok ex (standard_reply a @ [[]]) \<longleftrightarrow> a = ex"
proof -
  have same: "eq_ignore_ascii_case (lit ''Upgrade'') (lit ''upgrade'')"
    "eq_ignore_ascii_case (lit ''Connection'') (lit ''connection'')"
    "eq_ignore_ascii_case (lit ''Sec-WebSocket-Accept'') (lit ''sec-websocket-accept'')"
    "eq_ignore_ascii_case (trim (lit '' websocket'')) (lit ''websocket'')"
    "split_char 44 (lit '' Upgrade'') = [lit '' Upgrade'']" "is_upgrade_token (lit '' Upgrade'')"
    by (simp_all add: lit_def eq_ignore_ascii_case_def to_ascii_lowercase_def trim_def is_whitespace_def
        split_char_def is_upgrade_token_def)
  show ?thesis
    unfolding handshake_ok_def standard_reply_fields
    by (simp add: standard_reply_status same eq_ignore_ascii_case_length trim_printable assms)
qed

section \<open>Properties\<close>


text \<open>Example responses: a rejected one, and the accepted one of RFC 6455.\<close>

definition opening_core :: "rstring \<Rightarrow> bytes \<Rightarrow> ProtocolCore" where
  "opening_core expected buf = (idle_core buf)\<lparr>pc_handshake_done := False, pc_expected_accept := expected\<rparr>"


text \<open>C31 Splitting the response over reads does not matter: until the blank line is there nothing
  happens, and a decision once made is the one the longer buffer gives, with the further bytes
  left for the frame parser.\<close>

theorem handshake_independent_of_chunking:
  "case process_handshake c of
     (HandshakePending, d) \<Rightarrow> d = c \<and> find_header_end (pc_buf c) = None
   | (out, d) \<Rightarrow> process_handshake (c\<lparr>pc_buf := pc_buf c @ x\<rparr>) = (out, d\<lparr>pc_buf := pc_buf d @ x\<rparr>)"
proof (cases "pc_handshake_done c \<or> find_header_end (pc_buf c) = None")
  case True
  then show ?thesis by (auto simp: process_handshake_def)
next
  case False
  then obtain e where e: "find_header_end (pc_buf c) = Some e" by auto
  have e': "find_header_end (pc_buf c @ x) = Some e" using e by (rule head.parse_stable)
  have le: "e \<le> length (pc_buf c)" using e by (simp add: find_header_end_Some_iff)
  show ?thesis using False e e' le by (simp add: process_handshake_def Let_def)
qed





end
