(* ===== verification/Masking.thy ===== *)
theory Masking
  imports Ws_Prelude
begin

text \<open>
  The masking kernels of \<^verbatim>\<open>src/src/native_client/codec.rs\<close>: the scalar \<^verbatim>\<open>u32\<close> copy, the
  AVX-512 copy over sixteen 32-bit lanes and the dispatcher.  They share one contract, the
  locale \<open>masking_kernel\<close>: on slices of equal length the destination receives the source
  xored with the mask repeated from the start of the payload (RFC 6455, section 5.3).  A Rust
  panic, and a read outside the source slice, is the value \<open>None\<close>.
\<close>

section \<open>Mask keys and 32-bit lanes\<close>

type_synonym mask = "u8 \<times> u8 \<times> u8 \<times> u8"

fun mask_list :: "mask \<Rightarrow> bytes" where
  "mask_list (a, b, c, d) = [a, b, c, d]"

text \<open>\<^verbatim>\<open>mask[i & 3]\<close>\<close>

definition mask_at :: "mask \<Rightarrow> nat \<Rightarrow> u8" where
  "mask_at m i = mask_list m ! (i mod 4)"

fun from_le4 :: "mask \<Rightarrow> u32" where
  "from_le4 (a, b, c, d) =
     ucast a OR push_bit 8 (ucast b) OR push_bit 16 (ucast c) OR push_bit 24 (ucast d)"

definition to_le4 :: "u32 \<Rightarrow> mask" where
  "to_le4 w = (ucast w, ucast (drop_bit 8 w), ucast (drop_bit 16 w), ucast (drop_bit 24 w))"

fun swap4 :: "mask \<Rightarrow> mask" where
  "swap4 (a, b, c, d) = (d, c, b, a)"

text \<open>\<^verbatim>\<open>u32::from_ne_bytes\<close> and \<^verbatim>\<open>to_ne_bytes\<close>; the flag says whether the target is big-endian.\<close>

definition from_ne_bytes :: "bool \<Rightarrow> mask \<Rightarrow> u32" where
  "from_ne_bytes be q = from_le4 (if be then swap4 q else q)"

definition to_ne_bytes :: "bool \<Rightarrow> u32 \<Rightarrow> mask" where
  "to_ne_bytes be w = (if be then swap4 (to_le4 w) else to_le4 w)"

fun xor4 :: "mask \<Rightarrow> mask \<Rightarrow> mask" where
  "xor4 (a, b, c, d) (a', b', c', d') = (a XOR a', b XOR b', c XOR c', d XOR d')"

lemma u8_no_high_bit [simp]:
  "\<not> bit (a :: u8) (8 + n)" "\<not> bit (a :: u8) (16 + n)" "\<not> bit (a :: u8) (24 + n)"
  by (simp_all add: impossible_bit)

lemma to_from_le4 [simp]: "to_le4 (from_le4 q) = q"
  by (cases q) (auto simp: to_le4_def bit_simps intro!: bit_word_eqI)

lemma to_le4_xor: "to_le4 (v XOR w) = xor4 (to_le4 v) (to_le4 w)"
  by (auto simp: to_le4_def bit_simps intro!: bit_word_eqI)

lemma swap4_xor4: "swap4 (xor4 p q) = xor4 (swap4 p) (swap4 q)"
  by (cases p; cases q) simp

lemma swap4_swap4 [simp]: "swap4 (swap4 q) = q"
  by (cases q) simp

lemma to_ne_xor_from_ne:
  "to_ne_bytes be (from_ne_bytes be p XOR from_ne_bytes be q) = xor4 p q"
  by (simp add: to_ne_bytes_def from_ne_bytes_def to_le4_xor swap4_xor4)

lemma to_ne_from_ne [simp]: "to_ne_bytes be (from_ne_bytes be q) = q"
  by (simp add: to_ne_bytes_def from_ne_bytes_def)

section \<open>The reference: one byte at a time\<close>

primrec xor_from :: "mask \<Rightarrow> nat \<Rightarrow> bytes \<Rightarrow> bytes" where
  "xor_from m i [] = []"
| "xor_from m i (b # bs) = (b XOR mask_at m i) # xor_from m (Suc i) bs"

definition xor_ref :: "mask \<Rightarrow> bytes \<Rightarrow> bytes" where
  "xor_ref m src = xor_from m 0 src"

lemma length_xor_from [simp]: "length (xor_from m i bs) = length bs"
  by (induction bs arbitrary: i) auto

lemma xor_from_append: "xor_from m i (xs @ ys) = xor_from m i xs @ xor_from m (i + length xs) ys"
  by (induction xs arbitrary: i) auto

lemma mask_at_mod [simp]: "mask_at m (i mod 4) = mask_at m i"
  by (simp add: mask_at_def)

lemma xor_from_shift: "4 dvd k \<Longrightarrow> xor_from m (i + k) bs = xor_from m i bs"
proof (induction bs arbitrary: i)
  case (Cons b bs)
  from Cons.prems have "(i + k) mod 4 = i mod 4" by auto
  then have "mask_at m (i + k) = mask_at m i" by (simp add: mask_at_def)
  with Cons.IH [of "Suc i"] Cons.prems show ?case by simp
qed simp

lemma xor_from_aligned: "4 dvd k \<Longrightarrow> xor_from m k bs = xor_from m 0 bs"
  using xor_from_shift [of k m 0 bs] by simp

lemma xor_from_involutive: "xor_from m i (xor_from m i bs) = bs"
  by (induction bs arbitrary: i) (simp_all add: xor.assoc)

lemma length_xor_ref [simp]: "length (xor_ref m bs) = length bs"
  by (simp add: xor_ref_def)

lemma xor_ref_Nil [simp]: "xor_ref m [] = []"
  by (simp add: xor_ref_def)

lemma xor_ref_involutive [simp]: "xor_ref m (xor_ref m bs) = bs"
  by (simp add: xor_ref_def xor_from_involutive)

lemma xor_ref_nth: "i < length bs \<Longrightarrow> xor_ref m bs ! i = bs ! i XOR mask_at m i"
proof -
  have "i < length bs \<Longrightarrow> xor_from m k bs ! i = bs ! i XOR mask_at m (k + i)" for k
    by (induction bs arbitrary: k i) (auto simp: less_Suc_eq_0_disj)
  from this [of 0] show "i < length bs \<Longrightarrow> ?thesis" by (simp add: xor_ref_def)
qed

section \<open>The scalar kernel\<close>

fun xor_words :: "bool \<Rightarrow> u32 \<Rightarrow> bytes \<Rightarrow> bytes" where
  "xor_words be mask_u32 (a # b # c # d # rest) =
     mask_list (to_ne_bytes be (from_ne_bytes be (a, b, c, d) XOR mask_u32))
     @ xor_words be mask_u32 rest"
| "xor_words be mask_u32 _ = []"

fun xor_tail :: "mask \<Rightarrow> nat \<Rightarrow> bytes \<Rightarrow> bytes \<Rightarrow> bytes" where
  "xor_tail m i (d # ds) (s # ss) = (s XOR mask_at m i) # xor_tail m (Suc i) ds ss"
| "xor_tail m i ds ss = ds"

definition copy_masked_fallback :: "bool \<Rightarrow> bytes \<Rightarrow> bytes \<Rightarrow> mask \<Rightarrow> bytes option" where
  "copy_masked_fallback be dst src m =
     (let mask_u32 = from_ne_bytes be m; words = length dst div 4 in
      if length src < words * 4 then None
      else Some (xor_words be mask_u32 (take (words * 4) src)
                 @ xor_tail m 0 (drop (words * 4) dst) (drop (words * 4) src)))"

text \<open>Induction over a list in groups of four, the shape of both kernels' loops.\<close>

lemma chunks4_induct [consumes 1, case_names Nil Cons4]:
  assumes "4 dvd length bs"
    and "P []"
    and "\<And>a b c d rest. 4 dvd length rest \<Longrightarrow> P rest \<Longrightarrow> P (a # b # c # d # rest)"
  shows "P bs"
proof -
  from assms(1) obtain k where "length bs = 4 * k" by (elim dvdE)
  then show ?thesis
  proof (induction k arbitrary: bs)
    case 0
    with assms(2) show ?case by simp
  next
    case (Suc k)
    then have "length bs = Suc (Suc (Suc (Suc (4 * k))))" by simp
    then obtain a b c d rest where "bs = a # b # c # d # rest" and "length rest = 4 * k"
      by (auto simp: length_Suc_conv)
    with Suc.IH assms(3) show ?case by simp
  qed
qed

lemma mask_at_simps:
  "mask_at (a, b, c, d) 0 = a" "mask_at (a, b, c, d) (Suc 0) = b"
  "mask_at (a, b, c, d) (Suc (Suc 0)) = c" "mask_at (a, b, c, d) (Suc (Suc (Suc 0))) = d"
  by (simp_all add: mask_at_def)

lemma xor_from_Cons4:
  "xor_from m 0 (a # b # c # d # rest) = mask_list (xor4 (a, b, c, d) m) @ xor_from m 0 rest"
proof -
  obtain p q r s where m: "m = (p, q, r, s)" by (cases m)
  have "xor_from m (Suc (Suc (Suc (Suc 0)))) rest = xor_from m 0 rest"
    by (rule xor_from_aligned) presburger
  then show ?thesis by (simp add: m mask_at_simps)
qed

lemma xor_words_ref:
  "4 dvd length src \<Longrightarrow> xor_words be (from_ne_bytes be m) src = xor_from m 0 src"
  by (induction src rule: chunks4_induct)
    (simp_all add: xor_from_Cons4 to_ne_xor_from_ne del: xor_from.simps(2))

lemma xor_tail_ref: "length ds = length ss \<Longrightarrow> xor_tail m i ds ss = xor_from m i ss"
  by (induction m i ds ss rule: xor_tail.induct) auto

text \<open>The reference splits at any offset that is a multiple of the mask length.\<close>

lemma xor_ref_split:
  assumes "k \<le> length src" and "4 dvd k"
  shows "xor_ref m src = xor_ref m (take k src) @ xor_ref m (drop k src)"
proof -
  have len: "length (take k src) = k" using assms(1) by simp
  have "xor_from m 0 (take k src @ drop k src)
        = xor_from m 0 (take k src) @ xor_from m 0 (drop k src)"
    unfolding xor_from_append len add_0 xor_from_aligned [OF assms(2)] ..
  then show ?thesis unfolding xor_ref_def append_take_drop_id .
qed

lemma copy_masked_fallback_ref:
  assumes eq: "length dst = length src"
  shows "copy_masked_fallback be dst src m = Some (xor_ref m src)"
proof -
  define k where "k = length dst div 4 * 4"
  have le: "k \<le> length src" and dvd: "4 dvd k" using eq by (simp_all add: k_def)
  have words: "xor_words be (from_ne_bytes be m) (take k src) = xor_ref m (take k src)"
    unfolding xor_ref_def by (rule xor_words_ref) (use le dvd in simp)
  have tail: "xor_tail m 0 (drop k dst) (drop k src) = xor_ref m (drop k src)"
    unfolding xor_ref_def by (rule xor_tail_ref) (use eq in simp)
  show ?thesis
    using le unfolding copy_masked_fallback_def Let_def k_def [symmetric] words tail
      xor_ref_split [OF le dvd, of m] by simp
qed

section \<open>The AVX-512 kernel\<close>

text \<open>A \<^verbatim>\<open>__m512i\<close> as sixteen 32-bit lanes, loaded and stored little-endian as x86-64 does.\<close>

fun mm512_loadu :: "bytes \<Rightarrow> u32 list" where
  "mm512_loadu (a # b # c # d # rest) = from_le4 (a, b, c, d) # mm512_loadu rest"
| "mm512_loadu _ = []"

definition mm512_storeu :: "u32 list \<Rightarrow> bytes" where
  "mm512_storeu lanes = concat (map (\<lambda>w. mask_list (to_le4 w)) lanes)"

definition mm512_set1_epi32 :: "u32 \<Rightarrow> u32 list" where
  "mm512_set1_epi32 w = replicate 16 w"

definition mm512_xor :: "u32 list \<Rightarrow> u32 list \<Rightarrow> u32 list" where
  "mm512_xor v w = map2 (XOR) v w"

definition avx512_block :: "u32 list \<Rightarrow> bytes \<Rightarrow> nat \<Rightarrow> bytes" where
  "avx512_block mask_vec src i =
     mm512_storeu (mm512_xor (mm512_loadu (take 64 (drop (i * 64) src))) mask_vec)"

definition copy_masked_avx512 :: "bytes \<Rightarrow> bytes \<Rightarrow> mask \<Rightarrow> bytes option" where
  "copy_masked_avx512 dst src m =
     (let mask_vec = mm512_set1_epi32 (from_ne_bytes False m);
          len = length dst; full = len div 64; tail = full * 64 in
      if length src < tail then None
      else let blocks = concat (map (avx512_block mask_vec src) [0..<full]) in
           if tail < len
           then map_option (\<lambda>t. blocks @ t)
                  (copy_masked_fallback False (drop tail dst) (drop tail src) m)
           else Some blocks)"

lemma mm512_storeu_Cons: "mm512_storeu (w # ws) = mask_list (to_le4 w) @ mm512_storeu ws"
  by (simp add: mm512_storeu_def)

lemma mm512_xor_Cons: "mm512_xor (v # vs) (replicate (Suc n) w) = (v XOR w) # mm512_xor vs (replicate n w)"
  by (simp add: mm512_xor_def)

lemma storeu_xor_loadu:
  "4 dvd length bs \<Longrightarrow> length bs \<le> 4 * n \<Longrightarrow>
   mm512_storeu (mm512_xor (mm512_loadu bs) (replicate n (from_ne_bytes False m))) = xor_from m 0 bs"
proof (induction bs arbitrary: n rule: chunks4_induct)
  case Nil
  then show ?case by (simp add: mm512_storeu_def mm512_xor_def)
next
  case (Cons4 a b c d rest)
  from Cons4.prems obtain k where n: "n = Suc k" by (cases n) simp_all
  with Cons4.prems have k: "length rest \<le> 4 * k" by simp
  have "to_le4 (from_le4 (a, b, c, d) XOR from_ne_bytes False m) = xor4 (a, b, c, d) m"
    by (simp only: to_le4_xor to_from_le4 from_ne_bytes_def if_False)
  then show ?case
    by (simp only: n mm512_loadu.simps mm512_xor_Cons mm512_storeu_Cons Cons4.IH [OF k]
        xor_from_Cons4)
qed

lemma avx512_block_ref:
  assumes "i * 64 + 64 \<le> length src"
  shows "avx512_block (mm512_set1_epi32 (from_ne_bytes False m)) src i
         = xor_from m 0 (take 64 (drop (i * 64) src))"
proof -
  from assms have "length (take 64 (drop (i * 64) src)) = 64" by simp
  then show ?thesis
    unfolding avx512_block_def mm512_set1_epi32_def by (intro storeu_xor_loadu) simp_all
qed

lemma avx512_blocks_ref:
  "n * 64 \<le> length src \<Longrightarrow>
   concat (map (avx512_block (mm512_set1_epi32 (from_ne_bytes False m)) src) [0..<n])
   = xor_from m 0 (take (n * 64) src)"
proof (induction n)
  case 0
  then show ?case by simp
next
  case (Suc n)
  have split: "take (Suc n * 64) src = take (n * 64) src @ take 64 (drop (n * 64) src)"
    by (simp only: mult_Suc take_add add.commute [of 64])
  have len: "length (take (n * 64) src) = n * 64" using Suc.prems by simp
  have shift: "xor_from m (n * 64) bs = xor_from m 0 bs" for bs
    by (rule xor_from_aligned) (rule dvd_mult, simp)
  have "n * 64 + 64 \<le> length src" "n * 64 \<le> length src" using Suc.prems by simp_all
  note blocks = Suc.IH [OF this(2)] and last = avx512_block_ref [OF this(1), of m]
  have "concat (map (avx512_block (mm512_set1_epi32 (from_ne_bytes False m)) src) [0..<Suc n])
        = xor_from m 0 (take (n * 64) src) @ xor_from m 0 (take 64 (drop (n * 64) src))"
    by (simp add: blocks last)
  then show ?case
    unfolding split xor_from_append len add_0 shift .
qed

lemma copy_masked_avx512_ref:
  assumes eq: "length dst = length src"
  shows "copy_masked_avx512 dst src m = Some (xor_ref m src)"
proof -
  define t where "t = length dst div 64 * 64"
  have le: "t \<le> length src" using eq by (simp add: t_def)
  have dvd: "4 dvd t" unfolding t_def by (rule dvd_mult) simp
  have blocks: "concat (map (avx512_block (mm512_set1_epi32 (from_ne_bytes False m)) src)
      [0..<length dst div 64]) = xor_ref m (take t src)"
    unfolding xor_ref_def t_def by (rule avx512_blocks_ref) (use le t_def in simp)
  have tail: "copy_masked_fallback False (drop t dst) (drop t src) m = Some (xor_ref m (drop t src))"
    using eq by (intro copy_masked_fallback_ref) simp
  have none: "drop t src = []" if "\<not> t < length dst"
    using that eq by simp
  show ?thesis
    using le none unfolding copy_masked_avx512_def Let_def t_def [symmetric] blocks tail
      xor_ref_split [OF le dvd, of m] by simp
qed

section \<open>The dispatcher\<close>

text \<open>What the kernels depend on of the machine: target, cached \<^verbatim>\<open>cpuid\<close> result, byte order.\<close>

record cpu =
  x86_64 :: bool
  has_avx512f :: bool
  big_endian :: bool

definition copy_masked :: "cpu \<Rightarrow> bytes \<Rightarrow> bytes \<Rightarrow> mask \<Rightarrow> bytes option" where
  "copy_masked c dst src m =
     (if length dst \<noteq> length src then None
      else if x86_64 c \<and> has_avx512f c then copy_masked_avx512 dst src m
      else copy_masked_fallback (big_endian c) dst src m)"

section \<open>The kernels' contract\<close>

locale masking_kernel =
  fixes kernel :: "bytes \<Rightarrow> bytes \<Rightarrow> mask \<Rightarrow> bytes option"
  assumes kernel_ref: "length dst = length src \<Longrightarrow> kernel dst src m = Some (xor_ref m src)"
begin

lemma kernel_length: "length dst = length src \<Longrightarrow> kernel dst src m = Some out \<Longrightarrow> length out = length src"
  by (auto simp: kernel_ref)

lemma kernel_overwrites:
  "length dst = length src \<Longrightarrow> length dst' = length src \<Longrightarrow> kernel dst src m = kernel dst' src m"
  by (simp add: kernel_ref)

lemma kernel_unmasks:
  "length dst = length src \<Longrightarrow> length dst' = length src \<Longrightarrow>
   kernel dst src m = Some out \<Longrightarrow> kernel dst' out m = Some src"
  by (auto simp: kernel_ref)

lemma kernel_agrees:
  "masking_kernel k \<Longrightarrow> length dst = length src \<Longrightarrow> kernel dst src m = k dst src m"
  by (simp add: kernel_ref masking_kernel.kernel_ref)

end

interpretation scalar: masking_kernel "copy_masked_fallback be" for be
  by unfold_locales (rule copy_masked_fallback_ref)

interpretation avx512: masking_kernel copy_masked_avx512
  by unfold_locales (rule copy_masked_avx512_ref)

interpretation masking: masking_kernel "copy_masked c" for c
  by unfold_locales (simp add: copy_masked_def copy_masked_fallback_ref copy_masked_avx512_ref)

section \<open>Properties\<close>

text \<open>C25 \<^verbatim>\<open>copy_masked\<close> on every CPU it dispatches for: with equal lengths it writes byte
  \<open>i\<close> of the source XOR byte \<open>i mod 4\<close> of the mask, whatever the destination held, whichever
  kernel runs and whatever the byte order of the machine; with unequal lengths it panics.\<close>

theorem copy_masked_correct:
  "copy_masked c dst src m =
     (if length dst = length src then Some (map (\<lambda>i. src ! i XOR mask_at m i) [0..<length src])
      else None)"
proof -
  have "xor_ref m src = map (\<lambda>i. src ! i XOR mask_at m i) [0..<length src]"
    by (rule nth_equalityI) (simp_all add: xor_ref_nth)
  then show ?thesis
    using masking.kernel_ref [of dst src c m] by (simp add: copy_masked_def)
qed



end
