(* ===== verification/Client_State.thy ===== *)
theory Client_State
  imports Handshake Masking
begin

text \<open>
  The state of \<^verbatim>\<open>NativeClient\<close> in \<^verbatim>\<open>src/src/native_client/client.rs\<close> with the operations that
  only move Python futures and messages around: parking and waking receivers, the ping registry,
  teardown, \<^verbatim>\<open>recv\<close> and \<^verbatim>\<open>__anext__\<close>.  The record \<open>State\<close> has the fields of the Rust struct; a
  held Python reference is a Boolean.  \<open>client\<close> extends it with what those references lead to:
  the futures of the event loop, the asyncio transport and the kernel buffer behind it, the random
  source and the CPU.
\<close>

section \<open>Futures\<close>

datatype PyErr =
    RuntimeError string
  | PyConnectionError string
  | ValueError string
  | StopAsyncIteration string
  | NativeReceiveCapacityError string
  | HandshakeFailed "nat option"
  | InvalidStateError
  | TypeError string
  | UnicodeEncodeError
  | ExtractError
  | Foreign nat

datatype PyVal = PyNone | PyMessage bytes

datatype FutureStatus = Waiting | ResultSet PyVal | ExceptionSet PyErr | Cancelled

text \<open>
  \<^verbatim>\<open>asyncio.Future\<close> answers \<^verbatim>\<open>done()\<close> honestly and rejects a second result.  The code also
  guards against futures of other event loops, whose \<^verbatim>\<open>done()\<close> may raise or return something
  else than a bool, and whose setters (\<open>rejects\<close>) or \<^verbatim>\<open>add_done_callback\<close> may raise.
\<close>

datatype Probe = Honest | ProbeRaises PyErr | ProbeNotBool

record PyFuture =
  status :: FutureStatus
  probe :: Probe
  rejects :: "PyErr option"
  add_raises :: "PyErr option"
  done_callbacks :: "bytes list"

type_synonym fut = nat

definition future_done :: "PyFuture \<Rightarrow> PyErr + bool option" where
  "future_done f =
     (case probe f of
        ProbeRaises e \<Rightarrow> Inl e
      | ProbeNotBool \<Rightarrow> Inr None
      | Honest \<Rightarrow> Inr (Some (status f \<noteq> Waiting)))"

text \<open>\<^verbatim>\<open>done()\<close> followed by \<^verbatim>\<open>extract::<bool>()\<close>, with either failure as \<open>None\<close>.\<close>

definition probe_done :: "PyFuture \<Rightarrow> bool option" where
  "probe_done f = (case future_done f of Inl e \<Rightarrow> None | Inr d \<Rightarrow> d)"

definition asyncio_future :: "PyFuture \<Rightarrow> bool" where
  "asyncio_future f \<longleftrightarrow> probe f = Honest \<and> rejects f = None"

lemma probe_done_Honest [simp]: "probe f = Honest \<Longrightarrow> probe_done f = Some (status f \<noteq> Waiting)"
  by (simp add: probe_done_def future_done_def)

lemma probe_done_Some_iff: "probe_done f = Some b \<longleftrightarrow> probe f = Honest \<and> b = (status f \<noteq> Waiting)"
  by (auto simp: probe_done_def future_done_def split: Probe.splits)

section \<open>The client\<close>

record State =
  transport :: bool
  buf :: bytes
  handshake_done :: bool
  handshake_fut :: "fut option"
  expected_accept :: rstring
  pending_pings :: "(bytes \<times> fut) list option"
  pending_recv :: "fut list"
  unprobeable_recv :: "fut list"
  recv_sweep_at :: nat
  backlog :: "bytes list"
  on_message :: bool
  pending_callback_msgs :: "bytes list"
  closed :: bool
  terminal_error :: "PyErr option"
  paused :: bool
  buf_known_empty :: bool
  mask_pool :: "u32 list"
  send_buf :: bytes
  recv_buf :: bytes
  zero_copy_min :: nat
  next_frame_needed :: "nat option"
  write_queue :: "bytes list"
  loop_ref :: bool
  transport_write :: bool
  transport_get_buf_size :: bool
  raw_fd :: bool
  create_future :: bool
  wait_for :: bool
  subprotocol :: "rstring option"
  close_code :: "u16 option"
  close_reason :: "rstring option"
  close_received_code :: "u16 option"
  close_received_reason :: "rstring option"
  close_sent_code :: "u16 option"
  close_sent_reason :: "rstring option"
  receive_timeout :: bool
  fragment_buf :: "bytes option"
  fragment_opcode :: u8
  fragment_rsv1 :: bool
  deflate :: bool

text \<open>
  The world behind the references.  \<open>new_future\<close> is what \<^verbatim>\<open>create_future()\<close> makes or raises;
  \<open>kernel\<close> holds the bytes the socket has taken, \<open>tbuf\<close> the ones the asyncio transport still
  buffers; \<open>accepts\<close> are the results \<^verbatim>\<open>send(2)\<close> is going to have (negative for an error, a full
  write when the list is used up); \<open>write_raises\<close> is set when \<^verbatim>\<open>transport.write\<close> raises.
\<close>

record client = State +
  futures :: "fut \<Rightarrow> PyFuture"
  next_fut :: fut
  new_future :: "fut \<Rightarrow> PyErr + PyFuture"
  kernel :: bytes
  tbuf :: bytes
  tclosed :: bool
  accepts :: "int list"
  write_raises :: "PyErr option"
  high_water :: nat
  rng :: "nat \<Rightarrow> u32"
  rng_pos :: nat
  machine :: cpu

section \<open>Settling futures\<close>

text \<open>\<^verbatim>\<open>future.set_result(v)\<close> and \<^verbatim>\<open>future.set_exception(e)\<close>.\<close>

definition settle :: "FutureStatus \<Rightarrow> fut \<Rightarrow> client \<Rightarrow> (PyErr + unit) \<times> client" where
  "settle v i c =
     (let f = futures c i in
      case rejects f of
        Some e \<Rightarrow> (Inl e, c)
      | None \<Rightarrow>
          if status f \<noteq> Waiting then (Inl InvalidStateError, c)
          else (Inr (), c\<lparr>futures := (futures c)(i := f\<lparr>status := v\<rparr>)\<rparr>))"

definition cancel_future :: "fut \<Rightarrow> client \<Rightarrow> client" where
  "cancel_future i c =
     (if status (futures c i) = Waiting
      then c\<lparr>futures := (futures c)(i := (futures c i)\<lparr>status := Cancelled\<rparr>)\<rparr> else c)"

definition set_future_result :: "fut \<Rightarrow> PyVal \<Rightarrow> client \<Rightarrow> (PyErr + unit) \<times> client" where
  "set_future_result i value c =
     (case future_done (futures c i) of
        Inl e \<Rightarrow> (Inl e, c)
      | Inr (Some True) \<Rightarrow> (Inr (), c)
      | Inr _ \<Rightarrow> settle (ResultSet value) i c)"

definition set_future_exception :: "fut \<Rightarrow> PyErr \<Rightarrow> client \<Rightarrow> client" where
  "set_future_exception i error c =
     (if probe_done (futures c i) = Some True then c
      else snd (settle (ExceptionSet error) i c))"

definition fail_pending :: "fut list \<Rightarrow> string \<Rightarrow> client \<Rightarrow> client" where
  "fail_pending pending msg c =
     fold (\<lambda>i. set_future_exception i (PyConnectionError msg)) pending c"

section \<open>Receivers\<close>

definition RECV_SWEEP_MIN :: nat where
  "RECV_SWEEP_MIN = 32"

text \<open>The loop of \<^verbatim>\<open>take_live_receiver\<close>: the live receiver, what is left of the queue, and the
  receivers it moves to quarantine.\<close>

fun pop_live :: "(fut \<Rightarrow> PyFuture) \<Rightarrow> fut list \<Rightarrow> fut option \<times> fut list \<times> fut list" where
  "pop_live h [] = (None, [], [])"
| "pop_live h (f # fs) =
     (case probe_done (h f) of
        Some False \<Rightarrow> (Some f, fs, [])
      | Some True \<Rightarrow> pop_live h fs
      | None \<Rightarrow> (case pop_live h fs of (r, rest, q) \<Rightarrow> (r, rest, f # q)))"

definition take_live_receiver :: "client \<Rightarrow> fut option \<times> client" where
  "take_live_receiver c =
     (case pop_live (futures c) (pending_recv c) of
        (r, rest, q) \<Rightarrow>
          (r, c\<lparr>pending_recv := rest, unprobeable_recv := unprobeable_recv c @ q\<rparr>))"

definition park_receiver :: "fut \<Rightarrow> client \<Rightarrow> client" where
  "park_receiver future c =
     (let c = (if recv_sweep_at c \<le> length (pending_recv c) then
                 (let live = filter (\<lambda>p. probe_done (futures c p) = Some False) (pending_recv c);
                      bad = filter (\<lambda>p. probe_done (futures c p) = None) (pending_recv c)
                  in c\<lparr>pending_recv := live, unprobeable_recv := unprobeable_recv c @ bad,
                       recv_sweep_at := max RECV_SWEEP_MIN (min (length live * 2) USIZE_MAX)\<rparr>)
               else c)
      in c\<lparr>pending_recv := pending_recv c @ [future]\<rparr>)"

definition deliver_message :: "bytes \<Rightarrow> client \<Rightarrow> (PyErr + unit) \<times> client" where
  "deliver_message msg c =
     (if on_message c then
        (Inr (), c\<lparr>pending_callback_msgs := pending_callback_msgs c @ [msg]\<rparr>)
      else case take_live_receiver c of
        (Some fut, c') \<Rightarrow> set_future_result fut (PyMessage msg) c'
      | (None, c') \<Rightarrow> (Inr (), c'\<lparr>backlog := backlog c' @ [msg]\<rparr>))"

section \<open>Pings\<close>

definition remove_key :: "bytes \<Rightarrow> (bytes \<times> fut) list \<Rightarrow> (bytes \<times> fut) list" where
  "remove_key payload pings = filter (\<lambda>p. fst p \<noteq> payload) pings"

definition take_ping :: "bytes \<Rightarrow> client \<Rightarrow> fut option \<times> client" where
  "take_ping payload c =
     (case pending_pings c of
        None \<Rightarrow> (None, c)
      | Some pings \<Rightarrow>
          (map_of pings payload, c\<lparr>pending_pings := Some (remove_key payload pings)\<rparr>))"

text \<open>\<^verbatim>\<open>PendingPing::acknowledge\<close>: detach the cleanup callback, then resolve the future; a
  future that refuses its result is failed with the refusal.\<close>

definition acknowledge :: "bytes \<Rightarrow> fut \<Rightarrow> client \<Rightarrow> client" where
  "acknowledge payload i c =
     (let f = futures c i;
          c = c\<lparr>futures := (futures c)(i := f\<lparr>done_callbacks := filter (\<lambda>p. p \<noteq> payload) (done_callbacks f)\<rparr>)\<rparr>
      in case set_future_result i PyNone c of
           (Inr _, c') \<Rightarrow> c'
         | (Inl error, c') \<Rightarrow> snd (settle (ExceptionSet error) i c'))"

text \<open>\<^verbatim>\<open>PingCleanup::__call__\<close>, which the event loop runs once the future is done.\<close>

definition ping_cleanup :: "bytes \<Rightarrow> fut \<Rightarrow> client \<Rightarrow> client" where
  "ping_cleanup payload future c =
     (case pending_pings c of
        None \<Rightarrow> c
      | Some pings \<Rightarrow>
          if map_of pings payload = Some future
          then c\<lparr>pending_pings := Some (remove_key payload pings)\<rparr> else c)"

section \<open>Teardown\<close>

definition release_references :: "client \<Rightarrow> client" where
  "release_references c =
     c\<lparr>transport := False, transport_write := False, transport_get_buf_size := False,
       raw_fd := False, loop_ref := False, on_message := False, create_future := False,
       wait_for := False, write_queue := [], pending_callback_msgs := []\<rparr>"

definition pending_futures :: "client \<Rightarrow> fut list" where
  "pending_futures c =
     pending_recv c @ unprobeable_recv c @
     (case handshake_fut c of None \<Rightarrow> [] | Some f \<Rightarrow> [f]) @
     (case pending_pings c of None \<Rightarrow> [] | Some pings \<Rightarrow> map snd pings)"

definition take_pending :: "client \<Rightarrow> fut list \<times> client" where
  "take_pending c =
     (pending_futures c,
      c\<lparr>pending_recv := [], unprobeable_recv := [], handshake_fut := None, pending_pings := None\<rparr>)"

section \<open>Receiving from the application's side\<close>

datatype Awaitable =
    ReadyOk bytes
  | ReadyErr PyErr
  | FutureObj fut
  | WaitFor fut

text \<open>\<^verbatim>\<open>create_future.call0()\<close>.\<close>

definition call_create_future :: "client \<Rightarrow> (PyErr + fut) \<times> client" where
  "call_create_future c =
     (case new_future c (next_fut c) of
        Inl e \<Rightarrow> (Inl e, c)
      | Inr f \<Rightarrow>
          (Inr (next_fut c),
           c\<lparr>futures := (futures c)(next_fut c := f), next_fut := next_fut c + 1\<rparr>))"

definition wait_for_message :: "client \<Rightarrow> (PyErr + Awaitable) \<times> client" where
  "wait_for_message c =
     (if \<not> create_future c then (Inl (RuntimeError ''Event loop not bound''), c)
      else case call_create_future c of
        (Inl e, c') \<Rightarrow> (Inl e, c')
      | (Inr fut, c') \<Rightarrow>
          (Inr (if receive_timeout c \<and> wait_for c then WaitFor fut else FutureObj fut),
           park_receiver fut c'))"

definition recv :: "client \<Rightarrow> (PyErr + Awaitable) \<times> client" where
  "recv c =
     (case backlog c of
        payload # rest \<Rightarrow> (Inr (ReadyOk payload), c\<lparr>backlog := rest\<rparr>)
      | [] \<Rightarrow>
          if closed c then
            (Inr (ReadyErr
               (if terminal_error c \<noteq> None
                then NativeReceiveCapacityError ''Rust TLS pending plaintext exceeds 1 MiB read-flow bound''
                else PyConnectionError ''Connection closed'')), c)
          else wait_for_message c)"

definition anext :: "client \<Rightarrow> (PyErr + Awaitable) \<times> client" where
  "anext c =
     (case backlog c of
        payload # rest \<Rightarrow> (Inr (ReadyOk payload), c\<lparr>backlog := rest\<rparr>)
      | [] \<Rightarrow>
          if closed c then (Inr (ReadyErr (StopAsyncIteration ''Connection closed'')), c)
          else wait_for_message c)"

definition is_open :: "client \<Rightarrow> bool" where
  "is_open c \<longleftrightarrow> handshake_done c \<and> \<not> closed c \<and> transport c"

section \<open>A new connection\<close>

definition ZERO_COPY_MIN_PAYLOAD :: nat where
  "ZERO_COPY_MIN_PAYLOAD = 4096"

text \<open>The state \<^verbatim>\<open>connect\<close> builds, on an event loop whose \<^verbatim>\<open>create_future()\<close> is \<open>mk\<close>, with the
  random source \<open>random\<close>, the high-water mark \<open>hw\<close> of its transport and the CPU \<open>m\<close>.\<close>

definition connect_state ::
  "rstring \<Rightarrow> bool \<Rightarrow> bool \<Rightarrow> nat option \<Rightarrow> bool \<Rightarrow> (fut \<Rightarrow> PyErr + PyFuture) \<Rightarrow> (nat \<Rightarrow> u32) \<Rightarrow> nat \<Rightarrow> cpu \<Rightarrow> client" where
  "connect_state accept has_callback has_timeout zero_copy_min_bytes compression mk random hw m =
     \<lparr>transport = False, buf = [], handshake_done = False, handshake_fut = None, expected_accept = accept,
      pending_pings = None, pending_recv = [], unprobeable_recv = [], recv_sweep_at = RECV_SWEEP_MIN,
      backlog = [], on_message = has_callback, pending_callback_msgs = [], closed = False,
      terminal_error = None, paused = False, buf_known_empty = False, mask_pool = [], send_buf = [],
      recv_buf = [],
      zero_copy_min = (case zero_copy_min_bytes of None \<Rightarrow> ZERO_COPY_MIN_PAYLOAD | Some n \<Rightarrow> n),
      next_frame_needed = None, write_queue = [], loop_ref = False, transport_write = False,
      transport_get_buf_size = False, raw_fd = False, create_future = False, wait_for = False,
      subprotocol = None, close_code = None, close_reason = None, close_received_code = None,
      close_received_reason = None, close_sent_code = None, close_sent_reason = None,
      receive_timeout = has_timeout, fragment_buf = None, fragment_opcode = 0, fragment_rsv1 = False,
      deflate = compression,
      futures = (\<lambda>_. \<lparr>status = Waiting, probe = Honest, rejects = None, add_raises = None, done_callbacks = []\<rparr>),
      next_fut = 0, new_future = mk, kernel = [], tbuf = [], tclosed = False, accepts = [],
      write_raises = None, high_water = hw, rng = random, rng_pos = 0, machine = m\<rparr>"

text \<open>Creating the handshake future and caching the references to the event loop.\<close>

definition bind_event_loop :: "client \<Rightarrow> (PyErr + unit) \<times> client" where
  "bind_event_loop c =
     (case call_create_future c of
        (Inl e, c') \<Rightarrow> (Inl e, c')
      | (Inr future, c') \<Rightarrow>
          (Inr (), c'\<lparr>handshake_fut := Some future, loop_ref := True, create_future := True, wait_for := True\<rparr>))"

text \<open>An open connection on asyncio's own futures, for the examples.\<close>

definition asyncio_new_future :: "fut \<Rightarrow> PyErr + PyFuture" where
  "asyncio_new_future i =
     Inr \<lparr>status = Waiting, probe = Honest, rejects = None, add_raises = None, done_callbacks = []\<rparr>"

definition demo_client :: client where
  "demo_client = (connect_state [] False False None False asyncio_new_future (\<lambda>_. 0) 65536
       \<lparr>x86_64 = False, has_avx512f = False, big_endian = False\<rparr>)
     \<lparr>transport := True, transport_write := True, handshake_done := True, loop_ref := True,
      create_future := True, wait_for := True\<rparr>"

section \<open>What the operations do to the futures\<close>

text \<open>
  Failing, acknowledging and resolving touch nothing but the future heap, one entry each.  These
  normal forms are what later proofs rewrite with.
\<close>

definition fail_one :: "PyErr \<Rightarrow> PyFuture \<Rightarrow> PyFuture" where
  "fail_one e f = (if status f = Waiting \<and> rejects f = None then f\<lparr>status := ExceptionSet e\<rparr> else f)"

definition ack_one :: "bytes \<Rightarrow> PyFuture \<Rightarrow> PyFuture" where
  "ack_one payload f =
     (let f' = f\<lparr>done_callbacks := filter (\<lambda>p. p \<noteq> payload) (done_callbacks f)\<rparr> in
      if status f = Waiting \<and> rejects f = None
      then f'\<lparr>status := (case probe f of ProbeRaises e \<Rightarrow> ExceptionSet e | _ \<Rightarrow> ResultSet PyNone)\<rparr>
      else f')"

lemma set_future_exception_heap:
  "set_future_exception i e c = c\<lparr>futures := (futures c)(i := fail_one e (futures c i))\<rparr>"
  by (auto simp: set_future_exception_def settle_def fail_one_def Let_def probe_done_Some_iff
      split: option.split)

lemma acknowledge_heap:
  "acknowledge p i c = c\<lparr>futures := (futures c)(i := ack_one p (futures c i))\<rparr>"
  by (cases "probe (futures c i)"; cases "rejects (futures c i)"; cases "status (futures c i) = Waiting")
    (simp_all add: acknowledge_def set_future_result_def settle_def ack_one_def Let_def future_done_def)

lemma fail_pending_Nil [simp]: "fail_pending [] msg c = c"
  by (simp add: fail_pending_def)

lemma fail_pending_Cons [simp]:
  "fail_pending (i # is) msg c = fail_pending is msg (set_future_exception i (PyConnectionError msg) c)"
  by (simp add: fail_pending_def)

lemma fail_one_idem [simp]: "fail_one e (fail_one e' f) = fail_one e' f"
  by (simp add: fail_one_def)

definition fail_all :: "fut list \<Rightarrow> PyErr \<Rightarrow> (fut \<Rightarrow> PyFuture) \<Rightarrow> fut \<Rightarrow> PyFuture" where
  "fail_all is e h = (\<lambda>i. if i \<in> set is then fail_one e (h i) else h i)"

lemma fail_pending_heap:
  "fail_pending is msg c = c\<lparr>futures := fail_all is (PyConnectionError msg) (futures c)\<rparr>"
proof (induction "is" arbitrary: c)
  case Nil
  then show ?case by (simp add: fail_all_def)
next
  case (Cons i "is")
  have "fail_all is (PyConnectionError msg) ((futures c)(i := fail_one (PyConnectionError msg) (futures c i)))
      = fail_all (i # is) (PyConnectionError msg) (futures c)"
    by (auto simp: fail_all_def fun_eq_iff)
  then show ?case
    unfolding fail_pending_Cons Cons set_future_exception_heap by simp
qed

text \<open>Every future that accepts an exception is settled afterwards, whatever its \<^verbatim>\<open>done()\<close> says,
  and none that was already settled changes.\<close>

lemma fail_one_settles: "rejects f = None \<Longrightarrow> status (fail_one e f) \<noteq> Waiting"
  by (simp add: fail_one_def)

lemma ack_one_settles: "rejects f = None \<Longrightarrow> status (ack_one p f) \<noteq> Waiting"
  by (simp add: ack_one_def Let_def split: Probe.split)

section \<open>Delivery\<close>

definition waiting_receivers :: "client \<Rightarrow> fut list" where
  "waiting_receivers c = filter (\<lambda>i. probe_done (futures c i) = Some False) (pending_recv c)"

lemma pop_live_None:
  "pop_live h fs = (None, rest, q) \<Longrightarrow>
   rest = [] \<and> filter (\<lambda>i. probe_done (h i) = Some False) fs = [] \<and>
   q = filter (\<lambda>i. probe_done (h i) = None) fs"
  by (induction fs arbitrary: q) (auto split: option.splits bool.splits prod.splits)

lemma pop_live_Some:
  "pop_live h fs = (Some i, rest, q) \<Longrightarrow>
   \<exists>pre. fs = pre @ i # rest \<and> filter (\<lambda>j. probe_done (h j) = Some False) pre = [] \<and>
         probe_done (h i) = Some False \<and> q = filter (\<lambda>j. probe_done (h j) = None) pre"
proof (induction fs arbitrary: q)
  case Nil
  then show ?case by simp
next
  case (Cons f fs)
  show ?case
  proof (cases "probe_done (h f) = Some False")
    case True
    with Cons.prems show ?thesis by (intro exI [of _ "[]"]) auto
  next
    case False
    with Cons.prems obtain q' where "pop_live h fs = (Some i, rest, q')"
      and q: "q = (if probe_done (h f) = None then f # q' else q')"
      by (auto split: option.splits bool.splits prod.splits)
    from Cons.IH [OF this(1)] obtain pre where "fs = pre @ i # rest"
      "filter (\<lambda>j. probe_done (h j) = Some False) pre = []" "probe_done (h i) = Some False"
      "q' = filter (\<lambda>j. probe_done (h j) = None) pre" by blast
    with False q show ?thesis by (intro exI [of _ "f # pre"]) auto
  qed
qed

lemma take_live_receiver_cases [consumes 0, case_names None Some]:
  obtains "waiting_receivers c = []" and
      "take_live_receiver c = (None, c\<lparr>pending_recv := [], unprobeable_recv := unprobeable_recv c @
         filter (\<lambda>i. probe_done (futures c i) = None) (pending_recv c)\<rparr>)"
    | pre i rest where "pending_recv c = pre @ i # rest"
      and "filter (\<lambda>j. probe_done (futures c j) = Some False) pre = []"
      and "probe_done (futures c i) = Some False"
      and "take_live_receiver c = (Some i, c\<lparr>pending_recv := rest, unprobeable_recv := unprobeable_recv c @
         filter (\<lambda>i. probe_done (futures c i) = None) pre\<rparr>)"
proof (cases "pop_live (futures c) (pending_recv c)")
  case (fields r rest q)
  show ?thesis
  proof (cases r)
    case None
    with fields pop_live_None [of "futures c" "pending_recv c" rest q] that(1) show ?thesis
      by (simp add: take_live_receiver_def waiting_receivers_def)
  next
    case (Some i)
    with fields pop_live_Some [of "futures c" "pending_recv c" i rest q] that(2) show ?thesis
      by (auto simp: take_live_receiver_def)
  qed
qed

text \<open>With asyncio's own futures the delivery of one message either resolves the first waiting
  receiver or appends to the backlog, and never fails.\<close>

lemma deliver_to_receiver:
  assumes "\<not> on_message c" and "waiting_receivers c = i # w"
    and "\<forall>j \<in> set (pending_recv c). asyncio_future (futures c j)" and "distinct (pending_recv c)"
  shows "\<exists>c'. deliver_message m c = (Inr (), c') \<and> on_message c' = on_message c \<and>
    futures c' = (futures c)(i := (futures c i)\<lparr>status := ResultSet (PyMessage m)\<rparr>) \<and>
    waiting_receivers c' = w \<and> backlog c' = backlog c \<and>
    set (pending_recv c') \<subseteq> set (pending_recv c) \<and> distinct (pending_recv c')"
proof (cases c rule: take_live_receiver_cases)
  case None
  with assms(2) show ?thesis by simp
next
  case (Some pre k rest)
  have "waiting_receivers c = k # filter (\<lambda>i. probe_done (futures c i) = Some False) rest"
    using Some by (simp add: waiting_receivers_def)
  with assms(2) have k: "k = i" and w: "w = filter (\<lambda>i. probe_done (futures c i) = Some False) rest"
    by auto
  have fut: "probe (futures c i) = Honest" "status (futures c i) = Waiting" "rejects (futures c i) = None"
    using assms(3) Some k by (auto simp: asyncio_future_def)
  have fresh: "i \<notin> set rest" "distinct rest" using assms(4) Some k by auto
  have "waiting_receivers (c\<lparr>pending_recv := rest,
      unprobeable_recv := u, futures := (futures c)(i := f)\<rparr>) = w" for u f
    using fresh(1) unfolding w waiting_receivers_def by (auto intro!: filter_cong)
  then show ?thesis
    using Some fut fresh(2) assms(1) unfolding k
    by (auto simp: deliver_message_def set_future_result_def future_done_def settle_def)
qed

lemma deliver_to_backlog:
  assumes "\<not> on_message c" and "waiting_receivers c = []"
  shows "\<exists>c'. deliver_message m c = (Inr (), c') \<and> on_message c' = on_message c \<and> futures c' = futures c \<and>
    pending_recv c' = [] \<and> backlog c' = backlog c @ [m]"
proof (cases c rule: take_live_receiver_cases)
  case None
  then show ?thesis using assms(1) by (simp add: deliver_message_def)
next
  case (Some pre i rest)
  with assms(2) show ?thesis by (simp add: waiting_receivers_def)
qed

text \<open>A batch of messages.\<close>

fun deliver_messages :: "bytes list \<Rightarrow> client \<Rightarrow> (PyErr + unit) \<times> client" where
  "deliver_messages [] c = (Inr (), c)"
| "deliver_messages (m # ms) c =
     (case deliver_message m c of
        (Inl e, c') \<Rightarrow> (Inl e, c')
      | (Inr _, c') \<Rightarrow> deliver_messages ms c')"

lemma deliver_messages_fifo:
  assumes "\<not> on_message c" and "\<forall>j \<in> set (pending_recv c). asyncio_future (futures c j)"
    and "distinct (pending_recv c)" and "w = waiting_receivers c"
  shows "\<exists>c'. deliver_messages ms c = (Inr (), c') \<and>
    futures c' = (\<lambda>i. case map_of (zip w ms) i of
        Some m \<Rightarrow> (futures c i)\<lparr>status := ResultSet (PyMessage m)\<rparr> | None \<Rightarrow> futures c i) \<and>
    backlog c' = backlog c @ drop (length w) ms \<and> waiting_receivers c' = drop (length ms) w"
  using assms
proof (induction ms arbitrary: c w)
  case Nil
  then show ?case by simp
next
  case (Cons m ms)
  show ?case
  proof (cases w)
    case Nil
    from deliver_to_backlog [OF Cons.prems(1), of m] Cons.prems(4) Nil obtain c1 where
      c1: "deliver_message m c = (Inr (), c1)" "\<not> on_message c1" "futures c1 = futures c"
        "pending_recv c1 = []" "backlog c1 = backlog c @ [m]"
      using Cons.prems(1) by auto
    have w1: "[] = waiting_receivers c1" by (simp add: waiting_receivers_def c1(4))
    obtain c2 where "deliver_messages ms c1 = (Inr (), c2)" "futures c2 = futures c1"
      "backlog c2 = backlog c1 @ ms" "waiting_receivers c2 = []"
      using Cons.IH [OF c1(2) _ _ w1] c1(4) by (simp, blast)
    then show ?thesis using c1 by (simp add: Nil)
  next
    case (Cons i w')
    have "waiting_receivers c = i # w'" using Cons Cons.prems(4) by simp
    from deliver_to_receiver [OF Cons.prems(1) this Cons.prems(2,3), of m]
    obtain c1 where c1: "deliver_message m c = (Inr (), c1)" "on_message c1 = on_message c"
      "futures c1 = (futures c)(i := (futures c i)\<lparr>status := ResultSet (PyMessage m)\<rparr>)"
      "waiting_receivers c1 = w'" "backlog c1 = backlog c"
      "set (pending_recv c1) \<subseteq> set (pending_recv c)" "distinct (pending_recv c1)"
      by blast
    have i: "i \<notin> set w'"
    proof -
      have "distinct w" using Cons.prems(3,4) by (simp add: waiting_receivers_def)
      with Cons show ?thesis by simp
    qed
    have "\<forall>j \<in> set (pending_recv c1). asyncio_future (futures c1 j)"
      using c1 Cons.prems(2) by (auto simp: asyncio_future_def)
    from Cons.IH [OF _ this c1(7) c1(4) [symmetric]] c1(2) Cons.prems(1) obtain c2 where
      c2: "deliver_messages ms c1 = (Inr (), c2)"
        "futures c2 = (\<lambda>k. case map_of (zip w' ms) k of
          Some m \<Rightarrow> (futures c1 k)\<lparr>status := ResultSet (PyMessage m)\<rparr> | None \<Rightarrow> futures c1 k)"
        "backlog c2 = backlog c1 @ drop (length w') ms" "waiting_receivers c2 = drop (length ms) w'"
      by blast
    have none: "map_of (zip w' ms) i = None"
      using i by (auto simp: map_of_eq_None_iff dest: set_zip_leftD)
    have heap: "futures c2 = (\<lambda>k. case map_of (zip w (m # ms)) k of
        Some m \<Rightarrow> (futures c k)\<lparr>status := ResultSet (PyMessage m)\<rparr> | None \<Rightarrow> futures c k)"
    proof
      fix k
      show "futures c2 k = (case map_of (zip w (m # ms)) k of
        Some m \<Rightarrow> (futures c k)\<lparr>status := ResultSet (PyMessage m)\<rparr> | None \<Rightarrow> futures c k)"
        by (cases "k = i") (simp_all add: c2(2) c1(3) none Cons split: option.split)
    qed
    have "deliver_messages (m # ms) c = (Inr (), c2)" by (simp add: c1(1) c2(1))
    then show ?thesis using heap c1(5) c2(3,4) by (simp add: Cons)
  qed
qed

section \<open>Parking\<close>

lemma park_receiver_waiting:
  "waiting_receivers (park_receiver i c) =
     waiting_receivers c @ (if probe_done (futures c i) = Some False then [i] else [])"
  by (simp add: park_receiver_def waiting_receivers_def Let_def)

lemma park_receiver_bounded:
  assumes "length (pending_recv c) \<le> recv_sweep_at c" and "RECV_SWEEP_MIN \<le> recv_sweep_at c"
    and "recv_sweep_at c \<le> max RECV_SWEEP_MIN (2 * peak)" and "length (waiting_receivers c) \<le> peak"
    and "length (pending_recv c) < USIZE_MAX" and "c' = park_receiver i c"
  shows "length (pending_recv c') \<le> recv_sweep_at c' \<and> RECV_SWEEP_MIN \<le> recv_sweep_at c' \<and>
    recv_sweep_at c' \<le> max RECV_SWEEP_MIN (2 * peak)"
proof -
  define live where "live = waiting_receivers c"
  have len: "length live \<le> length (pending_recv c)" by (simp add: live_def waiting_receivers_def)
  show ?thesis
    using assms len
    by (auto simp: park_receiver_def Let_def RECV_SWEEP_MIN_def waiting_receivers_def [symmetric]
        live_def [symmetric])
qed

section \<open>Properties\<close>

text \<open>C13 Messages reach the receivers in order: a batch of messages resolves the waiting receivers one by
  one in the order they were parked, skipping those that were cancelled meanwhile, and what is
  left over joins the backlog in order.  No message is lost and no receiver gets two.\<close>

theorem delivery_is_fifo:
  assumes "\<not> on_message c" and "\<forall>j \<in> set (pending_recv c). asyncio_future (futures c j)"
    and "distinct (pending_recv c)"
  shows "\<exists>c'. deliver_messages ms c = (Inr (), c') \<and>
    futures c' = (\<lambda>i. case map_of (zip (waiting_receivers c) ms) i of
        Some m \<Rightarrow> (futures c i)\<lparr>status := ResultSet (PyMessage m)\<rparr> | None \<Rightarrow> futures c i) \<and>
    backlog c' = backlog c @ drop (length (waiting_receivers c)) ms \<and>
    waiting_receivers c' = drop (length ms) (waiting_receivers c)"
  by (rule deliver_messages_fifo [OF assms refl])

theorem delivery_is_fifo_witness:
  "\<exists>c'. deliver_messages [[1], [2], [3]] (demo_client\<lparr>pending_recv := [5, 3]\<rparr>) = (Inr (), c') \<and>
    status (futures c' 5) = ResultSet (PyMessage [1]) \<and> status (futures c' 3) = ResultSet (PyMessage [2]) \<and>
    backlog c' = [[3]]"
proof -
  have w: "waiting_receivers (demo_client\<lparr>pending_recv := [5, 3]\<rparr>) = [5, 3]"
    by (simp add: waiting_receivers_def demo_client_def connect_state_def)
  have "\<not> on_message (demo_client\<lparr>pending_recv := [5, 3]\<rparr>)"
    "\<forall>j \<in> set (pending_recv (demo_client\<lparr>pending_recv := [5, 3]\<rparr>)).
       asyncio_future (futures (demo_client\<lparr>pending_recv := [5, 3]\<rparr>) j)"
    "distinct (pending_recv (demo_client\<lparr>pending_recv := [5, 3]\<rparr>))" "backlog demo_client = []"
    by (simp_all add: demo_client_def connect_state_def asyncio_future_def)
  with delivery_is_fifo [of "demo_client\<lparr>pending_recv := [5, 3]\<rparr>" "[[1], [2], [3]]"] w show ?thesis by auto
qed

text \<open>C19 The queue of parked receivers stays bounded: parking keeps every receiver that still waits,
  appends the new one, and its sweep of cancelled receivers keeps the queue within twice the
  largest number that ever waited at once (or the minimal threshold).\<close>

theorem parked_receivers_bounded:
  assumes "length (pending_recv c) \<le> recv_sweep_at c" and "RECV_SWEEP_MIN \<le> recv_sweep_at c"
    and "recv_sweep_at c \<le> max RECV_SWEEP_MIN (2 * peak)" and "length (waiting_receivers c) \<le> peak"
    and "length (pending_recv c) < USIZE_MAX" and "probe_done (futures c i) = Some False"
    and "c' = park_receiver i c"
  shows "waiting_receivers c' = waiting_receivers c @ [i] \<and> length (pending_recv c') \<le> recv_sweep_at c' \<and>
    RECV_SWEEP_MIN \<le> recv_sweep_at c' \<and> recv_sweep_at c' \<le> max RECV_SWEEP_MIN (2 * peak)"
  using park_receiver_bounded [OF assms(1-5,7)] park_receiver_waiting [of i c] assms(6,7) by simp

theorem parked_receivers_bounded_witness:
  "waiting_receivers (park_receiver 7 demo_client) = [7] \<and>
   length (pending_recv (park_receiver 7 demo_client)) \<le> 32"
proof -
  have "waiting_receivers demo_client = []" "recv_sweep_at demo_client = 32" "pending_recv demo_client = []"
    "probe_done (futures demo_client 7) = Some False"
    by (simp_all add: demo_client_def connect_state_def waiting_receivers_def RECV_SWEEP_MIN_def)
  with parked_receivers_bounded [of demo_client 0 7 "park_receiver 7 demo_client"] show ?thesis
    by (simp add: RECV_SWEEP_MIN_def USIZE_MAX_def)
qed



end
