(* ===== verification/Client_Send.thy ===== *)
theory Client_Send
  imports Client_State
begin

text \<open>
  The sending half of \<^verbatim>\<open>NativeClient\<close> in \<^verbatim>\<open>src/src/native_client/client.rs\<close>: mask keys, control
  frames, \<^verbatim>\<open>send\<close> with its native fast path, the write-queue of a paused transport, \<^verbatim>\<open>ping\<close>,
  \<^verbatim>\<open>pong\<close>, \<^verbatim>\<open>close\<close> and \<^verbatim>\<open>connection_made\<close>.  The transport is asyncio's; the DEFLATE
  compressor of \<^verbatim>\<open>flate2\<close> is a parameter.
\<close>

section \<open>The socket and the transport\<close>

text \<open>\<^verbatim>\<open>send(2)\<close> on the raw socket, which \<^verbatim>\<open>native_send\<close> wraps.\<close>

definition send_result :: "bytes \<Rightarrow> client \<Rightarrow> int" where
  "send_result data c =
     (case accepts c of
        [] \<Rightarrow> int (length data)
      | r # _ \<Rightarrow> if r < 0 then - 1 else min r (int (length data)))"

definition native_send :: "bytes \<Rightarrow> client \<Rightarrow> int \<times> client" where
  "native_send data c =
     (send_result data c,
      c\<lparr>kernel := kernel c @ take (nat (send_result data c)) data, accepts := tl (accepts c)\<rparr>)"

definition pause_writing :: "client \<Rightarrow> client" where
  "pause_writing c = c\<lparr>paused := True, buf_known_empty := False\<rparr>"

text \<open>
  \<^verbatim>\<open>transport.write(data)\<close>: with an empty buffer the transport first tries the socket, what is
  left over it buffers, and above the high-water mark it calls \<^verbatim>\<open>pause_writing\<close> right away.  A
  closed transport drops the data.
\<close>

definition transport_write_call :: "bytes \<Rightarrow> client \<Rightarrow> (PyErr + unit) \<times> client" where
  "transport_write_call data c =
     (case write_raises c of
        Some e \<Rightarrow> (Inl e, c)
      | None \<Rightarrow>
          if tclosed c then (Inr (), c)
          else
            let (n, c1) = (if tbuf c = [] then native_send data c else (0, c));
                c2 = c1\<lparr>tbuf := tbuf c1 @ drop (nat n) data\<rparr>
            in (Inr (), if high_water c2 < length (tbuf c2) then pause_writing c2 else c2))"

definition transport_close :: "client \<Rightarrow> client" where
  "transport_close c = c\<lparr>tclosed := True\<rparr>"

text \<open>Everything the transport has been given, in order.\<close>

definition wire :: "client \<Rightarrow> bytes" where
  "wire c = kernel c @ tbuf c"

definition link_up :: "client \<Rightarrow> bool" where
  "link_up c \<longleftrightarrow> write_raises c = None \<and> \<not> tclosed c"

section \<open>Mask keys and control frames\<close>

definition next_mask_key :: "client \<Rightarrow> mask \<times> client" where
  "next_mask_key c =
     (let refill = (mask_pool c = []);
          pool = (if refill then map (rng c) [rng_pos c ..< rng_pos c + 256] else mask_pool c)
      in (to_ne_bytes (big_endian (machine c)) (last pool),
          c\<lparr>mask_pool := butlast pool, rng_pos := (if refill then rng_pos c + 256 else rng_pos c)\<rparr>))"

text \<open>\<^verbatim>\<open>copy_masked\<close> over a destination of the payload's length; it does not panic there.\<close>

definition masked_over :: "cpu \<Rightarrow> bytes \<Rightarrow> bytes \<Rightarrow> mask \<Rightarrow> bytes" where
  "masked_over m dst src key = (case copy_masked m dst src key of Some out \<Rightarrow> out | None \<Rightarrow> [])"

lemma masked_over_ref: "length dst = length src \<Longrightarrow> masked_over m dst src key = xor_ref key src"
  by (simp add: masked_over_def masking.kernel_ref)

definition encode_control_into :: "u8 \<Rightarrow> bytes \<Rightarrow> client \<Rightarrow> bytes \<times> client" where
  "encode_control_into opcode payload c =
     (case next_mask_key (c\<lparr>buf_known_empty := False\<rparr>) of
        (key, c') \<Rightarrow>
          ([0x80 OR opcode, 0x80 OR of_nat (length payload)] @ mask_list key @
             masked_over (machine c') (replicate (length payload) 0) payload key, c'))"

definition encode_control_frame :: "u8 \<Rightarrow> bytes \<Rightarrow> client \<Rightarrow> bytes \<times> client" where
  "encode_control_frame opcode payload c =
     encode_control_into opcode (take (min (length payload) 125) payload) c"

section \<open>Compression\<close>

text \<open>
  \<^verbatim>\<open>flate2::Compress\<close>: a fresh instance and \<^verbatim>\<open>compress_vec\<close> with \<^verbatim>\<open>FlushCompress::Sync\<close>, which
  from some input and some spare output capacity consumes a number of bytes and appends others,
  or fails.
\<close>

record 'z compressor =
  cz_new :: 'z
  cz_step :: "'z \<Rightarrow> bytes \<Rightarrow> nat \<Rightarrow> string + ('z \<times> nat \<times> bytes)"

definition ends_with :: "bytes \<Rightarrow> bytes \<Rightarrow> bool" where
  "ends_with out t \<longleftrightarrow> length t \<le> length out \<and> drop (length out - length t) out = t"

text \<open>\<^verbatim>\<open>Vec::reserve\<close>: amortised growth of the capacity.\<close>

definition reserve :: "nat \<Rightarrow> nat \<Rightarrow> nat \<Rightarrow> nat" where
  "reserve cap len additional =
     (if cap - len < additional then max 8 (max (cap * 2) (len + additional)) else cap)"

partial_function (option) deflate_loop ::
  "('z \<Rightarrow> bytes \<Rightarrow> nat \<Rightarrow> string + ('z \<times> nat \<times> bytes)) \<Rightarrow> bytes \<Rightarrow> 'z \<Rightarrow> nat \<Rightarrow> bytes \<Rightarrow> nat \<Rightarrow>
   (PyErr + bytes) option" where
  "deflate_loop compress_vec raw z cursor out cap =
     (let need = (if cursor < length raw then 128 else 32);
          cap' = (if cap - length out < need
                  then reserve cap (length out) (max (length raw) 1024) else cap)
      in case compress_vec z (drop cursor raw) (cap' - length out) of
           Inl e \<Rightarrow> Some (Inl (RuntimeError (''deflate error: '' @ e)))
         | Inr (z', used, produced) \<Rightarrow>
             (let cursor' = cursor + used; out' = out @ produced
              in if length raw \<le> cursor' \<and> ends_with out' deflate_tail then Some (Inr out')
                 else if length raw \<le> cursor' \<and> produced = [] then Some (Inr out')
                 else deflate_loop compress_vec raw z' cursor' out' cap'))"

definition strip_tail :: "bytes \<Rightarrow> bytes" where
  "strip_tail out = (if ends_with out deflate_tail then take (length out - 4) out else out)"

definition deflate_message :: "'z compressor \<Rightarrow> bytes \<Rightarrow> (PyErr + bytes) option" where
  "deflate_message cz raw =
     map_option (map_sum id strip_tail)
       (deflate_loop (cz_step cz) raw (cz_new cz) 0 [] (length raw + 64))"

section \<open>Sending a message\<close>

datatype PyMsg = PyBytes bytes | PyStr rstring | PyOther

definition message_payload :: "PyMsg \<Rightarrow> PyErr + (bytes \<times> u8)" where
  "message_payload m =
     (case m of
        PyBytes b \<Rightarrow> Inr (b, 0x2)
      | PyStr s \<Rightarrow> if list_all scalar s then Inr (utf8_encode s, 0x1) else Inl UnicodeEncodeError
      | PyOther \<Rightarrow> Inl (ValueError ''message must be str or bytes''))"

definition send_header :: "u8 \<Rightarrow> bool \<Rightarrow> nat \<Rightarrow> mask \<Rightarrow> bytes" where
  "send_header opcode compressed plen mask_key =
     (let b0 = 0x80 OR opcode OR (if compressed then 0x40 else 0x00) in
      (if plen \<le> 125 then [b0, 0x80 OR of_nat plen]
       else if plen \<le> 65535 then [b0, 0x80 OR 126] @ to_be_bytes 2 plen
       else [b0, 0x80 OR 127] @ to_be_bytes 8 plen) @ mask_list mask_key)"

definition build_merged_frame :: "bytes \<Rightarrow> bytes \<Rightarrow> mask \<Rightarrow> client \<Rightarrow> bytes" where
  "build_merged_frame header payload mask_key c =
     header @ masked_over (machine c) (replicate (length payload) 0) payload mask_key"

text \<open>Is asyncio's write buffer empty?  The cached answer saves the Python call.\<close>

definition check_drained :: "client \<Rightarrow> bool \<times> client" where
  "check_drained c =
     (if buf_known_empty c then (True, c)
      else if transport_get_buf_size c \<and> tbuf c = [] then (True, c\<lparr>buf_known_empty := True\<rparr>)
      else (False, c))"

text \<open>Assemble the frame in the grow-only scratch buffer and try the socket: the number of bytes
  written and the frame.\<close>

definition send_scratch :: "bytes \<Rightarrow> bytes \<Rightarrow> mask \<Rightarrow> client \<Rightarrow> int \<times> bytes \<times> client" where
  "send_scratch header payload mask_key c =
     (let total = length header + length payload;
          scratch = send_buf c @ replicate (total - length (send_buf c)) 0;
          body = masked_over (machine c) (drop (length header) (take total scratch)) payload mask_key;
          scratch' = header @ body @ drop total scratch;
          frame = take total scratch'
      in case native_send frame (c\<lparr>send_buf := scratch'\<rparr>) of
           (written, c') \<Rightarrow> (written, frame, c'))"

text \<open>The slow send: one merged frame through the transport.\<close>

definition send_merged :: "bytes \<Rightarrow> bytes \<Rightarrow> mask \<Rightarrow> client \<Rightarrow> (PyErr + unit) \<times> client" where
  "send_merged header payload mask_key c =
     transport_write_call (build_merged_frame header payload mask_key c) (c\<lparr>buf_known_empty := False\<rparr>)"

definition send_frame :: "u8 \<Rightarrow> bytes \<Rightarrow> client \<Rightarrow> (PyErr + unit) \<times> client" where
  "send_frame opcode payload c =
     (case next_mask_key c of
        (mask_key, c1) \<Rightarrow>
          let header = send_header opcode (deflate c1) (length payload) mask_key
          in if paused c1 then
               (Inr (), c1\<lparr>write_queue := write_queue c1 @ [build_merged_frame header payload mask_key c1]\<rparr>)
             else if raw_fd c1 then
               (case check_drained c1 of
                  (False, c2) \<Rightarrow> send_merged header payload mask_key c2
                | (True, c2) \<Rightarrow>
                    (case send_scratch header payload mask_key c2 of
                       (written, frame, c3) \<Rightarrow>
                         if written = int (length frame) then (Inr (), c3)
                         else if 0 < written then
                           transport_write_call (drop (nat written) frame) (c3\<lparr>buf_known_empty := False\<rparr>)
                         else send_merged header payload mask_key c3))
             else send_merged header payload mask_key c1)"

definition send :: "'z compressor \<Rightarrow> PyMsg \<Rightarrow> client \<Rightarrow> ((PyErr + unit) \<times> client) option" where
  "send cz message c =
     (if closed c then Some (Inl (RuntimeError ''WebSocket is closed''), c)
      else if \<not> handshake_done c then Some (Inl (RuntimeError ''WebSocket handshake not complete''), c)
      else if \<not> transport_write c then Some (Inl (RuntimeError ''No transport''), c)
      else case message_payload message of
        Inl e \<Rightarrow> Some (Inl e, c)
      | Inr (raw_payload, opcode) \<Rightarrow>
          if deflate c then
            map_option (\<lambda>r. case r of Inl e \<Rightarrow> (Inl e, c) | Inr payload \<Rightarrow> send_frame opcode payload c)
              (deflate_message cz raw_payload)
          else Some (send_frame opcode raw_payload c))"

section \<open>Pause and resume\<close>

text \<open>The drain loop: write the queued frames in order, stop at the first failure.\<close>

fun write_all :: "(bytes \<Rightarrow> 's \<Rightarrow> ('e + unit) \<times> 's) \<Rightarrow> bytes list \<Rightarrow> 's \<Rightarrow> ('e + unit) \<times> 's" where
  "write_all write [] s = (Inr (), s)"
| "write_all write (pb # queue) s =
     (case write pb s of
        (Inl e, s') \<Rightarrow> (Inl e, s')
      | (Inr _, s') \<Rightarrow> write_all write queue s')"

definition resume_writing :: "client \<Rightarrow> (PyErr + unit) \<times> client" where
  "resume_writing c =
     (let c = c\<lparr>paused := False, buf_known_empty := False\<rparr> in
      if \<not> transport c then (Inr (), c)
      else write_all transport_write_call (write_queue c) (c\<lparr>write_queue := []\<rparr>))"

section \<open>Control frames on request\<close>

definition send_control :: "u8 \<Rightarrow> string \<Rightarrow> bytes option \<Rightarrow> client \<Rightarrow> (PyErr + unit) \<times> client" where
  "send_control opcode too_long data c =
     (let payload = (case data of None \<Rightarrow> [] | Some d \<Rightarrow> d) in
      if 125 < length payload then (Inl (ValueError too_long), c)
      else if closed c then (Inl (RuntimeError ''WebSocket is closed''), c)
      else if \<not> transport c then (Inl (RuntimeError ''No transport''), c)
      else case encode_control_frame opcode payload c of
        (frame, c') \<Rightarrow> transport_write_call frame c')"

definition ping :: "bytes option \<Rightarrow> client \<Rightarrow> (PyErr + unit) \<times> client" where
  "ping = send_control OP_PING ''ping payload exceeds 125 bytes (WS control-frame limit)''"

definition pong :: "bytes option \<Rightarrow> client \<Rightarrow> (PyErr + unit) \<times> client" where
  "pong = send_control OP_PONG ''pong payload exceeds 125 bytes (WS control-frame limit)''"

section \<open>Opening and closing\<close>

text \<open>The answers of the transport object that \<^verbatim>\<open>connection_made\<close> asks for.\<close>

record transport_info =
  ti_write :: "PyErr + unit"
  ti_get_write_buffer_size :: bool
  ti_ssl_object :: "PyErr + bool"
  ti_socket :: "PyErr + bool"
  ti_fileno :: "PyErr + int option"

definition socket_fd :: "transport_info \<Rightarrow> PyErr + int option" where
  "socket_fd t =
     and_then (ti_ssl_object t) (\<lambda>has_ssl.
       if has_ssl then Inr None
       else and_then (ti_socket t) (\<lambda>has_socket.
         if \<not> has_socket then Inr None
         else and_then (ti_fileno t) (\<lambda>fd. Inr (case fd of Some f \<Rightarrow> if 0 \<le> f then Some f else None | None \<Rightarrow> None))))"

definition connection_made :: "transport_info \<Rightarrow> client \<Rightarrow> (PyErr + unit) \<times> client" where
  "connection_made t c =
     (case and_then (ti_write t) (\<lambda>_. socket_fd t) of
        Inl e \<Rightarrow> (Inl e, c)
      | Inr fd \<Rightarrow>
          (Inr (), c\<lparr>transport := True, transport_write := True,
                     transport_get_buf_size := ti_get_write_buffer_size t, raw_fd := (fd \<noteq> None)\<rparr>))"

definition close_frame :: bytes where
  "close_frame = [0x88, 0x80, 0, 0, 0, 0]"

definition close :: "client \<Rightarrow> client" where
  "close c =
     (let was_closed = closed c;
          had_transport = transport c;
          c = release_references (c\<lparr>closed := True, transport := False\<rparr>)
      in case take_pending c of
           (pending, c) \<Rightarrow>
             let c = fail_pending pending ''Connection closed by client'' c
             in if had_transport then
                  (let c = (if was_closed then c else snd (transport_write_call close_frame c))
                   in transport_close c)
                else c)"

section \<open>What a write does\<close>

lemma send_result_le: "send_result d c \<le> int (length d)"
  by (simp add: send_result_def split: list.split)

text \<open>A write on a live link succeeds, appends to the wire, and touches nothing but the transport
  and the two flags \<^verbatim>\<open>pause_writing\<close> sets.\<close>

lemma transport_write_live:
  assumes "link_up c"
  obtains k t a p where
    "transport_write_call d c = (Inr (), c\<lparr>kernel := k, tbuf := t, accepts := a,
       paused := p \<or> paused c, buf_known_empty := buf_known_empty c \<and> \<not> p\<rparr>)"
    and "k @ t = wire c @ d"
proof -
  define n where "n = send_result d c"
  have n: "native_send d c = (n, c\<lparr>kernel := kernel c @ take (nat n) d, accepts := tl (accepts c)\<rparr>)"
    by (simp add: native_send_def n_def)
  show thesis
  proof (cases "tbuf c = []")
    case True
    define p where "p \<longleftrightarrow> high_water c < length (drop (nat n) d)"
    have "transport_write_call d c = (Inr (), c\<lparr>kernel := kernel c @ take (nat n) d, tbuf := drop (nat n) d,
        accepts := tl (accepts c), paused := p \<or> paused c, buf_known_empty := buf_known_empty c \<and> \<not> p\<rparr>)"
      using assms True
      by (cases p) (simp_all add: transport_write_call_def link_up_def n p_def pause_writing_def Let_def)
    then show thesis by (rule that) (simp add: wire_def True)
  next
    case False
    define p where "p \<longleftrightarrow> high_water c < length (tbuf c @ d)"
    have "transport_write_call d c = (Inr (), c\<lparr>kernel := kernel c, tbuf := tbuf c @ d,
        accepts := accepts c, paused := p \<or> paused c, buf_known_empty := buf_known_empty c \<and> \<not> p\<rparr>)"
      using assms False
      by (cases p) (simp_all add: transport_write_call_def link_up_def p_def pause_writing_def Let_def)
    then show thesis by (rule that) (simp add: wire_def)
  qed
qed

lemma next_mask_key_shape:
  obtains key pool pos where "next_mask_key c = (key, c\<lparr>mask_pool := pool, rng_pos := pos\<rparr>)"
  by (simp add: next_mask_key_def Let_def)

lemma send_header_frame_head:
  "send_header opcode compressed plen key =
     frame_head (0x80 OR opcode OR (if compressed then 0x40 else 0)) 0x80 plen @ mask_list key"
  by (simp add: send_header_def frame_head_def Let_def)

text \<open>The frame \<^verbatim>\<open>send\<close> builds, in either of its two ways.\<close>

definition client_frame :: "u8 \<Rightarrow> bool \<Rightarrow> bytes \<Rightarrow> mask \<Rightarrow> bytes" where
  "client_frame opcode compressed payload key =
     frame_head (0x80 OR opcode OR (if compressed then 0x40 else 0)) 0x80 (length payload) @
     mask_list key @ xor_ref key payload"

lemma build_merged_frame_eq:
  "build_merged_frame (send_header opcode compressed (length payload) key) payload key c =
     client_frame opcode compressed payload key"
  by (simp add: build_merged_frame_def send_header_frame_head client_frame_def masked_over_ref)

lemma send_scratch_eq:
  fixes opcode compressed payload key
  defines "header \<equiv> send_header opcode compressed (length payload) key"
  obtains n sb where "send_scratch header payload key c =
      (n, client_frame opcode compressed payload key,
       c\<lparr>send_buf := sb, kernel := kernel c @ take (nat n) (client_frame opcode compressed payload key),
         accepts := tl (accepts c)\<rparr>)"
    and "n \<le> int (length (client_frame opcode compressed payload key))"
proof -
  define total where "total = length header + length payload"
  define scratch where "scratch = send_buf c @ replicate (total - length (send_buf c)) 0"
  have "length (drop (length header) (take total scratch)) = length payload"
    by (simp add: scratch_def total_def)
  then have body: "masked_over (machine c) (drop (length header) (take total scratch)) payload key
      = xor_ref key payload" by (rule masked_over_ref)
  define scratch' where "scratch' = header @ xor_ref key payload @ drop total scratch"
  have frame: "take total scratch' = client_frame opcode compressed payload key"
    by (simp add: scratch'_def total_def header_def client_frame_def send_header_frame_head)
  define n where "n = send_result (client_frame opcode compressed payload key) (c\<lparr>send_buf := scratch'\<rparr>)"
  have "send_scratch header payload key c =
      (n, client_frame opcode compressed payload key,
       c\<lparr>send_buf := scratch', kernel := kernel c @ take (nat n) (client_frame opcode compressed payload key),
         accepts := tl (accepts c)\<rparr>)"
    unfolding send_scratch_def Let_def total_def [symmetric] scratch_def [symmetric] body
      scratch'_def [symmetric] frame by (simp add: native_send_def n_def)
  then show thesis unfolding n_def by (rule that) (rule send_result_le)
qed

section \<open>The wire\<close>

text \<open>
  The two facts the send path relies on: the cached answer that asyncio's buffer is empty is true,
  and nothing waits in the queue of a transport that is not paused.
\<close>

definition send_inv :: "client \<Rightarrow> bool" where
  "send_inv c \<longleftrightarrow> (closed c \<or> (buf_known_empty c \<longrightarrow> tbuf c = [])) \<and> (paused c \<or> write_queue c = [])"

text \<open>The footprint of sending: the transport, the scratch buffer, the mask pool and the flow-control
  fields.  Everything else of the client is untouched.\<close>

definition send_only :: "client \<Rightarrow> client \<Rightarrow> bool" where
  "send_only c c' \<longleftrightarrow>
     c' = c\<lparr>kernel := kernel c', tbuf := tbuf c', accepts := accepts c', paused := paused c',
            buf_known_empty := buf_known_empty c', mask_pool := mask_pool c', rng_pos := rng_pos c',
            send_buf := send_buf c', write_queue := write_queue c'\<rparr>"

lemma send_only_fields:
  assumes "send_only c c'"
  shows "closed c' = closed c" and "handshake_done c' = handshake_done c" and "transport c' = transport c"
    and "transport_write c' = transport_write c" and "deflate c' = deflate c" and "futures c' = futures c"
    and "write_raises c' = write_raises c" and "tclosed c' = tclosed c"
proof -
  define d where "d = c\<lparr>kernel := kernel c', tbuf := tbuf c', accepts := accepts c', paused := paused c',
            buf_known_empty := buf_known_empty c', mask_pool := mask_pool c', rng_pos := rng_pos c',
            send_buf := send_buf c', write_queue := write_queue c'\<rparr>"
  have "c' = d" using assms by (simp only: send_only_def d_def)
  moreover have "closed d = closed c" "handshake_done d = handshake_done c" "transport d = transport c"
    "transport_write d = transport_write c" "deflate d = deflate c" "futures d = futures c"
    "write_raises d = write_raises c" "tclosed d = tclosed c"
    by (simp_all add: d_def)
  ultimately show "closed c' = closed c" "handshake_done c' = handshake_done c" "transport c' = transport c"
    "transport_write c' = transport_write c" "deflate c' = deflate c" "futures c' = futures c"
    "write_raises c' = write_raises c" "tclosed c' = tclosed c"
    by simp_all
qed

lemma send_only_refl: "send_only c c"
  by (simp add: send_only_def)

lemma send_only_trans:
  assumes "send_only c d" and "send_only d e"
  shows "send_only c e"
proof -
  from assms(1) have "d\<lparr>kernel := kernel e, tbuf := tbuf e, accepts := accepts e, paused := paused e,
      buf_known_empty := buf_known_empty e, mask_pool := mask_pool e, rng_pos := rng_pos e,
      send_buf := send_buf e, write_queue := write_queue e\<rparr> =
    c\<lparr>kernel := kernel e, tbuf := tbuf e, accepts := accepts e, paused := paused e,
      buf_known_empty := buf_known_empty e, mask_pool := mask_pool e, rng_pos := rng_pos e,
      send_buf := send_buf e, write_queue := write_queue e\<rparr>"
    unfolding send_only_def by (rule ssubst) simp
  with assms(2) show ?thesis by (simp only: send_only_def)
qed

text \<open>A control frame or a tail handed to the transport: the cache is invalid before the write.\<close>

lemma write_after_invalidate:
  assumes "link_up c" and "\<not> buf_known_empty c" and "paused c \<or> write_queue c = []"
  shows "\<exists>c'. transport_write_call d c = (Inr (), c') \<and> wire c' = wire c @ d \<and> send_inv c' \<and> link_up c' \<and>
    write_queue c' = write_queue c \<and> send_only c c' \<and> \<not> buf_known_empty c'"
proof -
  obtain k t a p where w: "transport_write_call d c = (Inr (), c\<lparr>kernel := k, tbuf := t, accepts := a,
       paused := p \<or> paused c, buf_known_empty := buf_known_empty c \<and> \<not> p\<rparr>)" "k @ t = wire c @ d"
    by (rule transport_write_live [OF assms(1)])
  define c' where "c' = c\<lparr>kernel := k, tbuf := t, accepts := a,
       paused := p \<or> paused c, buf_known_empty := buf_known_empty c \<and> \<not> p\<rparr>"
  have "send_only c c'" by (simp add: send_only_def c'_def)
  moreover have "wire c' = wire c @ d" "write_queue c' = write_queue c" "\<not> buf_known_empty c'" "link_up c'"
    using w(2) assms(1,2) by (simp_all add: c'_def wire_def link_up_def)
  moreover have "send_inv c'"
    using assms(2,3) by (auto simp: c'_def send_inv_def)
  ultimately show ?thesis using w(1) unfolding c'_def [symmetric] by blast
qed

lemma check_drained_shape:
  obtains b where "check_drained c = (b, c\<lparr>buf_known_empty := buf_known_empty c \<or> b\<rparr>)"
    and "send_inv c \<and> \<not> closed c \<and> b \<longrightarrow> tbuf c = []"
proof -
  define b where "b \<longleftrightarrow> buf_known_empty c \<or> transport_get_buf_size c \<and> tbuf c = []"
  have "check_drained c = (b, c\<lparr>buf_known_empty := buf_known_empty c \<or> b\<rparr>)"
    by (cases "buf_known_empty c"; cases "transport_get_buf_size c \<and> tbuf c = []")
      (simp_all add: check_drained_def b_def)
  then show thesis by (rule that) (auto simp: b_def send_inv_def)
qed

text \<open>
  What \<open>send_frame\<close> owes its caller: with the transport paused the frame joins the queue, otherwise
  it goes to the end of the wire, in one piece, whatever the socket accepted.
\<close>

definition frame_sent :: "bytes \<Rightarrow> client \<Rightarrow> client \<Rightarrow> bool" where
  "frame_sent frame c c' \<longleftrightarrow>
     send_inv c' \<and> link_up c' \<and> send_only c c' \<and>
     (if paused c then wire c' = wire c \<and> write_queue c' = write_queue c @ [frame]
      else wire c' = wire c @ frame \<and> write_queue c' = [])"

lemma frame_sent_from:
  "frame_sent frame d c' \<Longrightarrow> send_only c d \<Longrightarrow> paused d = paused c \<Longrightarrow> wire d = wire c \<Longrightarrow>
   write_queue d = write_queue c \<Longrightarrow> frame_sent frame c c'"
  by (auto simp: frame_sent_def intro: send_only_trans)

lemma send_merged_sent:
  assumes "link_up c" and "send_inv c" and "\<not> paused c"
    and "build_merged_frame header payload key c = frame"
  shows "\<exists>c'. send_merged header payload key c = (Inr (), c') \<and> frame_sent frame c c'"
proof -
  let ?c = "c\<lparr>buf_known_empty := False\<rparr>"
  have pre: "link_up ?c" "\<not> buf_known_empty ?c" "paused ?c \<or> write_queue ?c = []"
    using assms(1-3) by (simp_all add: link_up_def send_inv_def)
  from write_after_invalidate [OF pre, of frame] obtain c' where
    "transport_write_call frame ?c = (Inr (), c')" "wire c' = wire ?c @ frame" "send_inv c'" "link_up c'"
    "write_queue c' = write_queue ?c" "send_only ?c c'" by blast
  moreover have "send_only c ?c" by (simp add: send_only_def)
  ultimately show ?thesis
    using assms(2-4) send_only_trans [of c ?c c']
    by (simp add: send_merged_def frame_sent_def wire_def send_inv_def)
qed

lemma send_native_sent:
  fixes opcode compressed payload key
  defines "header \<equiv> send_header opcode compressed (length payload) key"
    and "frame \<equiv> client_frame opcode compressed payload key"
  assumes up: "link_up c" and inv: "send_inv c" "\<not> closed c" "\<not> paused c" "tbuf c = []"
    and sc: "send_scratch header payload key c = (written, fr, c3)"
  shows "\<exists>c'. (if written = int (length fr) then (Inr (), c3)
      else if 0 < written then
        transport_write_call (drop (nat written) fr) (c3\<lparr>buf_known_empty := False\<rparr>)
      else send_merged header payload key c3) = (Inr (), c') \<and> frame_sent frame c c'"
proof -
  obtain n sb where n: "send_scratch header payload key c = (n, frame, c\<lparr>send_buf := sb,
      kernel := kernel c @ take (nat n) frame, accepts := tl (accepts c)\<rparr>)" "n \<le> int (length frame)"
    unfolding header_def frame_def by (rule send_scratch_eq)
  have fr: "written = n" "fr = frame" and c3: "c3 = c\<lparr>send_buf := sb,
      kernel := kernel c @ take (nat n) frame, accepts := tl (accepts c)\<rparr>"
    using trans [OF n(1) [symmetric] sc] by auto
  have only: "send_only c c3" by (simp add: c3 send_only_def)
  consider "n = int (length frame)" | "0 < n" "n \<noteq> int (length frame)" | "n \<le> 0" "n \<noteq> int (length frame)"
    by linarith
  then show ?thesis
  proof cases
    case 1
    then show ?thesis
      using up inv only by (simp add: fr c3 frame_sent_def send_inv_def link_up_def wire_def)
  next
    case 2
    let ?c = "c3\<lparr>buf_known_empty := False\<rparr>"
    have pre: "link_up ?c" "\<not> buf_known_empty ?c" "paused ?c \<or> write_queue ?c = []"
      using up inv by (simp_all add: c3 link_up_def send_inv_def)
    from write_after_invalidate [OF pre, of "drop (nat n) frame"] obtain c' where
      "transport_write_call (drop (nat n) frame) ?c = (Inr (), c')" "wire c' = wire ?c @ drop (nat n) frame"
      "send_inv c'" "link_up c'" "write_queue c' = write_queue ?c" "send_only ?c c'" by blast
    moreover have "send_only c ?c" by (simp add: c3 send_only_def)
    ultimately show ?thesis
      using 2 inv send_only_trans [of c ?c c'] by (simp add: fr c3 frame_sent_def wire_def send_inv_def)
  next
    case 3
    have "build_merged_frame header payload key c3 = frame"
      unfolding header_def frame_def by (rule build_merged_frame_eq)
    moreover have "link_up c3" "send_inv c3" "\<not> paused c3" and same: "wire c3 = wire c" "paused c3 = paused c"
      "write_queue c3 = write_queue c"
      using up inv 3 by (simp_all add: c3 link_up_def send_inv_def wire_def)
    ultimately obtain c' where "send_merged header payload key c3 = (Inr (), c')" "frame_sent frame c3 c'"
      using send_merged_sent by blast
    with frame_sent_from [OF this(2) only same(2,1,3)] 3 show ?thesis by (simp add: fr)
  qed
qed

lemma send_frame_sent:
  assumes up: "link_up c" and inv: "send_inv c" "\<not> closed c"
  shows "\<exists>c'. send_frame opcode payload c = (Inr (), c') \<and>
    frame_sent (client_frame opcode (deflate c) payload (fst (next_mask_key c))) c c'"
proof -
  obtain key pool pos where key: "next_mask_key c = (key, c\<lparr>mask_pool := pool, rng_pos := pos\<rparr>)"
    by (rule next_mask_key_shape)
  define c1 where "c1 = c\<lparr>mask_pool := pool, rng_pos := pos\<rparr>"
  note key = key [folded c1_def]
  define frame where "frame = client_frame opcode (deflate c) payload key"
  define header where "header = send_header opcode (deflate c) (length payload) key"
  have c1: "link_up c1" "send_inv c1" "\<not> closed c1" "deflate c1 = deflate c" "paused c1 = paused c"
    "wire c1 = wire c" "write_queue c1 = write_queue c" "send_only c c1"
    using up inv by (simp_all add: c1_def link_up_def send_inv_def wire_def send_only_def)
  have sent: "frame_sent frame c1 c' \<Longrightarrow> frame_sent frame c c'" for c'
    by (elim frame_sent_from) (rule c1)+
  have merged: "build_merged_frame header payload key d = frame" for d
    unfolding header_def frame_def by (rule build_merged_frame_eq)
  consider "paused c1" | "\<not> paused c1" "\<not> raw_fd c1" | "\<not> paused c1" "raw_fd c1" by blast
  then have "\<exists>c'. send_frame opcode payload c = (Inr (), c') \<and> frame_sent frame c1 c'"
  proof cases
    case 1
    have "frame_sent frame c1 (c1\<lparr>write_queue := write_queue c1 @ [frame]\<rparr>)"
      using 1 c1(1-3) by (simp add: frame_sent_def send_inv_def link_up_def wire_def send_only_def)
    then show ?thesis
      using 1 merged by (simp add: send_frame_def key Let_def c1(4) header_def [symmetric])
  next
    case 2
    then show ?thesis
      using send_merged_sent [OF c1(1,2) 2(1) merged]
      by (simp add: send_frame_def key Let_def c1(4) header_def [symmetric])
  next
    case 3
    obtain b where b: "check_drained c1 = (b, c1\<lparr>buf_known_empty := buf_known_empty c1 \<or> b\<rparr>)"
      "send_inv c1 \<and> \<not> closed c1 \<and> b \<longrightarrow> tbuf c1 = []"
      by (rule check_drained_shape)
    define c2 where "c2 = c1\<lparr>buf_known_empty := buf_known_empty c1 \<or> b\<rparr>"
    have cd: "check_drained c1 = (b, c2)" using b(1) by (simp only: c2_def)
    have same: "send_only c1 c2" "paused c2 = paused c1" "wire c2 = wire c1"
      "write_queue c2 = write_queue c1" "tbuf c2 = tbuf c1" "closed c2 = closed c1"
      by (simp_all add: c2_def wire_def send_only_def)
    have up2: "link_up c2" using c1(1) by (simp add: c2_def link_up_def)
    have empty: "tbuf c2 = []" if b using b(2) c1(2,3) that same by simp
    have inv2: "send_inv c2"
      using c1(2,3) empty by (cases b) (simp_all add: send_inv_def c2_def)
    have np: "\<not> closed c2" "\<not> paused c2" using c1(3) 3(1) same by simp_all
    show ?thesis
    proof (cases b)
      case False
      from send_merged_sent [OF up2 inv2 np(2) merged] obtain c' where
        "send_merged header payload key c2 = (Inr (), c')" "frame_sent frame c2 c'" by blast
      with frame_sent_from [OF this(2) same(1-4)] show ?thesis
        using False 3 cd by (simp add: send_frame_def key Let_def c1(4) header_def [symmetric])
    next
      case True
      obtain written fr c3 where sc: "send_scratch header payload key c2 = (written, fr, c3)"
        by (cases "send_scratch header payload key c2")
      from send_native_sent [OF up2 inv2 np empty [OF True] sc [unfolded header_def]] obtain c' where
        c': "(if written = int (length fr) then (Inr (), c3)
          else if 0 < written then
            transport_write_call (drop (nat written) fr) (c3\<lparr>buf_known_empty := False\<rparr>)
          else send_merged header payload key c3) = (Inr (), c')" "frame_sent frame c2 c'"
        unfolding header_def frame_def by blast
      have "send_frame opcode payload c = (Inr (), c')"
        using True 3 cd sc c'(1) by (simp only: send_frame_def key Let_def c1(4) header_def [symmetric]
            prod.case if_False if_True bool.case)
      with frame_sent_from [OF c'(2) same(1-4)] show ?thesis by blast
    qed
  qed
  then show ?thesis using sent by (auto simp: key frame_def)
qed

section \<open>Contract of a byte sink\<close>

text \<open>What a client needs of the thing it writes to: while the link is live a write succeeds,
  appends its bytes and keeps the link live.\<close>

locale byte_sink =
  fixes put :: "bytes \<Rightarrow> 's \<Rightarrow> ('e + unit) \<times> 's"
    and sent :: "'s \<Rightarrow> bytes"
    and live :: "'s \<Rightarrow> bool"
  assumes write_appends: "live s \<Longrightarrow> \<exists>s'. put d s = (Inr (), s') \<and> sent s' = sent s @ d \<and> live s'"
begin

lemma write_all_appends:
  "live s \<Longrightarrow> \<exists>s'. write_all put ds s = (Inr (), s') \<and> sent s' = sent s @ concat ds \<and> live s'"
proof (induction ds arbitrary: s)
  case Nil
  then show ?case by simp
next
  case (Cons d ds)
  from write_appends [OF Cons.prems, of d] obtain s1 where
    s1: "put d s = (Inr (), s1)" "sent s1 = sent s @ d" "live s1" by blast
  from Cons.IH [OF s1(3)] s1 show ?case by auto
qed

lemma write_all_append:
  assumes "live s" and "write_all put xs s = (Inr (), s1)"
  shows "write_all put (xs @ ys) s = write_all put ys s1"
  using assms
proof (induction xs arbitrary: s)
  case Nil
  then show ?case by simp
next
  case (Cons d xs)
  from write_appends [OF Cons.prems(1), of d] obtain s2 where "put d s = (Inr (), s2)" "live s2" by blast
  with Cons show ?case by auto
qed

end

interpretation asyncio: byte_sink transport_write_call wire link_up
proof
  fix c d
  assume up: "link_up c"
  obtain k t a p where "transport_write_call d c = (Inr (), c\<lparr>kernel := k, tbuf := t, accepts := a,
       paused := p \<or> paused c, buf_known_empty := buf_known_empty c \<and> \<not> p\<rparr>)" "k @ t = wire c @ d"
    by (rule transport_write_live [OF up])
  then show "\<exists>c'. transport_write_call d c = (Inr (), c') \<and> wire c' = wire c @ d \<and> link_up c'"
    using up by (simp add: wire_def link_up_def)
qed

section \<open>The peer's reading\<close>

text \<open>How RFC 6455 has a server read one masked frame off the wire.\<close>

definition read_masked_frame :: "bytes \<Rightarrow> ((bool \<times> bool \<times> u8 \<times> bytes) \<times> bytes) option" where
  "read_masked_frame s =
     (case parse_header s of
        None \<Rightarrow> None
      | Some (fin, rsv1, opcode, plen, hdr) \<Rightarrow>
          if length s < hdr + 4 + plen then None
          else Some ((fin, rsv1, opcode,
                      xor_ref (s ! hdr, s ! (hdr + 1), s ! (hdr + 2), s ! (hdr + 3))
                        (take plen (drop (hdr + 4) s))), drop (hdr + 4 + plen) s))"

lemma read_masked_frame_head:
  assumes "length payload < 2 ^ 64"
  shows "read_masked_frame (frame_head b0 0x80 (length payload) @ mask_list key @ xor_ref key payload @ rest) =
    Some ((b0 AND 0x80 \<noteq> 0, b0 AND 0x40 \<noteq> 0, b0 AND 0x0F, payload), rest)"
proof -
  obtain k0 k1 k2 k3 where key: "key = (k0, k1, k2, k3)" by (cases key)
  let ?h = "frame_head b0 0x80 (length payload)"
  define s where "s = ?h @ mask_list key @ xor_ref key payload @ rest"
  have ph: "parse_header s = Some (b0 AND 0x80 \<noteq> 0, b0 AND 0x40 \<noteq> 0, b0 AND 0x0F, length payload, length ?h)"
    unfolding s_def using assms by (intro parse_header_frame_head) simp_all
  have "s ! length ?h = k0" "s ! (length ?h + 1) = k1" "s ! (length ?h + 2) = k2" "s ! (length ?h + 3) = k3"
    by (simp_all add: s_def key nth_append)
  moreover have d4: "drop (length ?h + 4) s = xor_ref key payload @ rest" by (simp add: s_def key)
  moreover have "drop (length payload) (drop (length ?h + 4) s) = rest" unfolding d4 by simp
  then have "drop (length ?h + 4 + length payload) s = rest"
    by (simp only: drop_drop add.commute [of "length payload"])
  moreover have "length s = length ?h + 4 + length payload + length rest" by (simp add: s_def key)
  ultimately show ?thesis
    unfolding s_def [symmetric] by (simp add: read_masked_frame_def ph key)
qed

lemma opcode_bits:
  assumes "opcode = 0x1 \<or> opcode = 0x2 \<or> opcode = 0x8 \<or> opcode = 0x9 \<or> opcode = (0xA :: u8)"
  shows "(0x80 OR opcode OR (if z then 0x40 else 0)) AND 0x80 \<noteq> 0"
    and "((0x80 OR opcode OR (if z then 0x40 else 0)) AND 0x40 \<noteq> 0) = z"
    and "(0x80 OR opcode OR (if z then 0x40 else 0)) AND 0x0F = opcode"
  using assms by auto

lemma read_client_frame:
  assumes "opcode = 0x1 \<or> opcode = 0x2" and "length payload < 2 ^ 64"
  shows "read_masked_frame (client_frame opcode compressed payload key @ rest) =
    Some ((True, compressed, opcode, payload), rest)"
proof -
  have op: "opcode = 0x1 \<or> opcode = 0x2 \<or> opcode = 0x8 \<or> opcode = 0x9 \<or> opcode = 0xA" using assms(1) by blast
  show ?thesis
    using read_masked_frame_head [OF assms(2), of "0x80 OR opcode OR (if compressed then 0x40 else 0)" key rest]
    unfolding client_frame_def append_assoc by (simp add: opcode_bits [OF op])
qed

section \<open>Control frames\<close>

lemma encode_control_frame_shape:
  obtains key pool pos where "encode_control_frame opcode payload c =
      (frame_head (0x80 OR opcode) 0x80 (length (take 125 payload)) @ mask_list key @
         xor_ref key (take 125 payload), c\<lparr>buf_known_empty := False, mask_pool := pool, rng_pos := pos\<rparr>)"
proof -
  obtain key pool pos where key: "next_mask_key (c\<lparr>buf_known_empty := False\<rparr>) =
      (key, c\<lparr>buf_known_empty := False, mask_pool := pool, rng_pos := pos\<rparr>)"
    by (rule next_mask_key_shape)
  have p: "take (min (length payload) 125) payload = take 125 payload" by (simp add: min_def)
  have "encode_control_frame opcode payload c =
      (frame_head (0x80 OR opcode) 0x80 (length (take 125 payload)) @ mask_list key @
         xor_ref key (take 125 payload), c\<lparr>buf_known_empty := False, mask_pool := pool, rng_pos := pos\<rparr>)"
    unfolding encode_control_frame_def p encode_control_into_def key
    by (simp add: masked_over_ref frame_head_def)
  then show thesis by (rule that)
qed

definition control_frame :: "u8 \<Rightarrow> bytes \<Rightarrow> mask \<Rightarrow> bytes" where
  "control_frame opcode payload key =
     frame_head (0x80 OR opcode) 0x80 (length (take 125 payload)) @ mask_list key @ xor_ref key (take 125 payload)"

lemma read_control_frame:
  assumes "opcode = OP_CLOSE \<or> opcode = OP_PING \<or> opcode = OP_PONG"
  shows "read_masked_frame (control_frame opcode payload key @ rest) =
    Some ((True, False, opcode, take 125 payload), rest)"
proof -
  have op: "opcode = 0x1 \<or> opcode = 0x2 \<or> opcode = 0x8 \<or> opcode = 0x9 \<or> opcode = 0xA"
    using assms by (auto simp: opcode_defs)
  have "length (take 125 payload) < 2 ^ 64" by simp
  from read_masked_frame_head [OF this, of "0x80 OR opcode OR (if False then 0x40 else 0)" key rest]
  show ?thesis
    unfolding control_frame_def append_assoc opcode_bits [OF op] by simp
qed

text \<open>Queued frames count as sent: they follow everything on the wire.\<close>

definition outgoing :: "client \<Rightarrow> bytes" where
  "outgoing c = wire c @ concat (write_queue c)"

lemma frame_sent_outgoing:
  "frame_sent frame c c' \<Longrightarrow> send_inv c \<Longrightarrow> outgoing c' = outgoing c @ frame"
  by (auto simp: frame_sent_def outgoing_def send_inv_def split: if_splits)

lemma send_control_sent:
  assumes "link_up c" and "send_inv c" and "\<not> closed c" and "transport c"
    and "length (case data of None \<Rightarrow> [] | Some d \<Rightarrow> d) \<le> 125"
  shows "\<exists>c' key. send_control opcode msg data c = (Inr (), c') \<and>
    wire c' = wire c @ control_frame opcode (case data of None \<Rightarrow> [] | Some d \<Rightarrow> d) key \<and>
    write_queue c' = write_queue c \<and> send_inv c' \<and> link_up c' \<and> send_only c c'"
proof -
  define payload where "payload = (case data of None \<Rightarrow> [] | Some d \<Rightarrow> d)"
  obtain key pool pos where enc: "encode_control_frame opcode payload c =
      (control_frame opcode payload key, c\<lparr>buf_known_empty := False, mask_pool := pool, rng_pos := pos\<rparr>)"
    unfolding control_frame_def by (rule encode_control_frame_shape)
  let ?c = "c\<lparr>buf_known_empty := False, mask_pool := pool, rng_pos := pos\<rparr>"
  have pre: "link_up ?c" "\<not> buf_known_empty ?c" "paused ?c \<or> write_queue ?c = []"
    using assms(1,2) by (simp_all add: link_up_def send_inv_def)
  from write_after_invalidate [OF pre, of "control_frame opcode payload key"] obtain c' where
    "transport_write_call (control_frame opcode payload key) ?c = (Inr (), c')"
    "wire c' = wire ?c @ control_frame opcode payload key" "send_inv c'" "link_up c'"
    "write_queue c' = write_queue ?c" "send_only ?c c'" by blast
  moreover have "send_only c ?c" by (simp add: send_only_def)
  ultimately have "send_control opcode msg data c = (Inr (), c') \<and>
    wire c' = wire c @ control_frame opcode payload key \<and>
    write_queue c' = write_queue c \<and> send_inv c' \<and> link_up c' \<and> send_only c c'"
    using assms(3-5) send_only_trans [of c ?c c'] by (simp add: send_control_def payload_def [symmetric] Let_def enc wire_def)
  then show ?thesis unfolding payload_def by blast
qed

lemma write_all_sent:
  assumes "link_up c" and "\<not> buf_known_empty c" and "write_queue c = []"
  shows "\<exists>c'. write_all transport_write_call ds c = (Inr (), c') \<and> wire c' = wire c @ concat ds \<and>
    send_inv c' \<and> link_up c' \<and> write_queue c' = [] \<and> send_only c c'"
  using assms
proof (induction ds arbitrary: c)
  case Nil
  then show ?case by (simp add: send_inv_def send_only_refl)
next
  case (Cons d ds)
  from write_after_invalidate [OF Cons.prems(1,2) disjI2 [OF Cons.prems(3)], of d] obtain c1 where
    c1: "transport_write_call d c = (Inr (), c1)" "wire c1 = wire c @ d" "link_up c1"
      "write_queue c1 = write_queue c" "send_only c c1" "\<not> buf_known_empty c1" by blast
  from Cons.IH [OF c1(3,6)] c1(4) Cons.prems(3) obtain c2 where
    "write_all transport_write_call ds c1 = (Inr (), c2)" "wire c2 = wire c1 @ concat ds"
    "send_inv c2" "link_up c2" "write_queue c2 = []" "send_only c1 c2" by auto
  with c1 send_only_trans [of c c1 c2] show ?case by simp
qed

lemma resume_writing_sent:
  assumes "link_up c" and "transport c"
  shows "\<exists>c'. resume_writing c = (Inr (), c') \<and> wire c' = wire c @ concat (write_queue c) \<and>
    write_queue c' = [] \<and> send_inv c' \<and> link_up c' \<and> send_only c c'"
proof -
  let ?c = "c\<lparr>paused := False, buf_known_empty := False, write_queue := []\<rparr>"
  have "link_up ?c" "\<not> buf_known_empty ?c" "write_queue ?c = []"
    using assms(1) by (simp_all add: link_up_def)
  from write_all_sent [OF this, of "write_queue c"] obtain c' where
    "write_all transport_write_call (write_queue c) ?c = (Inr (), c')"
    "wire c' = wire ?c @ concat (write_queue c)" "send_inv c'" "link_up c'" "write_queue c' = []"
    "send_only ?c c'" by blast
  moreover have "send_only c ?c" by (simp add: send_only_def)
  ultimately show ?thesis
    using assms(2) send_only_trans [of c ?c c'] by (simp add: resume_writing_def wire_def)
qed

section \<open>Sequences of messages\<close>

fun send_all :: "'z compressor \<Rightarrow> PyMsg list \<Rightarrow> client \<Rightarrow> ((PyErr + unit) \<times> client) option" where
  "send_all cz [] c = Some (Inr (), c)"
| "send_all cz (m # ms) c =
     Option.bind (send cz m c) (\<lambda>(r, c'). case r of
        Inl e \<Rightarrow> Some (Inl e, c')
      | Inr _ \<Rightarrow> send_all cz ms c')"

fun read_masked_frames :: "nat \<Rightarrow> bytes \<Rightarrow> ((bool \<times> bool \<times> u8 \<times> bytes) list \<times> bytes) option" where
  "read_masked_frames 0 s = Some ([], s)"
| "read_masked_frames (Suc n) s =
     Option.bind (read_masked_frame s) (\<lambda>(f, s').
       map_option (\<lambda>(fs, rest). (f # fs, rest)) (read_masked_frames n s'))"

text \<open>Ready to send: open, handshaken, with a live transport.\<close>

definition can_send :: "client \<Rightarrow> bool" where
  "can_send c \<longleftrightarrow> \<not> closed c \<and> handshake_done c \<and> transport_write c \<and> link_up c \<and> send_inv c"

definition sendable :: "PyMsg \<Rightarrow> bool" where
  "sendable m \<longleftrightarrow> (case message_payload m of Inl _ \<Rightarrow> False | Inr (raw, _) \<Rightarrow> length raw < 2 ^ 64)"

lemma sendable_payload:
  assumes "sendable m"
  obtains raw opcode where "message_payload m = Inr (raw, opcode)" and "opcode = 0x1 \<or> opcode = 0x2"
    and "length raw < 2 ^ 64"
  using assms by (cases m) (auto simp: sendable_def message_payload_def split: if_splits)

lemma send_uncompressed:
  assumes "can_send c" and "\<not> deflate c" and "message_payload m = Inr (raw, opcode)"
  shows "\<exists>c'. send cz m c = Some (Inr (), c') \<and> can_send c' \<and> \<not> deflate c' \<and>
    frame_sent (client_frame opcode False raw (fst (next_mask_key c))) c c'"
proof -
  have pre: "link_up c" "send_inv c" "\<not> closed c" using assms(1) by (simp_all add: can_send_def)
  from send_frame_sent [OF pre, of opcode raw] assms(2) obtain c' where
    c': "send_frame opcode raw c = (Inr (), c')"
      "frame_sent (client_frame opcode False raw (fst (next_mask_key c))) c c'" by auto
  have only: "send_only c c'" using c'(2) by (simp add: frame_sent_def)
  have "can_send c'" "\<not> deflate c'"
    using assms(1,2) c'(2) by (simp_all add: can_send_def send_only_fields [OF only] frame_sent_def)
  moreover have "send cz m c = Some (Inr (), c')"
    using assms c'(1) by (simp add: send_def can_send_def)
  ultimately show ?thesis using c'(2) by blast
qed

lemma send_all_read_back:
  assumes "can_send c" and "\<not> deflate c" and "list_all sendable ms"
  shows "\<exists>c' out. send_all cz ms c = Some (Inr (), c') \<and> can_send c' \<and> outgoing c' = outgoing c @ out \<and>
    (\<forall>rest. read_masked_frames (length ms) (out @ rest) =
       Some (map (\<lambda>m. case message_payload m of Inr (raw, opcode) \<Rightarrow> (True, False, opcode, raw)) ms, rest))"
  using assms
proof (induction ms arbitrary: c)
  case Nil
  then show ?case by simp
next
  case (Cons m ms)
  obtain raw opcode where m: "message_payload m = Inr (raw, opcode)" "opcode = 0x1 \<or> opcode = 0x2"
    "length raw < 2 ^ 64"
    using Cons.prems(3) by (auto elim: sendable_payload)
  define frame where "frame = client_frame opcode False raw (fst (next_mask_key c))"
  from send_uncompressed [OF Cons.prems(1,2) m(1), of cz] obtain c1 where
    c1: "send cz m c = Some (Inr (), c1)" "can_send c1" "\<not> deflate c1" "frame_sent frame c c1"
    unfolding frame_def by blast
  have out1: "outgoing c1 = outgoing c @ frame"
    using frame_sent_outgoing [OF c1(4)] Cons.prems(1) by (simp add: can_send_def)
  from Cons.IH [OF c1(2,3)] Cons.prems(3) obtain c2 out where
    c2: "send_all cz ms c1 = Some (Inr (), c2)" "can_send c2" "outgoing c2 = outgoing c1 @ out"
      "\<And>rest. read_masked_frames (length ms) (out @ rest) =
         Some (map (\<lambda>m. case message_payload m of Inr (raw, opcode) \<Rightarrow> (True, False, opcode, raw)) ms, rest)"
    by auto
  have "read_masked_frame (frame @ out @ rest) = Some ((True, False, opcode, raw), out @ rest)" for rest
    unfolding frame_def by (rule read_client_frame [OF m(2,3)])
  then have "\<forall>rest. read_masked_frames (length (m # ms)) ((frame @ out) @ rest) =
      Some (map (\<lambda>m. case message_payload m of Inr (raw, opcode) \<Rightarrow> (True, False, opcode, raw)) (m # ms), rest)"
    using c2(4) m(1) by simp
  moreover have "send_all cz (m # ms) c = Some (Inr (), c2)" using c1(1) c2(1) by simp
  moreover have "outgoing c2 = outgoing c @ frame @ out" using out1 c2(3) by simp
  ultimately show ?case using c2(2) by blast
qed

section \<open>Closing\<close>

lemma close_shape:
  "close c = (let c1 = c\<lparr>closed := True, transport := False, transport_write := False,
        transport_get_buf_size := False, raw_fd := False, loop_ref := False, on_message := False,
        create_future := False, wait_for := False, write_queue := [], pending_callback_msgs := [],
        pending_recv := [], unprobeable_recv := [], handshake_fut := None, pending_pings := None,
        futures := fail_all (pending_futures c) (PyConnectionError ''Connection closed by client'') (futures c)\<rparr>
     in if transport c then
          (if closed c then c1 else snd (transport_write_call close_frame c1))\<lparr>tclosed := True\<rparr>
        else c1)"
proof -
  have "pending_futures (release_references (c\<lparr>closed := True, transport := False\<rparr>)) = pending_futures c"
    by (simp add: pending_futures_def release_references_def)
  then show ?thesis
    by (simp add: close_def take_pending_def fail_pending_heap Let_def transport_close_def
        release_references_def)
qed

lemma transport_write_only:
  obtains k t a p b where "snd (transport_write_call d c) = c\<lparr>kernel := k, tbuf := t, accepts := a,
     paused := p, buf_known_empty := b\<rparr>"
proof (cases "link_up c")
  case True
  obtain k t a p where "transport_write_call d c = (Inr (), c\<lparr>kernel := k, tbuf := t, accepts := a,
       paused := p \<or> paused c, buf_known_empty := buf_known_empty c \<and> \<not> p\<rparr>)"
    by (rule transport_write_live [OF True])
  then show thesis by (intro that) simp
next
  case False
  then have "snd (transport_write_call d c) = c"
    by (auto simp: transport_write_call_def link_up_def split: option.split)
  then have "snd (transport_write_call d c) = c\<lparr>kernel := kernel c, tbuf := tbuf c, accepts := accepts c,
     paused := paused c, buf_known_empty := buf_known_empty c\<rparr>" by simp
  then show thesis by (rule that)
qed

lemma close_torn_down:
  "closed (close c) \<and> \<not> transport (close c) \<and> \<not> transport_write (close c) \<and> \<not> on_message (close c) \<and>
   pending_futures (close c) = [] \<and> write_queue (close c) = [] \<and> pending_callback_msgs (close c) = [] \<and>
   backlog (close c) = backlog c \<and> (transport c \<longrightarrow> tclosed (close c)) \<and>
   futures (close c) = fail_all (pending_futures c) (PyConnectionError ''Connection closed by client'') (futures c)"
proof -
  define c1 where "c1 = c\<lparr>closed := True, transport := False, transport_write := False,
        transport_get_buf_size := False, raw_fd := False, loop_ref := False, on_message := False,
        create_future := False, wait_for := False, write_queue := [], pending_callback_msgs := [],
        pending_recv := [], unprobeable_recv := [], handshake_fut := None, pending_pings := None,
        futures := fail_all (pending_futures c) (PyConnectionError ''Connection closed by client'') (futures c)\<rparr>"
  obtain k t a p b where w: "snd (transport_write_call close_frame c1) = c1\<lparr>kernel := k, tbuf := t,
      accepts := a, paused := p, buf_known_empty := b\<rparr>"
    by (rule transport_write_only)
  have close: "close c = (if transport c then
      (if closed c then c1 else c1\<lparr>kernel := k, tbuf := t, accepts := a, paused := p, buf_known_empty := b\<rparr>)
        \<lparr>tclosed := True\<rparr> else c1)"
    unfolding close_shape Let_def c1_def [symmetric] w ..
  show ?thesis
    unfolding close by (cases "transport c"; cases "closed c") (simp_all add: c1_def pending_futures_def)
qed

lemma close_wire:
  assumes "link_up c" and "transport c" and "\<not> closed c"
  shows "wire (close c) = wire c @ close_frame"
proof -
  define c1 where "c1 = c\<lparr>closed := True, transport := False, transport_write := False,
        transport_get_buf_size := False, raw_fd := False, loop_ref := False, on_message := False,
        create_future := False, wait_for := False, write_queue := [], pending_callback_msgs := [],
        pending_recv := [], unprobeable_recv := [], handshake_fut := None, pending_pings := None,
        futures := fail_all (pending_futures c) (PyConnectionError ''Connection closed by client'') (futures c)\<rparr>"
  have "link_up c1" using assms(1) by (simp add: c1_def link_up_def)
  from asyncio.write_appends [OF this, of close_frame] obtain c' where
    "transport_write_call close_frame c1 = (Inr (), c')" "wire c' = wire c1 @ close_frame"
    by blast
  then show ?thesis
    using assms(2,3) unfolding close_shape Let_def c1_def [symmetric] by (simp add: wire_def c1_def)
qed

lemma read_close_frame: "read_masked_frame (close_frame @ rest) = Some ((True, False, OP_CLOSE, []), rest)"
proof -
  have "close_frame = control_frame OP_CLOSE [] (0, 0, 0, 0)"
    by (simp add: close_frame_def control_frame_def frame_head_def OP_CLOSE_def)
  with read_control_frame [of OP_CLOSE "[]" "(0, 0, 0, 0)" rest] show ?thesis by simp
qed

lemma close_twice: "close (close c) = close c"
proof -
  define c1 where "c1 = c\<lparr>closed := True, transport := False, transport_write := False,
        transport_get_buf_size := False, raw_fd := False, loop_ref := False, on_message := False,
        create_future := False, wait_for := False, write_queue := [], pending_callback_msgs := [],
        pending_recv := [], unprobeable_recv := [], handshake_fut := None, pending_pings := None,
        futures := fail_all (pending_futures c) (PyConnectionError ''Connection closed by client'') (futures c)\<rparr>"
  obtain k t a p b where w: "snd (transport_write_call close_frame c1) = c1\<lparr>kernel := k, tbuf := t,
      accepts := a, paused := p, buf_known_empty := b\<rparr>"
    by (rule transport_write_only)
  have close: "close c = (if transport c then
      (if closed c then c1 else c1\<lparr>kernel := k, tbuf := t, accepts := a, paused := p, buf_known_empty := b\<rparr>)
        \<lparr>tclosed := True\<rparr> else c1)"
    unfolding close_shape Let_def c1_def [symmetric] w ..
  have nil: "fail_all [] e h = h" for e h by (simp add: fail_all_def)
  have pend: "pending_futures (close c) = []" using close_torn_down by blast
  show ?thesis
    unfolding close_shape [of "close c"] Let_def pend nil
    unfolding close by (cases "transport c"; cases "closed c") (simp_all add: c1_def)
qed

section \<open>Properties\<close>

text \<open>C8 What is sent can be read: any sequence of text and binary messages goes out, through the socket,
  the transport's buffer or the queue of a paused transport and however little the socket accepts,
  as bytes a server reads back as exactly these messages in this order.\<close>

theorem sent_messages_read_back:
  assumes "can_send c" and "\<not> deflate c" and "list_all sendable ms"
  shows "\<exists>c' out. send_all cz ms c = Some (Inr (), c') \<and> can_send c' \<and> outgoing c' = outgoing c @ out \<and>
    (\<forall>rest. read_masked_frames (length ms) (out @ rest) =
       Some (map (\<lambda>m. case message_payload m of Inr (raw, opcode) \<Rightarrow> (True, False, opcode, raw)) ms, rest))"
  using assms by (rule send_all_read_back)

lemma demo_can_send: "can_send demo_client" "\<not> deflate demo_client" "link_up demo_client" "send_inv demo_client"
  "transport demo_client" "\<not> closed demo_client" "wire demo_client = []" "write_queue demo_client = []"
  by (simp_all add: can_send_def demo_client_def connect_state_def link_up_def send_inv_def wire_def)

theorem sent_messages_read_back_witness:
  "\<forall>cz :: unit compressor. \<exists>c' out. send_all cz [PyBytes [7, 8], PyStr [104]] demo_client = Some (Inr (), c') \<and>
    outgoing c' = out \<and> read_masked_frames 2 out = Some ([(True, False, 2, [7, 8]), (True, False, 1, [104])], [])"
proof
  fix cz :: "unit compressor"
  let ?ms = "[PyBytes [7, 8], PyStr [104]]"
  have "list_all sendable ?ms"
    by (simp add: sendable_def message_payload_def scalar_def utf8_encode_def utf8_char_def)
  from sent_messages_read_back [OF demo_can_send(1,2) this, of cz] obtain c' out where
    r: "send_all cz ?ms demo_client = Some (Inr (), c')" "outgoing c' = outgoing demo_client @ out"
      "\<forall>rest. read_masked_frames (length ?ms) (out @ rest) = Some (map (\<lambda>m. case message_payload m of
         Inr (raw, opcode) \<Rightarrow> (True, False, opcode, raw)) ?ms, rest)"
    by blast
  have "length ?ms = 2" by simp
  moreover note r(3) [rule_format, of "[]"]
  moreover have "message_payload (PyStr [104]) = Inr ([104], 1)" "message_payload (PyBytes [7, 8]) = Inr ([7, 8], 2)"
    by (simp_all add: message_payload_def scalar_def utf8_encode_def utf8_char_def u8_of_def)
  moreover have "outgoing demo_client = []" using demo_can_send(7,8) by (simp add: outgoing_def)
  ultimately show "\<exists>c' out. send_all cz ?ms demo_client = Some (Inr (), c') \<and>
    outgoing c' = out \<and> read_masked_frames 2 out = Some ([(True, False, 2, [7, 8]), (True, False, 1, [104])], [])"
    using r(1,2) by (simp add: numeral_2_eq_2 del: send_all.simps read_masked_frames.simps)
qed

text \<open>C15 Resuming writes the queue: when the transport drains, every frame that was queued while it was
  paused follows what is already on the wire, in order, and the queue is empty afterwards.\<close>

theorem resume_drains_queue:
  assumes "link_up c" and "transport c"
  shows "\<exists>c'. resume_writing c = (Inr (), c') \<and> wire c' = outgoing c \<and> outgoing c' = outgoing c \<and> send_inv c'"
  using resume_writing_sent [OF assms] by (auto simp: outgoing_def)

theorem resume_drains_queue_witness:
  "\<exists>c'. resume_writing (demo_client\<lparr>paused := True, write_queue := [[1], [2, 3]]\<rparr>) = (Inr (), c') \<and> wire c' = [1, 2, 3]"
  using resume_drains_queue [of "demo_client\<lparr>paused := True, write_queue := [[1], [2, 3]]\<rparr>"]
  by (auto simp: demo_client_def connect_state_def link_up_def outgoing_def wire_def)



text \<open>C16 Pings and pongs: a payload above 125 bytes is refused first, then a closed connection, then a
  missing transport, each leaving the client as it was; otherwise one masked control frame with
  exactly this payload goes straight to the wire, past the queue of a paused transport.\<close>

theorem control_frames_sent:
  assumes "link_up c" and "send_inv c" and "(opcode, f, too_long) \<in> {
      (OP_PING, ping, ''ping payload exceeds 125 bytes (WS control-frame limit)''),
      (OP_PONG, pong, ''pong payload exceeds 125 bytes (WS control-frame limit)'')}"
  shows "if 125 < length d then f (Some d) c = (Inl (ValueError too_long), c)
    else if closed c then f (Some d) c = (Inl (RuntimeError ''WebSocket is closed''), c)
    else if \<not> transport c then f (Some d) c = (Inl (RuntimeError ''No transport''), c)
    else \<exists>c' frame. f (Some d) c = (Inr (), c') \<and> wire c' = wire c @ frame \<and> write_queue c' = write_queue c \<and>
      send_inv c' \<and> read_masked_frame (frame @ rest) = Some ((True, False, opcode, d), rest)"
proof -
  have f: "f = send_control opcode too_long" and op: "opcode = OP_CLOSE \<or> opcode = OP_PING \<or> opcode = OP_PONG"
    using assms(3) by (auto simp: ping_def pong_def)
  consider "125 < length d" | "length d \<le> 125" "closed c \<or> \<not> transport c"
    | "length d \<le> 125" "\<not> closed c" "transport c" by linarith
  then show ?thesis
  proof cases
    case 3
    then obtain c' key where "f (Some d) c = (Inr (), c')" "wire c' = wire c @ control_frame opcode d key"
      "write_queue c' = write_queue c" "send_inv c'"
      using send_control_sent [OF assms(1,2), of "Some d" opcode too_long] f by auto
    with 3 read_control_frame [OF op, of d key rest] show ?thesis by auto
  qed (auto simp: f send_control_def)
qed

theorem control_frames_sent_witness:
  "\<exists>c' frame. ping (Some [1, 2]) demo_client = (Inr (), c') \<and> wire c' = frame \<and>
     read_masked_frame (frame @ []) = Some ((True, False, OP_PING, [1, 2]), [])"
  using control_frames_sent [of demo_client OP_PING ping
      "''ping payload exceeds 125 bytes (WS control-frame limit)''" "[1, 2]" "[]"] demo_can_send by auto

text \<open>C14 Closing: the first \<open>close\<close> puts one masked close frame on the wire after everything sent before,
  closes the transport, drops the queue and fails every future that still waits, keeping the
  messages that wait to be read; closing again changes nothing.\<close>

theorem close_once:
  assumes "link_up c" and "transport c" and "\<not> closed c"
  shows "wire (close c) = wire c @ close_frame \<and>
    read_masked_frame (close_frame @ rest) = Some ((True, False, OP_CLOSE, []), rest) \<and>
    tclosed (close c) \<and> closed (close c) \<and> pending_futures (close c) = [] \<and> write_queue (close c) = [] \<and>
    backlog (close c) = backlog c \<and> close (close c) = close c \<and>
    futures (close c) = fail_all (pending_futures c) (PyConnectionError ''Connection closed by client'') (futures c)"
  using close_wire [OF assms] close_torn_down [of c] close_twice [of c] assms(2) read_close_frame [of rest]
  by simp

theorem close_once_witness:
  "wire (close demo_client) = close_frame \<and> close (close demo_client) = close demo_client"
  using close_once [OF demo_can_send(3,5,6)] demo_can_send(7) by simp

end
