(* ===== verification/Client_Receive.thy ===== *)
theory Client_Receive
  imports Client_Send "HOL-Library.Monad_Syntax"
begin

text \<open>
  The receiving half of \<^verbatim>\<open>NativeClient\<close> in \<^verbatim>\<open>src/src/native_client/client.rs\<close>: the frame-aligned
  fast path, the parked slow path, the protocol event handler, the three entry points the event
  loop calls (\<^verbatim>\<open>data_received\<close>, \<^verbatim>\<open>buffer_updated\<close>, \<^verbatim>\<open>connection_lost\<close>) and \<^verbatim>\<open>ping_waiter\<close>.  The
  user's \<^verbatim>\<open>on_message\<close> callback is the parameter \<open>cb\<close>: it may do anything to the client,
  including calling it back, and it may not return, which is \<open>None\<close>.
\<close>

type_synonym callback = "bytes \<Rightarrow> client \<Rightarrow> ((PyErr + unit) \<times> client) option"

section \<open>Callbacks\<close>

partial_function (option) flush_loop :: "callback \<Rightarrow> client \<Rightarrow> ((PyErr + unit) \<times> client) option" where
  "flush_loop cb c =
     (if \<not> on_message c then Some (Inr (), c)
      else case pending_callback_msgs c of
        [] \<Rightarrow> Some (Inr (), c)
      | msg # rest \<Rightarrow>
          Option.bind (cb msg (c\<lparr>pending_callback_msgs := rest\<rparr>)) (\<lambda>(r, c').
            case r of Inl e \<Rightarrow> Some (Inl e, c') | Inr _ \<Rightarrow> flush_loop cb c'))"

definition flush_pending_callbacks :: "callback \<Rightarrow> client \<Rightarrow> ((PyErr + unit) \<times> client) option" where
  "flush_pending_callbacks cb c =
     (if pending_callback_msgs c = [] then Some (Inr (), c)
      else if \<not> on_message c then Some (Inr (), c)
      else flush_loop cb c)"

section \<open>Closing from the peer's side\<close>

definition begin_peer_close ::
  "u16 option \<Rightarrow> rstring option \<Rightarrow> client \<Rightarrow> (fut list \<times> bool) \<times> client" where
  "begin_peer_close code reason c =
     (let c = c\<lparr>close_received_code := code, close_received_reason := reason\<rparr>;
          c = (if code \<noteq> None then c\<lparr>close_code := code, close_reason := reason\<rparr> else c);
          c = c\<lparr>closed := True\<rparr>
      in case take_pending c of (pending, c) \<Rightarrow> ((pending, transport c), c))"

definition apply_peer_close ::
  "callback \<Rightarrow> fut list \<Rightarrow> bool \<Rightarrow> client \<Rightarrow> ((PyErr + unit) \<times> client) option" where
  "apply_peer_close cb pending has_transport c =
     do {
       (callback_result, c) \<leftarrow> flush_pending_callbacks cb c;
       let c = release_references c;
       let c = fail_pending pending ''Connection closed by peer'' c;
       Some (callback_result, if has_transport then transport_close c else c)
     }"

definition begin_protocol_error ::
  "u16 \<Rightarrow> string \<Rightarrow> client \<Rightarrow> (fut list \<times> bool \<times> bytes) \<times> client" where
  "begin_protocol_error code reason c =
     (let c = c\<lparr>close_code := Some code, close_reason := Some (lit reason), closed := True\<rparr>
      in case take_pending c of
           (pending, c) \<Rightarrow>
             (case encode_control_frame OP_CLOSE (to_be_bytes 2 (unat code)) c of
                (frame, c') \<Rightarrow> ((pending, transport c, frame), c')))"

section \<open>The event handler\<close>

definition handle_protocol_event ::
  "callback \<Rightarrow> ProtocolEvent \<Rightarrow> client \<Rightarrow> ((PyErr + EventFlow) \<times> client) option" where
  "handle_protocol_event cb event c =
     (case event of
        Message payload \<Rightarrow>
          if on_message c then
            Some (Inr FlowContinue, c\<lparr>pending_callback_msgs := pending_callback_msgs c @ [payload]\<rparr>)
          else (case take_live_receiver c of
                  (Some future, c') \<Rightarrow>
                    (case set_future_result future (PyMessage payload) c' of
                       (Inl e, c'') \<Rightarrow> Some (Inl e, c'')
                     | (Inr _, c'') \<Rightarrow> Some (Inr FlowContinue, c''))
                | (None, c') \<Rightarrow> Some (Inr FlowContinue, c'\<lparr>backlog := backlog c' @ [payload]\<rparr>))
      | Pong payload \<Rightarrow>
          (case take_ping payload c of
             (Some p, c') \<Rightarrow> Some (Inr FlowContinue, acknowledge payload p c')
           | (None, c') \<Rightarrow> Some (Inr FlowContinue, c'))
      | SendPong payload \<Rightarrow>
          if transport c then
            (case encode_control_frame OP_PONG payload c of
               (frame, c') \<Rightarrow> Some (Inr FlowContinue, snd (transport_write_call frame c')))
          else Some (Inr FlowContinue, c)
      | Close code reason \<Rightarrow>
          (case begin_peer_close code reason c of
             ((pending, has_transport), c') \<Rightarrow>
               do {
                 (r, c) \<leftarrow> apply_peer_close cb pending has_transport c';
                 Some (map_sum id (\<lambda>_. FlowStop) r, c)
               })
      | ProtocolError code reason \<Rightarrow>
          (case begin_protocol_error code reason c of
             ((pending, has_transport, frame), c') \<Rightarrow>
               do {
                 (callback_result, c) \<leftarrow> flush_pending_callbacks cb c';
                 let c = fail_pending pending reason (release_references c);
                 let c = (if has_transport then
                            (case transport_write_call frame c of
                               (Inr _, c) \<Rightarrow>
                                 transport_close (c\<lparr>close_sent_code := Some code, close_sent_reason := Some []\<rparr>)
                             | (Inl _, c) \<Rightarrow> transport_close c)
                          else c);
                 Some (map_sum id (\<lambda>_. FlowStop) callback_result, c)
               }))"

section \<open>The slow path\<close>

definition protocol_core :: "client \<Rightarrow> ProtocolCore" where
  "protocol_core c =
     \<lparr>pc_buf = buf c, pc_handshake_done = handshake_done c, pc_expected_accept = expected_accept c,
      pc_compression_enabled = deflate c, pc_fragment_buf = fragment_buf c,
      pc_fragment_opcode = fragment_opcode c, pc_fragment_rsv1 = fragment_rsv1 c\<rparr>"

text \<open>The fields \<^verbatim>\<open>ProtocolCore\<close> borrows mutably, written back.\<close>

definition with_core :: "client \<Rightarrow> ProtocolCore \<Rightarrow> client" where
  "with_core c d =
     c\<lparr>buf := pc_buf d, handshake_done := pc_handshake_done d, fragment_buf := pc_fragment_buf d,
       fragment_opcode := pc_fragment_opcode d, fragment_rsv1 := pc_fragment_rsv1 d\<rparr>"

definition client_next_event :: "inflater \<Rightarrow> client \<Rightarrow> ProtocolEvent option \<times> client" where
  "client_next_event inflate c =
     (case next_event inflate (protocol_core c) of (e, d) \<Rightarrow> (e, with_core c d))"

definition drain_events :: "inflater \<Rightarrow> callback \<Rightarrow> client \<Rightarrow> ((PyErr + unit) \<times> client) option" where
  "drain_events inflate cb c =
     emit_protocol_events (client_next_event inflate) (handle_protocol_event cb) c"

definition process_buffered_frames ::
  "inflater \<Rightarrow> callback \<Rightarrow> client \<Rightarrow> ((PyErr + unit) \<times> client) option" where
  "process_buffered_frames inflate cb c =
     (case process_handshake (protocol_core c) of
        (HandshakePending, d) \<Rightarrow> Some (Inr (), with_core c d)
      | (Rejected http_status, d) \<Rightarrow>
          (let c = with_core c d in
           case handshake_fut c of
             None \<Rightarrow> Some (Inr (), c)
           | Some future \<Rightarrow>
               Some (Inr (), set_future_exception future (HandshakeFailed http_status) (c\<lparr>handshake_fut := None\<rparr>)))
      | (Accepted sub compression_enabled, d) \<Rightarrow>
          (let c = (with_core c d)\<lparr>handshake_done := True, subprotocol := sub\<rparr>;
               c = (if \<not> compression_enabled then c\<lparr>deflate := False\<rparr> else c);
               future = handshake_fut c;
               c = c\<lparr>handshake_fut := None\<rparr>;
               c = (case future of None \<Rightarrow> c | Some f \<Rightarrow> snd (set_future_result f PyNone c))
           in drain_events inflate cb c)
      | (Complete, d) \<Rightarrow> drain_events inflate cb (with_core c d))"

section \<open>The fast path\<close>

datatype PayloadMode = CopyMode | ZeroCopy | ZeroCopyOwned

text \<open>The message payload: a copy of the frame's bytes, or a slice of the window.\<close>

definition message_slice :: "PayloadMode \<Rightarrow> bytes \<Rightarrow> nat \<Rightarrow> FastFrame \<Rightarrow> bytes" where
  "message_slice mode data zero_copy_min_bytes frame =
     (let slice = take (length (ff_payload frame)) (drop (ff_payload_start frame) data) in
      case mode of
        CopyMode \<Rightarrow> ff_payload frame
      | ZeroCopyOwned \<Rightarrow>
          if length (ff_payload frame) < zero_copy_min_bytes then ff_payload frame else slice
      | ZeroCopy \<Rightarrow> slice)"

text \<open>What the scan collects while it holds the state: the effects of a close, the pings that were
  answered, and the pongs to write.\<close>

record scan =
  sc_client :: client
  sc_close :: "(fut list \<times> bool) option"
  sc_acks :: "(bytes \<times> fut) list"
  sc_pongs :: "bytes list"

definition scan_visitor :: "PayloadMode \<Rightarrow> bytes \<Rightarrow> (scan, PyErr) visitor" where
  "scan_visitor mode data frame s =
     (let c = sc_client s; opcode = ff_opcode frame in
      if opcode = OP_TEXT \<or> opcode = OP_BINARY then
        (case deliver_message (message_slice mode data (zero_copy_min c) frame) c of
           (Inl e, c') \<Rightarrow> (Inl e, s\<lparr>sc_client := c'\<rparr>)
         | (Inr _, c') \<Rightarrow> (Inr VisitContinue, s\<lparr>sc_client := c'\<rparr>))
      else if opcode = OP_PING then
        (if transport c then
           (case encode_control_frame OP_PONG (ff_payload frame) c of
              (pong_frame, c') \<Rightarrow>
                (Inr VisitContinue, s\<lparr>sc_client := c', sc_pongs := sc_pongs s @ [pong_frame]\<rparr>))
         else (Inr VisitContinue, s))
      else if opcode = OP_PONG then
        (case take_ping (ff_payload frame) c of
           (Some p, c') \<Rightarrow>
             (Inr VisitContinue, s\<lparr>sc_client := c', sc_acks := sc_acks s @ [(ff_payload frame, p)]\<rparr>)
         | (None, c') \<Rightarrow> (Inr VisitContinue, s\<lparr>sc_client := c'\<rparr>))
      else if opcode = OP_CLOSE then
        (case parse_close_payload (ff_payload frame) of
           (code, reason) \<Rightarrow>
             (case begin_peer_close code reason c of
                (effects, c') \<Rightarrow>
                  (Inr VisitStop, s\<lparr>sc_client := c', sc_close := Some effects\<rparr>)))
      else (Inr VisitContinue, s))"

definition acknowledge_all :: "(bytes \<times> fut) list \<Rightarrow> client \<Rightarrow> client" where
  "acknowledge_all acks c = fold (\<lambda>(payload, p). acknowledge payload p) acks c"

definition write_pongs :: "bytes list \<Rightarrow> client \<Rightarrow> client" where
  "write_pongs pongs c = fold (\<lambda>frame c. snd (transport_write_call frame c)) pongs c"

definition scan_frame_aligned ::
  "callback \<Rightarrow> bytes \<Rightarrow> PayloadMode \<Rightarrow> client \<Rightarrow> ((PyErr + ScanOutcome) \<times> client) option" where
  "scan_frame_aligned cb data mode c =
     (case walk_frames data (scan_visitor mode data)
             \<lparr>sc_client = c, sc_close = None, sc_acks = [], sc_pongs = []\<rparr> of
        (Inl e, s) \<Rightarrow> Some (Inl e, sc_client s)
      | (Inr outcome, s) \<Rightarrow>
          (let c = write_pongs (sc_pongs s) (acknowledge_all (sc_acks s) (sc_client s)) in
           case (outcome, sc_close s) of
             (Stopped consumed, Some (pending, has_transport)) \<Rightarrow>
               do {
                 (r, c) \<leftarrow> apply_peer_close cb pending has_transport c;
                 Some (map_sum id (\<lambda>_. outcome) r, c)
               }
           | _ \<Rightarrow> Some (Inr outcome, c)))"

definition fast_path_eligible :: "client \<Rightarrow> bool" where
  "fast_path_eligible c \<longleftrightarrow> handshake_done c \<and> buf c = [] \<and> fragment_buf c = None"

definition park_tail_and_drain ::
  "inflater \<Rightarrow> callback \<Rightarrow> ScanOutcome \<Rightarrow> bytes \<Rightarrow> client \<Rightarrow> ((PyErr + unit) \<times> client) option" where
  "park_tail_and_drain inflate cb outcome data c =
     (case outcome of
        Stopped consumed \<Rightarrow> Some (Inr (), c)
      | _ \<Rightarrow>
          if scan_consumed outcome < length data then
            process_buffered_frames inflate cb (c\<lparr>buf := buf c @ drop (scan_consumed outcome) data\<rparr>)
          else Some (Inr (), c))"

definition data_received_inner ::
  "inflater \<Rightarrow> callback \<Rightarrow> bytes \<Rightarrow> client \<Rightarrow> ((PyErr + unit) \<times> client) option" where
  "data_received_inner inflate cb data c =
     (if fast_path_eligible c then
        do {
          (r, c) \<leftarrow> scan_frame_aligned cb data CopyMode c;
          case r of Inl e \<Rightarrow> Some (Inl e, c) | Inr outcome \<Rightarrow> park_tail_and_drain inflate cb outcome data c
        }
      else process_buffered_frames inflate cb (c\<lparr>buf := buf c @ data\<rparr>))"

definition data_received_inner_pybytes ::
  "inflater \<Rightarrow> callback \<Rightarrow> bytes \<Rightarrow> client \<Rightarrow> ((PyErr + unit) \<times> client) option" where
  "data_received_inner_pybytes inflate cb data c =
     (if \<not> fast_path_eligible c then data_received_inner inflate cb data c
      else
        do {
          (r, c) \<leftarrow> scan_frame_aligned cb data ZeroCopy c;
          case r of Inl e \<Rightarrow> Some (Inl e, c) | Inr outcome \<Rightarrow> park_tail_and_drain inflate cb outcome data c
        })"

text \<open>The common epilogue of the entry points: run the queued callbacks, let a callback's error
  win over the parse result.\<close>

definition then_flush ::
  "callback \<Rightarrow> ((PyErr + unit) \<times> client) option \<Rightarrow> ((PyErr + unit) \<times> client) option" where
  "then_flush cb parsed =
     do {
       (result, c) \<leftarrow> parsed;
       (flushed, c) \<leftarrow> flush_pending_callbacks cb c;
       Some (case flushed of Inl e \<Rightarrow> Inl e | Inr _ \<Rightarrow> result, c)
     }"

definition data_received_plaintext ::
  "inflater \<Rightarrow> callback \<Rightarrow> bytes \<Rightarrow> client \<Rightarrow> ((PyErr + unit) \<times> client) option" where
  "data_received_plaintext inflate cb data c =
     then_flush cb (if data = [] then Some (Inr (), c) else data_received_inner inflate cb data c)"

datatype PyData =
    BytesObject bytes
  | FlatBuffer bytes
  | StridedBuffer
  | NoBuffer PyErr

definition data_received ::
  "inflater \<Rightarrow> callback \<Rightarrow> PyData \<Rightarrow> client \<Rightarrow> ((PyErr + unit) \<times> client) option" where
  "data_received inflate cb obj c =
     (case obj of
        BytesObject data \<Rightarrow> then_flush cb (data_received_inner_pybytes inflate cb data c)
      | NoBuffer e \<Rightarrow> Some (Inl e, c)
      | StridedBuffer \<Rightarrow> Some (Inl (TypeError ''data_received expected a 1-D C-contiguous buffer''), c)
      | FlatBuffer data \<Rightarrow> data_received_plaintext inflate cb data c)"

section \<open>The buffered protocol\<close>

definition parse_recv_data ::
  "inflater \<Rightarrow> callback \<Rightarrow> bytes \<Rightarrow> client \<Rightarrow> ((PyErr + nat \<times> nat option) \<times> client) option" where
  "parse_recv_data inflate cb data c =
     (if \<not> fast_path_eligible c then
        do {
          (r, c) \<leftarrow> data_received_inner inflate cb data c;
          Some (map_sum id (\<lambda>_. (length data, None)) r, c)
        }
      else
        do {
          (r, c) \<leftarrow> scan_frame_aligned cb data ZeroCopyOwned c;
          case r of
            Inl e \<Rightarrow> Some (Inl e, c)
          | Inr (Exhausted consumed) \<Rightarrow> Some (Inr (consumed, None), c)
          | Inr (Stopped consumed) \<Rightarrow> Some (Inr (consumed, None), c)
          | Inr (Partial consumed needed) \<Rightarrow> Some (Inr (consumed, Some needed), c)
          | Inr (Fallback consumed) \<Rightarrow>
              do {
                (r, c) \<leftarrow> data_received_inner inflate cb (drop consumed data) c;
                Some (map_sum id (\<lambda>_. (length data, None)) r, c)
              }
        })"

text \<open>\<^verbatim>\<open>buffer_updated(nbytes)\<close>, with the bytes the event loop wrote into the buffer.\<close>

definition buffer_updated ::
  "inflater \<Rightarrow> callback \<Rightarrow> bytes \<Rightarrow> client \<Rightarrow> ((PyErr + unit) \<times> client) option" where
  "buffer_updated inflate cb written c =
     (let c = c\<lparr>recv_buf := recv_buf c @ written\<rparr> in
      if (case next_frame_needed c of Some needed \<Rightarrow> length (recv_buf c) < needed | None \<Rightarrow> False)
      then Some (Inr (), c)
      else
        let received = recv_buf c;
            c = c\<lparr>next_frame_needed := None, recv_buf := []\<rparr>
        in do {
             (r, c) \<leftarrow> parse_recv_data inflate cb received c;
             case r of
               Inl e \<Rightarrow> Some (Inl e, c)
             | Inr (consumed, needed) \<Rightarrow>
                 (let c = (if consumed < length received
                           then c\<lparr>recv_buf := recv_buf c @ drop consumed received\<rparr> else c)
                  in flush_pending_callbacks cb (c\<lparr>next_frame_needed := needed\<rparr>))
           })"

section \<open>Loss of the connection\<close>

definition capacity_error :: PyErr where
  "capacity_error = NativeReceiveCapacityError ''Rust TLS pending plaintext exceeds 1 MiB read-flow bound''"

definition is_capacity_error :: "PyErr option \<Rightarrow> bool" where
  "is_capacity_error exc = (case exc of Some (NativeReceiveCapacityError _) \<Rightarrow> True | _ \<Rightarrow> False)"

definition connection_lost ::
  "callback \<Rightarrow> PyErr option \<Rightarrow> client \<Rightarrow> ((PyErr + unit) \<times> client) option" where
  "connection_lost cb exc c =
     do {
       (callback_result, c) \<leftarrow> flush_pending_callbacks cb c;
       let c = c\<lparr>closed := True\<rparr>;
       let c = (if is_capacity_error exc then c\<lparr>terminal_error := exc\<rparr> else c);
       (case take_pending (release_references c) of
          (pending, c) \<Rightarrow>
            Some (callback_result,
              if is_capacity_error exc then fold (\<lambda>i. set_future_exception i capacity_error) pending c
              else fail_pending pending ''Connection lost'' c))
     }"

section \<open>Acknowledged pings\<close>

text \<open>
  Creating a future, asking one whether it is done and registering a callback run Python code that
  may call the client back; \<open>reenter\<close> is what it does to the client.
\<close>

definition closed_error :: PyErr where
  "closed_error = PyConnectionError ''WebSocket is closed''"

definition outstanding :: PyErr where
  "outstanding = ValueError ''ping payload already outstanding''"

definition ping_of :: "bytes \<Rightarrow> client \<Rightarrow> fut option" where
  "ping_of payload c = Option.bind (pending_pings c) (\<lambda>pings. map_of pings payload)"

text \<open>An outstanding ping with the same payload: it must be done, and still the same one.\<close>

definition replace_done_ping ::
  "(client \<Rightarrow> client) \<Rightarrow> bytes \<Rightarrow> client \<Rightarrow> (PyErr + unit) \<times> client" where
  "replace_done_ping reenter payload c =
     (case ping_of payload c of
        None \<Rightarrow> (Inr (), c)
      | Some existing \<Rightarrow>
          (case future_done (futures c existing) of
             Inl e \<Rightarrow> (Inl e, reenter c)
           | Inr None \<Rightarrow> (Inl ExtractError, reenter c)
           | Inr (Some done) \<Rightarrow>
               (let c = reenter c in
                if closed c then (Inl closed_error, c)
                else case pending_pings c of
                  None \<Rightarrow> (Inr (), c)
                | Some pings \<Rightarrow>
                    (case map_of pings payload of
                       None \<Rightarrow> (Inr (), c)
                     | Some current \<Rightarrow>
                         if current \<noteq> existing \<or> \<not> done then (Inl outstanding, c)
                         else (Inr (), c\<lparr>pending_pings := Some (remove_key payload pings)\<rparr>)))))"

definition add_done_callback :: "bytes \<Rightarrow> fut \<Rightarrow> client \<Rightarrow> (PyErr + unit) \<times> client" where
  "add_done_callback payload i c =
     (case add_raises (futures c i) of
        Some e \<Rightarrow> (Inl e, c)
      | None \<Rightarrow>
          (Inr (), c\<lparr>futures := (futures c)(i := (futures c i)\<lparr>done_callbacks :=
                       done_callbacks (futures c i) @ [payload]\<rparr>)\<rparr>))"

definition insert_ping :: "bytes \<Rightarrow> fut \<Rightarrow> client \<Rightarrow> client" where
  "insert_ping payload future c =
     c\<lparr>pending_pings := Some ((payload, future) #
         remove_key payload (case pending_pings c of None \<Rightarrow> [] | Some pings \<Rightarrow> pings))\<rparr>"

text \<open>Write the ping and register it first; when the write fails, undo and tear down.\<close>

definition write_ping ::
  "callback \<Rightarrow> bytes \<Rightarrow> fut \<Rightarrow> client \<Rightarrow> ((PyErr + fut) \<times> client) option" where
  "write_ping cb payload future c =
     (case encode_control_into OP_PING payload c of
        (frame, c) \<Rightarrow>
          (case transport_write_call frame (insert_ping payload future c) of
             (Inr _, c) \<Rightarrow> Some (Inr future, c)
           | (Inl error, c) \<Rightarrow>
               (let c = c\<lparr>pending_pings := map_option (remove_key payload) (pending_pings c)\<rparr>;
                    c = transport_close (cancel_future future c)
                in do {
                     (r, c) \<leftarrow> connection_lost cb None c;
                     Some (case r of Inl e \<Rightarrow> Inl e
                           | Inr _ \<Rightarrow> Inl (PyConnectionError ''Ping write failed''), c)
                   })))"

definition ping_waiter ::
  "callback \<Rightarrow> (client \<Rightarrow> client) \<Rightarrow> bytes option \<Rightarrow> client \<Rightarrow> ((PyErr + fut) \<times> client) option" where
  "ping_waiter cb reenter data c =
     (let payload = (case data of None \<Rightarrow> [] | Some d \<Rightarrow> d) in
      if 125 < length payload then
        Some (Inl (ValueError ''ping payload exceeds 125 bytes (WS control-frame limit)''), c)
      else if closed c then Some (Inl closed_error, c)
      else if \<not> create_future c then Some (Inl (PyConnectionError ''No event loop''), c)
      else case replace_done_ping reenter payload c of
        (Inl e, c) \<Rightarrow> Some (Inl e, c)
      | (Inr _, c) \<Rightarrow>
          (case call_create_future c of
             (Inl e, c) \<Rightarrow> Some (Inl e, reenter c)
           | (Inr future, c) \<Rightarrow>
               (case add_done_callback payload future (reenter c) of
                  (Inl e, c) \<Rightarrow> Some (Inl e, reenter c)
                | (Inr _, c) \<Rightarrow>
                    (let c = reenter c in
                     if closed c \<or> \<not> transport c then
                       Some (Inl closed_error, cancel_future future c)
                     else if ping_of payload c \<noteq> None then
                       Some (Inl outstanding, cancel_future future c)
                     else write_ping cb payload future c))))"

end
