(* ===== verification/Client_Paths.thy ===== *)
theory Client_Paths
  imports Client_Receive
begin

text \<open>
  The receive paths of \<open>Client_Receive\<close> compared with each other.  The fast path looks at the
  frames of a read in place and puts acknowledgements and pongs off until its scan is over; the
  slow path parks the bytes and handles one event at a time.  Zero-copy payloads, the two orders
  of effects and the two buffers are shown to make no difference.
\<close>

section \<open>What a transport write leaves alone\<close>

text \<open>The normal form of a write: the bytes taken by the socket, the bytes buffered, the answers of
  \<^verbatim>\<open>send(2)\<close> that are left and whether the protocol gets paused.\<close>

definition net_after :: "bytes \<Rightarrow> bool \<Rightarrow> int list \<Rightarrow> bytes \<Rightarrow> bytes \<Rightarrow> nat \<Rightarrow> bytes \<times> bytes \<times> int list \<times> bool" where
  "net_after d live acc kn tb hw =
     (if \<not> live then (kn, tb, acc, False)
      else if tb = [] then
        (let n = nat (case acc of [] \<Rightarrow> int (length d) | r # _ \<Rightarrow> if r < 0 then - 1 else min r (int (length d)))
         in (kn @ take n d, drop n d, tl acc, hw < length (drop n d)))
      else (kn, tb @ d, acc, hw < length (tb @ d)))"

definition net_set :: "bytes \<times> bytes \<times> int list \<times> bool \<Rightarrow> client \<Rightarrow> client" where
  "net_set w c =
     c\<lparr>kernel := fst w, tbuf := fst (snd w), accepts := fst (snd (snd w)),
       paused := snd (snd (snd w)) \<or> paused c, buf_known_empty := buf_known_empty c \<and> \<not> snd (snd (snd w))\<rparr>"

definition write_net :: "bytes \<Rightarrow> client \<Rightarrow> client" where
  "write_net d c = net_set (net_after d (write_raises c = None \<and> \<not> tclosed c) (accepts c) (kernel c) (tbuf c) (high_water c)) c"

lemma transport_write_net: "snd (transport_write_call d c) = write_net d c"
proof (cases "write_raises c = None \<and> \<not> tclosed c")
  case False
  then show ?thesis
    by (auto simp: transport_write_call_def write_net_def net_after_def net_set_def split: option.split)
next
  case True
  define n where "n = send_result d c"
  have nn: "(case accepts c of [] \<Rightarrow> int (length d) | r # _ \<Rightarrow> if r < 0 then - 1 else min r (int (length d))) = n"
    by (simp add: n_def send_result_def)
  show ?thesis
  proof (cases "tbuf c = []")
    case True
    then show ?thesis
      using \<open>write_raises c = None \<and> \<not> tclosed c\<close>
      by (cases "high_water c < length (drop (nat n) d)")
        (simp_all add: transport_write_call_def write_net_def net_after_def net_set_def nn
          native_send_def n_def [symmetric] Let_def pause_writing_def)
  next
    case False
    then show ?thesis
      using \<open>write_raises c = None \<and> \<not> tclosed c\<close>
      by (cases "high_water c < length (tbuf c @ d)")
        (simp_all add: transport_write_call_def write_net_def net_after_def net_set_def
          Let_def pause_writing_def)
  qed
qed

lemma write_net_frame [simp]:
  "write_net d (c\<lparr>futures := h\<rparr>) = (write_net d c)\<lparr>futures := h\<rparr>"
  "write_net d (c\<lparr>buf := b\<rparr>) = (write_net d c)\<lparr>buf := b\<rparr>"
  "write_net d (c\<lparr>pending_recv := l\<rparr>) = (write_net d c)\<lparr>pending_recv := l\<rparr>"
  "write_net d (c\<lparr>unprobeable_recv := u\<rparr>) = (write_net d c)\<lparr>unprobeable_recv := u\<rparr>"
  "write_net d (c\<lparr>backlog := q\<rparr>) = (write_net d c)\<lparr>backlog := q\<rparr>"
  "write_net d (c\<lparr>pending_callback_msgs := q\<rparr>) = (write_net d c)\<lparr>pending_callback_msgs := q\<rparr>"
  "write_net d (c\<lparr>pending_pings := pp\<rparr>) = (write_net d c)\<lparr>pending_pings := pp\<rparr>"
  "write_net d (c\<lparr>handshake_fut := hf\<rparr>) = (write_net d c)\<lparr>handshake_fut := hf\<rparr>"
  "write_net d (c\<lparr>mask_pool := mp\<rparr>) = (write_net d c)\<lparr>mask_pool := mp\<rparr>"
  "write_net d (c\<lparr>rng_pos := n\<rparr>) = (write_net d c)\<lparr>rng_pos := n\<rparr>"
  "write_net d (c\<lparr>closed := x0\<rparr>) = (write_net d c)\<lparr>closed := x0\<rparr>"
  "write_net d (c\<lparr>close_code := x1\<rparr>) = (write_net d c)\<lparr>close_code := x1\<rparr>"
  "write_net d (c\<lparr>close_reason := x2\<rparr>) = (write_net d c)\<lparr>close_reason := x2\<rparr>"
  "write_net d (c\<lparr>close_received_code := x3\<rparr>) = (write_net d c)\<lparr>close_received_code := x3\<rparr>"
  "write_net d (c\<lparr>close_received_reason := x4\<rparr>) = (write_net d c)\<lparr>close_received_reason := x4\<rparr>"
  by (simp_all add: write_net_def net_set_def)

lemma write_net_invalidated [simp]:
  "write_net d (c\<lparr>buf_known_empty := False\<rparr>) = (write_net d c)\<lparr>buf_known_empty := False\<rparr>"
  by (simp add: write_net_def net_set_def)

lemma write_net_keeps [simp]:
  "futures (write_net d c) = futures c"
  "buf (write_net d c) = buf c"
  "pending_recv (write_net d c) = pending_recv c"
  "unprobeable_recv (write_net d c) = unprobeable_recv c"
  "backlog (write_net d c) = backlog c"
  "pending_callback_msgs (write_net d c) = pending_callback_msgs c"
  "pending_pings (write_net d c) = pending_pings c"
  "handshake_fut (write_net d c) = handshake_fut c"
  "mask_pool (write_net d c) = mask_pool c"
  "rng_pos (write_net d c) = rng_pos c"
  "closed (write_net d c) = closed c"
  "close_code (write_net d c) = close_code c"
  "close_reason (write_net d c) = close_reason c"
  "close_received_code (write_net d c) = close_received_code c"
  "close_received_reason (write_net d c) = close_received_reason c"
  "on_message (write_net d c) = on_message c"
  "transport (write_net d c) = transport c"
  "machine (write_net d c) = machine c"
  "rng (write_net d c) = rng c"
  "fragment_buf (write_net d c) = fragment_buf c"
  "handshake_done (write_net d c) = handshake_done c"
  "fragment_opcode (write_net d c) = fragment_opcode c"
  "fragment_rsv1 (write_net d c) = fragment_rsv1 c"
  "expected_accept (write_net d c) = expected_accept c"
  "deflate (write_net d c) = deflate c"
  "zero_copy_min (write_net d c) = zero_copy_min c"
  by (simp_all add: write_net_def net_set_def)

section \<open>Effects put off\<close>

text \<open>The acknowledgements only touch their futures.\<close>

definition ack_heap :: "(bytes \<times> fut) list \<Rightarrow> (fut \<Rightarrow> PyFuture) \<Rightarrow> fut \<Rightarrow> PyFuture" where
  "ack_heap acks h = fold (\<lambda>(payload, i) h. h(i := ack_one payload (h i))) acks h"

lemma acknowledge_all_heap: "acknowledge_all acks c = c\<lparr>futures := ack_heap acks (futures c)\<rparr>"
  by (induction acks arbitrary: c)
    (auto simp: acknowledge_all_def ack_heap_def acknowledge_heap)

lemma ack_heap_other: "i \<notin> snd ` set acks \<Longrightarrow> ack_heap acks h i = h i"
  by (induction acks arbitrary: h) (auto simp: ack_heap_def)

lemma ack_heap_upd: "i \<notin> snd ` set acks \<Longrightarrow> ack_heap acks (h(i := f)) = (ack_heap acks h)(i := f)"
proof (induction acks arbitrary: h)
  case (Cons a acks)
  obtain payload j where a: "a = (payload, j)" by (cases a)
  with Cons.prems have "i \<noteq> j" by auto
  then have "(h(i := f))(j := g) = (h(j := g))(i := f)" for g by (simp add: fun_upd_twist)
  moreover have "ack_heap (a # acks) h = ack_heap acks (h(j := ack_one payload (h j)))" for h
    by (simp add: ack_heap_def a)
  moreover have "i \<notin> snd ` set acks" using Cons.prems by simp
  ultimately show ?case using Cons.IH \<open>i \<noteq> j\<close> by (simp only: fun_upd_other not_False_eq_True)
qed (simp add: ack_heap_def)

lemma ack_heap_snoc: "ack_heap (acks @ [(payload, i)]) h = (ack_heap acks h)(i := ack_one payload (ack_heap acks h i))"
  by (simp add: ack_heap_def)

lemma write_pongs_Nil [simp]: "write_pongs [] c = c"
  by (simp add: write_pongs_def)

lemma write_pongs_Cons [simp]: "write_pongs (f # fs) c = write_pongs fs (write_net f c)"
  by (simp add: write_pongs_def transport_write_net)

lemma write_pongs_snoc: "write_pongs (fs @ [f]) c = write_net f (write_pongs fs c)"
  by (simp add: write_pongs_def transport_write_net)

lemma write_pongs_frame [simp]:
  "write_pongs fs (c\<lparr>futures := h\<rparr>) = (write_pongs fs c)\<lparr>futures := h\<rparr>"
  "write_pongs fs (c\<lparr>buf := b\<rparr>) = (write_pongs fs c)\<lparr>buf := b\<rparr>"
  "write_pongs fs (c\<lparr>pending_recv := l\<rparr>) = (write_pongs fs c)\<lparr>pending_recv := l\<rparr>"
  "write_pongs fs (c\<lparr>unprobeable_recv := u\<rparr>) = (write_pongs fs c)\<lparr>unprobeable_recv := u\<rparr>"
  "write_pongs fs (c\<lparr>backlog := q\<rparr>) = (write_pongs fs c)\<lparr>backlog := q\<rparr>"
  "write_pongs fs (c\<lparr>pending_callback_msgs := q\<rparr>) = (write_pongs fs c)\<lparr>pending_callback_msgs := q\<rparr>"
  "write_pongs fs (c\<lparr>pending_pings := pp\<rparr>) = (write_pongs fs c)\<lparr>pending_pings := pp\<rparr>"
  "write_pongs fs (c\<lparr>handshake_fut := hf\<rparr>) = (write_pongs fs c)\<lparr>handshake_fut := hf\<rparr>"
  "write_pongs fs (c\<lparr>mask_pool := mp\<rparr>) = (write_pongs fs c)\<lparr>mask_pool := mp\<rparr>"
  "write_pongs fs (c\<lparr>rng_pos := n\<rparr>) = (write_pongs fs c)\<lparr>rng_pos := n\<rparr>"
  "write_pongs fs (c\<lparr>closed := x0\<rparr>) = (write_pongs fs c)\<lparr>closed := x0\<rparr>"
  "write_pongs fs (c\<lparr>close_code := x1\<rparr>) = (write_pongs fs c)\<lparr>close_code := x1\<rparr>"
  "write_pongs fs (c\<lparr>close_reason := x2\<rparr>) = (write_pongs fs c)\<lparr>close_reason := x2\<rparr>"
  "write_pongs fs (c\<lparr>close_received_code := x3\<rparr>) = (write_pongs fs c)\<lparr>close_received_code := x3\<rparr>"
  "write_pongs fs (c\<lparr>close_received_reason := x4\<rparr>) = (write_pongs fs c)\<lparr>close_received_reason := x4\<rparr>"
  by (induction fs arbitrary: c; simp)+

lemma write_pongs_invalidated [simp]:
  "write_pongs fs (c\<lparr>buf_known_empty := False\<rparr>) = (write_pongs fs c)\<lparr>buf_known_empty := False\<rparr>"
  by (induction fs arbitrary: c) simp_all

lemma write_pongs_keeps [simp]:
  "futures (write_pongs fs c) = futures c"
  "buf (write_pongs fs c) = buf c"
  "pending_recv (write_pongs fs c) = pending_recv c"
  "unprobeable_recv (write_pongs fs c) = unprobeable_recv c"
  "backlog (write_pongs fs c) = backlog c"
  "pending_callback_msgs (write_pongs fs c) = pending_callback_msgs c"
  "pending_pings (write_pongs fs c) = pending_pings c"
  "handshake_fut (write_pongs fs c) = handshake_fut c"
  "mask_pool (write_pongs fs c) = mask_pool c"
  "rng_pos (write_pongs fs c) = rng_pos c"
  "closed (write_pongs fs c) = closed c"
  "close_code (write_pongs fs c) = close_code c"
  "close_reason (write_pongs fs c) = close_reason c"
  "close_received_code (write_pongs fs c) = close_received_code c"
  "close_received_reason (write_pongs fs c) = close_received_reason c"
  "on_message (write_pongs fs c) = on_message c"
  "transport (write_pongs fs c) = transport c"
  "machine (write_pongs fs c) = machine c"
  "rng (write_pongs fs c) = rng c"
  "fragment_buf (write_pongs fs c) = fragment_buf c"
  "handshake_done (write_pongs fs c) = handshake_done c"
  "fragment_opcode (write_pongs fs c) = fragment_opcode c"
  "fragment_rsv1 (write_pongs fs c) = fragment_rsv1 c"
  "expected_accept (write_pongs fs c) = expected_accept c"
  "deflate (write_pongs fs c) = deflate c"
  "zero_copy_min (write_pongs fs c) = zero_copy_min c"
  by (induction fs arbitrary: c; simp)+

definition flushed :: "(bytes \<times> fut) list \<Rightarrow> bytes list \<Rightarrow> client \<Rightarrow> client" where
  "flushed acks pongs c = write_pongs pongs (acknowledge_all acks c)"

lemma flushed_eq: "flushed acks pongs c = (write_pongs pongs c)\<lparr>futures := ack_heap acks (futures c)\<rparr>"
  by (simp add: flushed_def acknowledge_all_heap)

lemma flushed_Nil [simp]: "flushed [] [] c = c"
  by (simp add: flushed_def acknowledge_all_def)

lemma pop_live_cong:
  "(\<And>i. i \<in> set fs \<Longrightarrow> h i = h' i) \<Longrightarrow> pop_live h fs = pop_live h' fs"
  by (induction fs) (auto split: option.split bool.split)

lemma pop_live_member: "pop_live h fs = (Some i, rest, q) \<Longrightarrow> i \<in> set fs \<and> set rest \<subseteq> set fs"
  by (induction fs arbitrary: q) (auto split: option.splits bool.splits prod.splits)

text \<open>A delivery does not notice effects that are put off, unless the receiver is the future of an
  acknowledged ping.\<close>

lemma deliver_flushed:
  assumes "snd ` set acks \<inter> set (pending_recv c) = {}"
  shows "deliver_message m (flushed acks pongs c) = map_prod id (flushed acks pongs) (deliver_message m c)"
proof (cases "on_message c")
  case True
  then show ?thesis by (simp add: deliver_message_def flushed_eq)
next
  case False
  obtain r rest q where pop: "pop_live (futures c) (pending_recv c) = (r, rest, q)"
    by (cases "pop_live (futures c) (pending_recv c)")
  have pop': "pop_live (ack_heap acks (futures c)) (pending_recv c) = (r, rest, q)"
    using assms pop by (subst pop_live_cong [of _ _ "futures c"]) (auto intro!: ack_heap_other)
  show ?thesis
  proof (cases r)
    case None
    then show ?thesis
      using False pop pop' by (simp add: deliver_message_def take_live_receiver_def flushed_eq)
  next
    case (Some i)
    have i: "i \<notin> snd ` set acks" using pop_live_member [OF pop [unfolded Some]] assms by blast
    then show ?thesis
      using False pop pop' Some
      by (simp add: deliver_message_def take_live_receiver_def flushed_eq set_future_result_def settle_def
          ack_heap_other ack_heap_upd Let_def split: sum.split option.split bool.split)
  qed
qed

section \<open>One event\<close>

text \<open>Clients whose parked receivers are asyncio's own futures, none of them the future of a ping.\<close>

definition ping_futures :: "client \<Rightarrow> fut set" where
  "ping_futures c = (case pending_pings c of None \<Rightarrow> {} | Some pings \<Rightarrow> snd ` set pings)"

definition tame_with :: "fut set \<Rightarrow> client \<Rightarrow> bool" where
  "tame_with acked c \<longleftrightarrow>
     (\<forall>i \<in> set (pending_recv c). asyncio_future (futures c i)) \<and>
     (acked \<union> ping_futures c) \<inter> set (pending_recv c) = {}"

abbreviation tame :: "client \<Rightarrow> bool" where
  "tame \<equiv> tame_with {}"

text \<open>The buffered protocol's own fields, which no handler touches.\<close>

definition set_side :: "bytes \<Rightarrow> nat option \<Rightarrow> client \<Rightarrow> client" where
  "set_side x n c = c\<lparr>recv_buf := x, next_frame_needed := n\<rparr>"

lemma deliver_tame:
  assumes "\<forall>i \<in> set (pending_recv c). asyncio_future (futures c i)"
  shows "\<exists>c'. deliver_message m c = (Inr (), c') \<and> pending_pings c' = pending_pings c \<and>
    set (pending_recv c') \<subseteq> set (pending_recv c) \<and>
    (\<forall>i. asyncio_future (futures c' i) = asyncio_future (futures c i)) \<and>
    protocol_core c' = protocol_core c \<and> (\<forall>d. deliver_message m (with_core c d) = (Inr (), with_core c' d)) \<and>
    (\<forall>x n. deliver_message m (set_side x n c) = (Inr (), set_side x n c')) \<and> on_message c' = on_message c"
proof (cases "on_message c")
  case True
  then show ?thesis by (simp add: deliver_message_def protocol_core_def with_core_def set_side_def)
next
  case False
  obtain r rest q where pop: "pop_live (futures c) (pending_recv c) = (r, rest, q)"
    by (cases "pop_live (futures c) (pending_recv c)")
  show ?thesis
  proof (cases r)
    case None
    with pop have "rest = []" using pop_live_None [of "futures c" "pending_recv c" rest q] by simp
    with None show ?thesis
      using False pop
      by (simp add: deliver_message_def take_live_receiver_def protocol_core_def with_core_def set_side_def)
  next
    case (Some i)
    note mem = pop_live_member [OF pop [unfolded Some]]
    have i: "status (futures c i) = Waiting"
      using pop_live_Some [OF pop [unfolded Some]] by (auto simp: probe_done_Some_iff)
    have "probe (futures c i) = Honest" "rejects (futures c i) = None"
      using mem assms by (auto simp: asyncio_future_def)
    with i mem show ?thesis
      using False pop Some
      by (auto simp: deliver_message_def take_live_receiver_def protocol_core_def with_core_def set_side_def
          set_future_result_def future_done_def settle_def asyncio_future_def)
  qed
qed

lemma encode_flushed:
  "encode_control_frame op p (flushed acks pongs c) =
     map_prod id (flushed acks pongs) (encode_control_frame op p c)"
  by (simp add: encode_control_frame_def encode_control_into_def next_mask_key_def Let_def flushed_eq)

lemma encode_core:
  "encode_control_frame op p (with_core c d) = map_prod id (\<lambda>c. with_core c d) (encode_control_frame op p c)"
  by (simp add: encode_control_frame_def encode_control_into_def next_mask_key_def Let_def with_core_def)

lemma encode_side:
  "encode_control_frame op p (set_side x n c) = map_prod id (set_side x n) (encode_control_frame op p c)"
  by (simp add: encode_control_frame_def encode_control_into_def next_mask_key_def Let_def set_side_def)

lemma encode_keeps:
  "encode_control_frame op p c = (frame, c') \<Longrightarrow>
   pending_pings c' = pending_pings c \<and> pending_recv c' = pending_recv c \<and> futures c' = futures c \<and>
   protocol_core c' = protocol_core c \<and> transport c' = transport c \<and> on_message c' = on_message c"
  by (auto simp: encode_control_frame_def encode_control_into_def next_mask_key_def Let_def protocol_core_def)

lemma write_net_core: "write_net d (with_core c e) = with_core (write_net d c) e"
  by (simp add: write_net_def net_set_def with_core_def)

lemma write_net_side: "write_net d (set_side x n c) = set_side x n (write_net d c)"
  by (simp add: write_net_def net_set_def set_side_def)

lemma set_side_keeps [simp]:
  "futures (set_side x n c) = futures c" "transport (set_side x n c) = transport c"
  "pending_recv (set_side x n c) = pending_recv c" "pending_pings (set_side x n c) = pending_pings c"
  "on_message (set_side x n c) = on_message c" "handshake_done (set_side x n c) = handshake_done c"
  "protocol_core (set_side x n c) = protocol_core c" "set_side x n (set_side y k c) = set_side x n c"
  by (simp_all add: set_side_def protocol_core_def)

lemma set_side_futures: "(set_side x n c)\<lparr>futures := h\<rparr> = set_side x n (c\<lparr>futures := h\<rparr>)"
  by (simp add: set_side_def)

lemma with_core_keeps [simp]:
  "futures (with_core c d) = futures c" "transport (with_core c d) = transport c"
  "pending_recv (with_core c d) = pending_recv c" "pending_pings (with_core c d) = pending_pings c"
  by (simp_all add: with_core_def)

lemma protocol_core_write [simp]: "protocol_core (write_net d c) = protocol_core c"
  by (simp add: protocol_core_def)

lemma protocol_core_futures [simp]: "protocol_core (c\<lparr>futures := h\<rparr>) = protocol_core c"
  by (simp add: protocol_core_def)

lemma with_core_futures: "(with_core c d)\<lparr>futures := h\<rparr> = with_core (c\<lparr>futures := h\<rparr>) d"
  by (simp add: with_core_def)

lemma handle_Message:
  "handle_protocol_event cb (Message m) c =
     Some (map_prod (map_sum id (\<lambda>_. FlowContinue)) id (deliver_message m c))"
  by (auto simp: handle_protocol_event_def deliver_message_def split: prod.split option.split sum.split)

lemma handle_Pong:
  "handle_protocol_event cb (Pong p) c =
     Some (Inr FlowContinue,
       case take_ping p c of (Some i, c') \<Rightarrow> acknowledge p i c' | (None, c') \<Rightarrow> c')"
  by (simp add: handle_protocol_event_def split: prod.split option.split)

lemma handle_SendPong:
  "handle_protocol_event cb (SendPong p) c =
     Some (Inr FlowContinue,
       if transport c then case encode_control_frame OP_PONG p c of (f, c') \<Rightarrow> write_net f c' else c)"
  by (simp add: handle_protocol_event_def transport_write_net split: prod.split)

lemma take_ping_flushed:
  "take_ping p (flushed acks pongs c) = map_prod id (flushed acks pongs) (take_ping p c)"
  by (simp add: take_ping_def flushed_eq split: option.split)

lemma take_ping_core: "take_ping p (with_core c d) = map_prod id (\<lambda>c. with_core c d) (take_ping p c)"
  by (simp add: take_ping_def with_core_def split: option.split)

lemma take_ping_side: "take_ping p (set_side x n c) = map_prod id (set_side x n) (take_ping p c)"
  by (simp add: take_ping_def set_side_def split: option.split)

lemma take_ping_keeps:
  "take_ping p c = (r, c') \<Longrightarrow>
   pending_recv c' = pending_recv c \<and> futures c' = futures c \<and> protocol_core c' = protocol_core c \<and>
   ping_futures c' \<subseteq> ping_futures c \<and> on_message c' = on_message c \<and> (\<forall>i. r = Some i \<longrightarrow> i \<in> ping_futures c)"
  by (force simp: take_ping_def protocol_core_def ping_futures_def remove_key_def
      dest: map_of_SomeD split: option.splits)

lemma acknowledge_flushed:
  "acknowledge p i (flushed acks pongs c) = flushed (acks @ [(p, i)]) pongs c"
  by (simp add: acknowledge_heap flushed_eq ack_heap_snoc)

lemma write_flushed: "write_net f (flushed acks pongs c) = flushed acks (pongs @ [f]) c"
  by (simp add: flushed_def write_pongs_snoc)

text \<open>An event that does not end the connection is handled without a callback and without touching
  what the parser owns.\<close>

lemma handle_quiet:
  assumes "tame c" and "\<not> terminal e"
  shows "\<exists>c'. handle_protocol_event cb e c = Some (Inr FlowContinue, c') \<and> tame c' \<and>
    protocol_core c' = protocol_core c \<and>
    (\<forall>d. handle_protocol_event cb e (with_core c d) = Some (Inr FlowContinue, with_core c' d)) \<and>
    (\<forall>x n. handle_protocol_event cb e (set_side x n c) = Some (Inr FlowContinue, set_side x n c')) \<and>
    on_message c' = on_message c"
proof (cases e)
  case (Message m)
  from assms(1) have "\<forall>i \<in> set (pending_recv c). asyncio_future (futures c i)" by (simp add: tame_with_def)
  from deliver_tame [OF this, of m] obtain c' where
    c': "deliver_message m c = (Inr (), c')" "pending_pings c' = pending_pings c"
      "set (pending_recv c') \<subseteq> set (pending_recv c)"
      "\<forall>i. asyncio_future (futures c' i) = asyncio_future (futures c i)"
      "protocol_core c' = protocol_core c" "\<forall>d. deliver_message m (with_core c d) = (Inr (), with_core c' d)"
      "\<forall>x n. deliver_message m (set_side x n c) = (Inr (), set_side x n c')" "on_message c' = on_message c"
    by blast
  then have "tame c'" using assms(1) by (auto simp: tame_with_def ping_futures_def)
  with c' show ?thesis by (simp add: handle_Message Message)
next
  case (SendPong p)
  obtain f c' where enc: "encode_control_frame OP_PONG p c = (f, c')" by fastforce
  show ?thesis
    using assms(1) encode_keeps [OF enc]
    by (auto simp: handle_SendPong SendPong enc encode_core write_net_core encode_side write_net_side tame_with_def ping_futures_def)
next
  case (Pong p)
  obtain r c' where tp: "take_ping p c = (r, c')" by fastforce
  note keeps = take_ping_keeps [OF tp]
  show ?thesis
  proof (cases r)
    case None
    then show ?thesis
      using assms(1) keeps by (auto simp: handle_Pong Pong tp take_ping_core take_ping_side tame_with_def)
  next
    case (Some i)
    have "tame (acknowledge p i c')"
      using assms(1) keeps
      by (auto simp: tame_with_def ping_futures_def acknowledge_heap ack_one_def asyncio_future_def Let_def)
    then show ?thesis
      using keeps Some
      by (auto simp: handle_Pong Pong tp take_ping_core take_ping_side acknowledge_heap with_core_futures
          set_side_futures)
  qed
qed (use assms in auto)

section \<open>The scan against the event handler\<close>

text \<open>The client as it is once the effects a scan has put off are applied.\<close>

definition caught_up :: "scan \<Rightarrow> client" where
  "caught_up s = flushed (sc_acks s) (sc_pongs s) (sc_client s)"

definition scan_inv :: "scan \<Rightarrow> bool" where
  "scan_inv s \<longleftrightarrow> tame_with (snd ` set (sc_acks s)) (sc_client s)"

lemma scan_visitor_quiet:
  assumes "scan_inv s" and "frame_event f = Some e" and "\<not> terminal e"
  shows "\<exists>s'. scan_visitor CopyMode data f s = (Inr VisitContinue, s') \<and> scan_inv s' \<and>
    sc_close s' = sc_close s \<and>
    handle_protocol_event cb e (caught_up s) = Some (Inr FlowContinue, caught_up s')"
proof (cases e)
  case (Message m)
  with assms(2) have f: "ff_opcode f = OP_TEXT \<or> ff_opcode f = OP_BINARY" "m = ff_payload f"
    by (auto simp: frame_event_def split: if_splits)
  from assms(1) have inv: "\<forall>i \<in> set (pending_recv (sc_client s)). asyncio_future (futures (sc_client s) i)"
    "snd ` set (sc_acks s) \<inter> set (pending_recv (sc_client s)) = {}"
    by (auto simp: scan_inv_def tame_with_def)
  from deliver_tame [OF inv(1), of m] obtain c' where
    c': "deliver_message m (sc_client s) = (Inr (), c')" "pending_pings c' = pending_pings (sc_client s)"
      "set (pending_recv c') \<subseteq> set (pending_recv (sc_client s))"
      "\<forall>i. asyncio_future (futures c' i) = asyncio_future (futures (sc_client s) i)"
    by blast
  have "scan_inv (s\<lparr>sc_client := c'\<rparr>)"
    using assms(1) c' by (auto simp: scan_inv_def tame_with_def ping_futures_def)
  then show ?thesis
    using f c'(1) deliver_flushed [OF inv(2)]
    by (auto simp: scan_visitor_def message_slice_def Let_def Message handle_Message caught_up_def)
next
  case (SendPong p)
  with assms(2) have f: "ff_opcode f = OP_PING" "p = ff_payload f"
    by (auto simp: frame_event_def split: if_splits)
  obtain g c' where enc: "encode_control_frame OP_PONG p (sc_client s) = (g, c')" by fastforce
  have tr: "transport (caught_up s) = transport (sc_client s)" by (simp add: caught_up_def flushed_eq)
  have "scan_inv (s\<lparr>sc_client := c', sc_pongs := sc_pongs s @ [g]\<rparr>)"
    using assms(1) encode_keeps [OF enc] by (auto simp: scan_inv_def tame_with_def ping_futures_def)
  with assms(1) show ?thesis
    using f enc
    by (simp add: scan_visitor_def Let_def SendPong handle_SendPong tr opcode_defs)
      (simp add: caught_up_def encode_flushed write_flushed)
next
  case (Pong p)
  with assms(2) have f: "ff_opcode f = OP_PONG" "p = ff_payload f"
    by (auto simp: frame_event_def split: if_splits)
  obtain r c' where tp: "take_ping p (sc_client s) = (r, c')" by fastforce
  have "scan_inv (s\<lparr>sc_client := c'\<rparr>)"
    "r = Some i \<Longrightarrow> scan_inv (s\<lparr>sc_client := c', sc_acks := sc_acks s @ [(p, i)]\<rparr>)" for i
    using assms(1) take_ping_keeps [OF tp] by (auto simp: scan_inv_def tame_with_def)
  then show ?thesis
    using f tp
    by (cases r) (auto simp: scan_visitor_def Let_def Pong handle_Pong caught_up_def take_ping_flushed
        acknowledge_flushed opcode_defs)
qed (use assms in auto)

lemma scan_visitor_ignored:
  "frame_event f = None \<Longrightarrow> scan_visitor mode data f s = (Inr VisitContinue, s)"
  by (auto simp: scan_visitor_def frame_event_def Let_def split: if_splits)

lemma begin_peer_close_flushed:
  "begin_peer_close code reason (flushed acks pongs c) =
     map_prod id (flushed acks pongs) (begin_peer_close code reason c)"
  by (simp add: begin_peer_close_def take_pending_def pending_futures_def flushed_eq Let_def)

lemma scan_visitor_close:
  assumes "frame_event f = Some e" and "terminal e"
  shows "\<exists>s' pending has_transport. scan_visitor mode data f s = (Inr VisitStop, s') \<and>
    sc_close s' = Some (pending, has_transport) \<and>
    handle_protocol_event cb e (caught_up s) =
      map_option (map_prod (map_sum id (\<lambda>_. FlowStop)) id) (apply_peer_close cb pending has_transport (caught_up s'))"
proof -
  obtain code reason where f: "ff_opcode f = OP_CLOSE" "e = Close code reason"
    "parse_close_payload (ff_payload f) = (code, reason)"
    using assms by (fastforce simp: frame_event_def split: if_splits)
  obtain pending has_transport c' where
    bpc: "begin_peer_close code reason (sc_client s) = ((pending, has_transport), c')"
    by (metis surj_pair)
  then have "begin_peer_close code reason (caught_up s) = ((pending, has_transport), flushed (sc_acks s) (sc_pongs s) c')"
    by (simp add: caught_up_def begin_peer_close_flushed)
  then show ?thesis
    using f bpc
    by (auto simp: scan_visitor_def Let_def opcode_defs handle_protocol_event_def caught_up_def
        map_option_case split: Option.bind_split option.split)
qed

text \<open>A list of events fed to the handler, as \<^verbatim>\<open>emit_protocol_events\<close> does.\<close>

fun handle_events :: "callback \<Rightarrow> ProtocolEvent list \<Rightarrow> client \<Rightarrow> ((PyErr + unit) \<times> client) option" where
  "handle_events cb [] c = Some (Inr (), c)"
| "handle_events cb (e # es) c =
     Option.bind (handle_protocol_event cb e c) (\<lambda>(r, c').
       case r of
         Inl error \<Rightarrow> Some (Inl error, c')
       | Inr FlowStop \<Rightarrow> Some (Inr (), c')
       | Inr FlowContinue \<Rightarrow> handle_events cb es c')"

lemma ended_Cons: "\<not> terminal e \<Longrightarrow> ended (e # es) = ended es"
  by (simp add: ended_def)

lemma visit_simulates:
  assumes "scan_inv s" and "visit_frames (scan_visitor CopyMode data) fs s = (r, s')"
  shows "if ended (events_of_frames fs) then
      \<exists>f pending has_transport. r = Inr (Some f) \<and> sc_close s' = Some (pending, has_transport) \<and>
        handle_events cb (events_of_frames fs) (caught_up s) = apply_peer_close cb pending has_transport (caught_up s')
    else r = Inr None \<and> scan_inv s' \<and> sc_close s' = sc_close s \<and>
      handle_events cb (events_of_frames fs) (caught_up s) = Some (Inr (), caught_up s')"
  using assms
proof (induction fs arbitrary: s)
  case Nil
  then show ?case by (simp add: ended_def)
next
  case (Cons f fs)
  show ?case
  proof (cases "frame_event f")
    case None
    with Cons.IH [OF Cons.prems(1)] Cons.prems(2) show ?thesis
      by (simp add: scan_visitor_ignored split: if_splits)
  next
    case (Some e)
    show ?thesis
    proof (cases "terminal e")
      case True
      from scan_visitor_close [OF Some True, of CopyMode data s cb] obtain s1 pending has_transport where
        s1: "scan_visitor CopyMode data f s = (Inr VisitStop, s1)" "sc_close s1 = Some (pending, has_transport)"
          "handle_protocol_event cb e (caught_up s) = map_option (map_prod (map_sum id (\<lambda>_. FlowStop)) id)
             (apply_peer_close cb pending has_transport (caught_up s1))" by blast
      have "handle_events cb [e] (caught_up s) = apply_peer_close cb pending has_transport (caught_up s1)"
      proof (cases "apply_peer_close cb pending has_transport (caught_up s1)")
        case (Some rc)
        obtain r2 c2 where "rc = (r2, c2)" by fastforce
        with Some show ?thesis by (cases r2) (simp_all add: s1(3))
      qed (simp add: s1(3))
      with Some True s1 Cons.prems(2) show ?thesis by (auto simp: ended_def)
    next
      case False
      from scan_visitor_quiet [OF Cons.prems(1) Some False, of data cb] obtain s1 where
        s1: "scan_visitor CopyMode data f s = (Inr VisitContinue, s1)" "scan_inv s1" "sc_close s1 = sc_close s"
          "handle_protocol_event cb e (caught_up s) = Some (Inr FlowContinue, caught_up s1)" by blast
      with Cons.prems(2) have "visit_frames (scan_visitor CopyMode data) fs s1 = (r, s')" by simp
      from Cons.IH [OF s1(2) this] show ?thesis
        using Some False s1(3,4) by (simp add: ended_Cons split: if_splits)
    qed
  qed
qed

section \<open>The pump over the client\<close>

lemma event_turn_keeps:
  "event_turn inflate c = Inl (e, d) \<Longrightarrow>
     pc_expected_accept d = pc_expected_accept c \<and> pc_compression_enabled d = pc_compression_enabled c \<and>
     pc_handshake_done d = pc_handshake_done c"
  "event_turn inflate c = Inr d \<Longrightarrow>
     pc_expected_accept d = pc_expected_accept c \<and> pc_compression_enabled d = pc_compression_enabled c \<and>
     pc_handshake_done d = pc_handshake_done c"
  by (rule event_turn_cases [of inflate c];
      auto simp: dispatch_def Let_def split: if_splits option.splits prod.splits)+

lemma next_event_keeps:
  "next_event inflate c = (e, d) \<Longrightarrow>
   pc_expected_accept d = pc_expected_accept c \<and> pc_compression_enabled d = pc_compression_enabled c \<and>
   pc_handshake_done d = pc_handshake_done c"
proof (induction c rule: next_event_induct [where inflate = inflate])
  case (Turn c)
  then show ?case
    by (cases "event_turn inflate c")
      (auto simp: next_event_turn [of inflate c] dest: event_turn_keeps)
qed

lemma protocol_core_with_core:
  "pc_expected_accept d = expected_accept c \<Longrightarrow> pc_compression_enabled d = deflate c \<Longrightarrow>
   protocol_core (with_core c d) = d"
  by (simp add: protocol_core_def with_core_def)

lemma with_core_twice [simp]: "with_core (with_core c d) e = with_core c e"
  by (simp add: with_core_def)

lemma with_core_protocol_core [simp]: "with_core c (protocol_core c) = c"
  by (simp add: protocol_core_def with_core_def)

lemma tame_with_core [simp]: "tame_with A (with_core c d) = tame_with A c"
  by (simp add: tame_with_def ping_futures_def)

lemma handle_terminal:
  "terminal e \<Longrightarrow> handle_protocol_event cb e c \<noteq> Some (Inr FlowContinue, c')"
  by (cases e)
    (auto simp: handle_protocol_event_def map_sum_def Let_def split: prod.splits Option.bind_splits sum.splits)

text \<open>The pump handles exactly the events of the buffered bytes, in order.\<close>

lemma drain_run_events:
  assumes "tame c" and "run_events inflate (protocol_core c) = (es, d)"
  shows "drain_events inflate cb c = handle_events cb es (with_core c d)"
  using assms
proof (induction inflate "protocol_core c" arbitrary: c es rule: run_events.induct)
  case (1 inflate)
  obtain o' d1 where ne: "next_event inflate (protocol_core c) = (o', d1)" by fastforce
  have cne: "client_next_event inflate c = (o', with_core c d1)" by (simp add: client_next_event_def ne)
  note unfold = drain_events_def emit_protocol_events.simps [of "client_next_event inflate" _ c] cne
  note run = "1.prems"(2) [unfolded run_events.simps [of inflate "protocol_core c"] ne]
  show ?case
  proof (cases o')
    case None
    with run show ?thesis by (simp add: unfold)
  next
    case (Some e)
    show ?thesis
    proof (cases "terminal e")
      case True
      with run Some have "es = [e]" "d = d1" by auto
      moreover have "r \<noteq> Inr FlowContinue" if "handle_protocol_event cb e (with_core c d1) = Some (r, c2)" for r c2
        using handle_terminal [OF True] that by blast
      ultimately show ?thesis
        using Some by (cases "handle_protocol_event cb e (with_core c d1)")
          (auto simp: unfold split: sum.split EventFlow.split)
    next
      case False
      with run Some obtain es1 where es: "es = e # es1" and run1: "run_events inflate d1 = (es1, d)"
        by (auto simp: map_prod_def split: prod.splits)
      from handle_quiet [OF "1.prems"(1) False, of cb] obtain c' where
        c': "tame c'" "protocol_core c' = protocol_core c"
          "\<And>d. handle_protocol_event cb e (with_core c d) = Some (Inr FlowContinue, with_core c' d)"
        by blast
      have core: "protocol_core (with_core c' d1) = d1"
        using next_event_keeps [OF ne] c'(2)
        by (intro protocol_core_with_core) (simp_all add: protocol_core_def)
      have "drain_events inflate cb (with_core c' d1) = handle_events cb es1 (with_core (with_core c' d1) d)"
        by (rule "1.hyps" [OF _ Some False]) (use ne run1 c'(1) core in simp_all)
      then show ?thesis using Some c'(3) by (simp add: unfold es)
    qed
  qed
qed

lemma handle_events_quiet:
  assumes "tame c" and "list_all (\<lambda>e. \<not> terminal e) es"
  shows "\<exists>c'. handle_events cb es c = Some (Inr (), c') \<and> tame c' \<and> protocol_core c' = protocol_core c \<and>
    (\<forall>es' d. handle_events cb (es @ es') (with_core c d) = handle_events cb es' (with_core c' d)) \<and>
    (\<forall>x n. handle_events cb es (set_side x n c) = Some (Inr (), set_side x n c')) \<and> on_message c' = on_message c"
  using assms
proof (induction es arbitrary: c)
  case (Cons e es)
  from handle_quiet [OF Cons.prems(1), of e cb] Cons.prems(2) obtain c1 where
    c1: "handle_protocol_event cb e c = Some (Inr FlowContinue, c1)" "tame c1" "protocol_core c1 = protocol_core c"
      "\<And>d. handle_protocol_event cb e (with_core c d) = Some (Inr FlowContinue, with_core c1 d)"
      "\<And>x n. handle_protocol_event cb e (set_side x n c) = Some (Inr FlowContinue, set_side x n c1)"
      "on_message c1 = on_message c" by auto
  from Cons.IH [OF c1(2)] Cons.prems(2) obtain c2 where
    c2: "handle_events cb es c1 = Some (Inr (), c2)" "tame c2" "protocol_core c2 = protocol_core c1"
      "\<And>es' d. handle_events cb (es @ es') (with_core c1 d) = handle_events cb es' (with_core c2 d)"
      "\<And>x n. handle_events cb es (set_side x n c1) = Some (Inr (), set_side x n c2)"
      "on_message c2 = on_message c1" by auto
  show ?case using c1 c2 by (intro exI [of _ c2]) simp
qed auto

lemma events_of_frames_quiet:
  "\<not> ended (events_of_frames fs) \<Longrightarrow> list_all (\<lambda>e. \<not> terminal e) (events_of_frames fs)"
  by (induction fs) (auto simp: ended_Cons ended_def [of "[_]"] split: option.splits if_splits)

lemma events_of_frames_close:
  "ended (events_of_frames fs) \<Longrightarrow> \<exists>code reason. Close code reason \<in> set (events_of_frames fs)"
proof (induction fs)
  case (Cons f fs)
  have "\<exists>code reason. e = Close code reason" if "frame_event f = Some e" "terminal e" for e
    using that by (auto simp: frame_event_def split: if_splits)
  with Cons show ?case by (fastforce simp: ended_Cons split: option.splits if_splits)
qed (simp add: ended_def)

lemma split_frames_not_Stopped: "snd (split_frames data off) \<noteq> Stopped k"
proof (induction data off rule: split_frames.induct)
  case (1 data off)
  show ?case
  proof (cases "scan_step data off")
    case (Inl out)
    then show ?thesis
      by (auto simp: split_frames.simps [of data off] scan_step_def split: option.splits if_splits)
  next
    case (Inr p)
    with "1.IH" [OF Inr] show ?thesis by (cases p) (simp add: split_frames.simps [of data off])
  qed
qed

section \<open>Callbacks that do not look at the parse buffer\<close>

lemma fail_pending_buf [simp]: "fail_pending is msg (c\<lparr>buf := b\<rparr>) = (fail_pending is msg c)\<lparr>buf := b\<rparr>"
  by (simp add: fail_pending_heap)

lemma release_references_buf [simp]: "release_references (c\<lparr>buf := b\<rparr>) = (release_references c)\<lparr>buf := b\<rparr>"
  by (simp add: release_references_def)

lemma transport_close_buf [simp]: "transport_close (c\<lparr>buf := b\<rparr>) = (transport_close c)\<lparr>buf := b\<rparr>"
  by (simp add: transport_close_def)

lemma deliver_message_buf:
  "deliver_message m (c\<lparr>buf := b\<rparr>) = map_prod id (buf_update (\<lambda>_. b)) (deliver_message m c)"
  by (cases "pop_live (futures c) (pending_recv c)")
    (simp add: deliver_message_def take_live_receiver_def set_future_result_def settle_def Let_def
      split: option.split sum.split bool.split)

lemma encode_control_frame_buf:
  "encode_control_frame op p (c\<lparr>buf := b\<rparr>) = map_prod id (buf_update (\<lambda>_. b)) (encode_control_frame op p c)"
  by (simp add: encode_control_frame_def encode_control_into_def next_mask_key_def Let_def)

lemma take_ping_buf: "take_ping p (c\<lparr>buf := b\<rparr>) = map_prod id (buf_update (\<lambda>_. b)) (take_ping p c)"
  by (simp add: take_ping_def split: option.split)

lemma begin_peer_close_buf:
  "begin_peer_close code reason (c\<lparr>buf := b\<rparr>) = map_prod id (buf_update (\<lambda>_. b)) (begin_peer_close code reason c)"
  by (simp add: begin_peer_close_def take_pending_def pending_futures_def Let_def)

lemma begin_protocol_error_buf:
  "begin_protocol_error code reason (c\<lparr>buf := b\<rparr>) =
     map_prod id (buf_update (\<lambda>_. b)) (begin_protocol_error code reason c)"
  by (simp add: begin_protocol_error_def take_pending_def pending_futures_def Let_def
      encode_control_frame_def encode_control_into_def next_mask_key_def)

lemma transport_write_call_fst: "fst (transport_write_call d c) = (case write_raises c of Some e \<Rightarrow> Inl e | None \<Rightarrow> Inr ())"
  by (simp add: transport_write_call_def Let_def split: option.split prod.split)

lemma transport_write_call_eq:
  "transport_write_call d c = ((case write_raises c of Some e \<Rightarrow> Inl e | None \<Rightarrow> Inr ()), write_net d c)"
  by (metis prod.collapse transport_write_call_fst transport_write_net)

locale passive_callback =
  fixes cb :: callback
  assumes blind: "cb m (c\<lparr>buf := b\<rparr>) = map_option (map_prod id (buf_update (\<lambda>_. b))) (cb m c)"
begin

lemma flush_loop_blind_Some:
  assumes "flush_loop cb c = Some y"
  shows "flush_loop cb (c\<lparr>buf := b\<rparr>) = Some (map_prod id (buf_update (\<lambda>_. b)) y)"
proof -
  have "f = cb \<longrightarrow> flush_loop f (c\<lparr>buf := b\<rparr>) = Some (map_prod id (buf_update (\<lambda>_. b)) y)"
    if "flush_loop f c = Some y" for f c y
  proof (rule flush_loop.raw_induct [rotated, OF that], intro impI)
    fix flush f c y
    assume IH: "\<And>f c y. flush f c = Some y \<Longrightarrow>
        f = cb \<longrightarrow> flush_loop f (c\<lparr>buf := b\<rparr>) = Some (map_prod id (buf_update (\<lambda>_. b)) y)"
      and body: "(if \<not> on_message c then Some (Inr (), c)
        else case pending_callback_msgs c of [] \<Rightarrow> Some (Inr (), c)
          | msg # rest \<Rightarrow> Option.bind (f msg (c\<lparr>pending_callback_msgs := rest\<rparr>)) (\<lambda>(r, c').
              case r of Inl e \<Rightarrow> Some (Inl e, c') | Inr x \<Rightarrow> flush f c')) = Some y"
      and f: "f = cb"
    show "flush_loop f (c\<lparr>buf := b\<rparr>) = Some (map_prod id (buf_update (\<lambda>_. b)) y)"
    proof (cases "on_message c \<and> pending_callback_msgs c \<noteq> []")
      case False
      with body show ?thesis by (subst flush_loop.simps) (auto split: if_splits list.splits)
    next
      case True
      then obtain m rest where q: "pending_callback_msgs c = m # rest" by (auto simp: neq_Nil_conv)
      with body True obtain r c' where call: "cb m (c\<lparr>pending_callback_msgs := rest\<rparr>) = Some (r, c')"
        and y: "(case r of Inl e \<Rightarrow> Some (Inl e, c') | Inr _ \<Rightarrow> flush f c') = Some y"
        unfolding f by (auto split: Option.bind_splits)
      have "c\<lparr>buf := b, pending_callback_msgs := rest\<rparr> = c\<lparr>pending_callback_msgs := rest, buf := b\<rparr>" by simp
      then have "cb m (c\<lparr>buf := b, pending_callback_msgs := rest\<rparr>) = Some (r, c'\<lparr>buf := b\<rparr>)"
        by (simp only: blind call option.map map_prod_simp id_apply)
      then show ?thesis
        using True q y IH [of f c'] f by (subst flush_loop.simps) (auto split: sum.splits)
    qed
  qed
  with assms show ?thesis by blast
qed

lemma flush_loop_blind:
  "flush_loop cb (c\<lparr>buf := b\<rparr>) = map_option (map_prod id (buf_update (\<lambda>_. b))) (flush_loop cb c)"
proof (cases "flush_loop cb c")
  case None
  have "flush_loop cb (c\<lparr>buf := b\<rparr>) = None"
  proof (rule ccontr)
    assume "flush_loop cb (c\<lparr>buf := b\<rparr>) \<noteq> None"
    then obtain y where "flush_loop cb (c\<lparr>buf := b\<rparr>) = Some y" by auto
    from flush_loop_blind_Some [OF this, of "buf c"] None show False by simp
  qed
  with None show ?thesis by simp
next
  case (Some y)
  from flush_loop_blind_Some [OF this] Some show ?thesis by simp
qed

lemma flush_blind:
  "flush_pending_callbacks cb (c\<lparr>buf := b\<rparr>) =
     map_option (map_prod id (buf_update (\<lambda>_. b))) (flush_pending_callbacks cb c)"
  by (simp add: flush_pending_callbacks_def flush_loop_blind)

lemma apply_peer_close_blind:
  "apply_peer_close cb is t (c\<lparr>buf := b\<rparr>) =
     map_option (map_prod id (buf_update (\<lambda>_. b))) (apply_peer_close cb is t c)"
  by (auto simp: apply_peer_close_def flush_blind Let_def
      split: Option.bind_split)

lemma handle_blind:
  "handle_protocol_event cb e (c\<lparr>buf := b\<rparr>) =
     map_option (map_prod id (buf_update (\<lambda>_. b))) (handle_protocol_event cb e c)"
proof (cases e)
  case (Message m)
  then show ?thesis by (simp add: handle_Message deliver_message_buf prod.map_comp comp_def)
next
  case (SendPong p)
  then show ?thesis
    by (simp add: handle_SendPong encode_control_frame_buf split: prod.split)
next
  case (Pong p)
  then show ?thesis
    by (simp add: handle_Pong take_ping_buf acknowledge_heap split: prod.split option.split)
next
  case (Close code reason)
  obtain pending t c' where "begin_peer_close code reason c = ((pending, t), c')" by (metis surj_pair)
  then show ?thesis
    by (cases "apply_peer_close cb pending t c'")
      (auto simp: Close handle_protocol_event_def begin_peer_close_buf apply_peer_close_blind)
next
  case (ProtocolError code reason)
  obtain pending t g c' where bpe: "begin_protocol_error code reason c = ((pending, t, g), c')"
    by (metis surj_pair)
  show ?thesis
    by (cases "flush_pending_callbacks cb c'")
      (auto simp: ProtocolError handle_protocol_event_def begin_protocol_error_buf bpe flush_blind
        transport_write_call_eq transport_close_def Let_def split: option.split)
qed

lemma handle_events_blind:
  "handle_events cb es (c\<lparr>buf := b\<rparr>) = map_option (map_prod id (buf_update (\<lambda>_. b))) (handle_events cb es c)"
proof (induction es arbitrary: c)
  case (Cons e es)
  show ?case
  proof (cases "handle_protocol_event cb e c")
    case (Some rc)
    obtain r c' where "rc = (r, c')" by fastforce
    with Some Cons show ?thesis by (simp add: handle_blind split: sum.split EventFlow.split)
  qed (simp add: handle_blind)
qed simp

end

section \<open>Zero-copy payloads\<close>

lemma visit_frames_cong:
  "(\<And>f s. f \<in> set fs \<Longrightarrow> v f s = w f s) \<Longrightarrow> visit_frames v fs s = visit_frames w fs s"
  by (induction fs arbitrary: s) (auto split: prod.split sum.split VisitOutcome.split)

lemma scan_frame_aligned_mode:
  "scan_frame_aligned cb data mode c = scan_frame_aligned cb data CopyMode c"
proof -
  have "message_slice mode data n f = ff_payload f" if "f \<in> set (fst (split_frames data 0))" for f n
    using split_frames_member [OF that] by (simp add: message_slice_def Let_def split: PayloadMode.split)
  moreover have "message_slice CopyMode data n f = ff_payload f" for f n
    by (simp add: message_slice_def Let_def)
  ultimately have "scan_visitor mode data f s = scan_visitor CopyMode data f s"
    if "f \<in> set (fst (split_frames data 0))" for f s
    using that by (simp add: scan_visitor_def Let_def)
  then have "visit_frames (scan_visitor mode data) (fst (split_frames data 0)) s =
      visit_frames (scan_visitor CopyMode data) (fst (split_frames data 0)) s" for s
    by (rule visit_frames_cong)
  then show ?thesis by (simp add: scan_frame_aligned_def walk_frames_def walk_frames_from_split)
qed

lemma data_received_inner_pybytes_eq:
  "data_received_inner_pybytes inflate cb data c = data_received_inner inflate cb data c"
  unfolding data_received_inner_pybytes_def data_received_inner_def scan_frame_aligned_mode [of cb data ZeroCopy]
  by simp

section \<open>The fast path against the slow path\<close>

definition scan_start :: "client \<Rightarrow> scan" where
  "scan_start c = \<lparr>sc_client = c, sc_close = None, sc_acks = [], sc_pongs = []\<rparr>"

lemma caught_up_start [simp]: "caught_up (scan_start c) = c"
  by (simp add: caught_up_def scan_start_def)

lemma scan_inv_start [simp]: "scan_inv (scan_start c) = tame c"
  by (simp add: scan_inv_def scan_start_def)

lemma sc_close_start [simp]: "sc_close (scan_start c) = None"
  by (simp add: scan_start_def)

lemma slow_path:
  assumes "tame c" and "handshake_done c"
    and "run_events inflate (protocol_core (c\<lparr>buf := data\<rparr>)) = (es, d)"
  shows "process_buffered_frames inflate cb (c\<lparr>buf := data\<rparr>) = handle_events cb es (with_core c d)"
proof -
  have "tame (c\<lparr>buf := data\<rparr>)" using assms(1) by (simp add: tame_with_def ping_futures_def)
  from drain_run_events [OF this assms(3), of cb]
  have "drain_events inflate cb (c\<lparr>buf := data\<rparr>) = handle_events cb es (with_core c d)"
    by (simp add: with_core_def)
  moreover have "process_handshake (protocol_core (c\<lparr>buf := data\<rparr>)) = (Complete, protocol_core (c\<lparr>buf := data\<rparr>))"
    using assms(2) by (simp add: process_handshake_def protocol_core_def)
  ultimately show ?thesis by (simp add: process_buffered_frames_def)
qed

lemma fast_path_stopped:
  assumes "tame c" and "fast_path_eligible c" and "split_frames data 0 = (fs, out)"
    and "ended (events_of_frames fs)"
  shows "data_received_inner inflate cb data c = handle_events cb (events_of_frames fs) c"
proof -
  obtain r s' where v: "visit_frames (scan_visitor CopyMode data) fs (scan_start c) = (r, s')" by fastforce
  from visit_simulates [OF _ v, of cb] assms(1,4) obtain f pending t where
    sim: "r = Inr (Some f)" "sc_close s' = Some (pending, t)"
      "handle_events cb (events_of_frames fs) c = apply_peer_close cb pending t (caught_up s')" by auto
  have walk: "walk_frames data (scan_visitor CopyMode data) (scan_start c) = (Inr (Stopped (ff_end f)), s')"
    by (simp add: walk_frames_def walk_frames_from_split assms(3) v sim(1))
  show ?thesis
  proof (cases "apply_peer_close cb pending t (caught_up s')")
    case (Some rc)
    obtain r2 c2 where "rc = (r2, c2)" by fastforce
    with Some show ?thesis
      using assms(2) walk sim
      by (cases r2) (simp_all add: data_received_inner_def scan_frame_aligned_def scan_start_def [symmetric]
          park_tail_and_drain_def caught_up_def [symmetric] flushed_def [symmetric])
  next
    case None
    then show ?thesis
      using assms(2) walk sim
      by (simp add: data_received_inner_def scan_frame_aligned_def scan_start_def [symmetric]
          caught_up_def [symmetric] flushed_def [symmetric])
  qed
qed

lemma fast_path_continues:
  assumes "tame c" and "fast_path_eligible c" and "split_frames data 0 = (fs, out)"
    and "\<not> ended (events_of_frames fs)"
  shows "\<exists>c'. handle_events cb (events_of_frames fs) c = Some (Inr (), c') \<and>
    data_received_inner inflate cb data c = park_tail_and_drain inflate cb out data c' \<and>
    scan_frame_aligned cb data CopyMode c = Some (Inr out, c')"
proof -
  obtain r s' where v: "visit_frames (scan_visitor CopyMode data) fs (scan_start c) = (r, s')" by fastforce
  from visit_simulates [OF _ v, of cb] assms(1,4) have
    sim: "r = Inr None" "sc_close s' = None"
      "handle_events cb (events_of_frames fs) c = Some (Inr (), caught_up s')"
    by auto
  have walk: "walk_frames data (scan_visitor CopyMode data) (scan_start c) = (Inr out, s')"
    by (simp add: walk_frames_def walk_frames_from_split assms(3) v sim(1))
  have "scan_frame_aligned cb data CopyMode c = Some (Inr out, caught_up s')"
    using walk sim(2)
    by (simp add: scan_frame_aligned_def scan_start_def [symmetric] caught_up_def flushed_def Let_def
        split: ScanOutcome.split)
  then show ?thesis using assms(2) sim(3) by (simp add: data_received_inner_def)
qed

lemma drain_tail:
  assumes "tame c" and "fast_path_eligible c" and "\<forall>k. out \<noteq> Stopped k" and "scan_consumed out \<le> length data"
    and "run_events inflate (protocol_core (c\<lparr>buf := drop (scan_consumed out) data\<rparr>)) = (es, d)"
  shows "park_tail_and_drain inflate cb out data c = handle_events cb es (with_core c d)"
proof (cases "scan_consumed out < length data")
  case True
  have "buf c = []" "handshake_done c" using assms(2) by (simp_all add: fast_path_eligible_def)
  with True show ?thesis
    using slow_path [OF assms(1) _ assms(5), of cb] assms(3)
    by (cases out) (simp_all add: park_tail_and_drain_def)
next
  case False
  then have "es = [] \<and> d = protocol_core c"
    using assms(2,4,5) event_turn_short [of "protocol_core c" inflate]
    by (simp add: run_events_turn fast_path_eligible_def protocol_core_def MIN_HDR_def)
  with False assms(3) show ?thesis by (cases out) (simp_all add: park_tail_and_drain_def)
qed

text \<open>Both paths handle the events of the read in order.  They differ in one thing: behind a close
  frame the fast path drops the rest of the read, the slow path leaves it in the buffer.\<close>

lemma fast_path_events:
  assumes "tame c" and "fast_path_eligible c"
    and run: "run_events inflate (protocol_core (c\<lparr>buf := data\<rparr>)) = (es, d)"
  shows "data_received_inner inflate cb data c =
      handle_events cb es (if ended (events_of_frames (fst (split_frames data 0))) then c else with_core c d)"
    and "ended (events_of_frames (fst (split_frames data 0))) \<Longrightarrow>
      (\<exists>code reason. Close code reason \<in> set es) \<and> (\<exists>rest. with_core c d = c\<lparr>buf := rest\<rparr>)"
proof -
  obtain fs out where sf: "split_frames data 0 = (fs, out)" by fastforce
  define k where "k = protocol_core (c\<lparr>buf := data\<rparr>)"
  have k: "pc_buf k = drop 0 data" "pc_fragment_buf k = None"
    using assms(2) by (simp_all add: k_def protocol_core_def fast_path_eligible_def)
  note split = split_frames_run_events [OF sf k, of inflate]
  have ended: "es = events_of_frames fs \<and> (\<exists>rest. d = k\<lparr>pc_buf := rest\<rparr>)" if "ended (events_of_frames fs)"
    using split that run by (auto simp: k_def)
  show "(\<exists>code reason. Close code reason \<in> set es) \<and> (\<exists>rest. with_core c d = c\<lparr>buf := rest\<rparr>)"
    if "ended (events_of_frames (fst (split_frames data 0)))"
  proof -
    from ended that obtain rest where "es = events_of_frames fs" "d = k\<lparr>pc_buf := rest\<rparr>" by (auto simp: sf)
    then have "with_core c d = c\<lparr>buf := rest\<rparr>" by (simp add: k_def with_core_def protocol_core_def)
    with events_of_frames_close [of fs] that \<open>es = events_of_frames fs\<close> show ?thesis by (auto simp: sf)
  qed
  show "data_received_inner inflate cb data c =
      handle_events cb es (if ended (events_of_frames (fst (split_frames data 0))) then c else with_core c d)"
  proof (cases "ended (events_of_frames fs)")
    case True
    with fast_path_stopped [OF assms(1,2) sf True] ended [OF True] show ?thesis by (simp add: sf)
  next
    case False
    obtain es2 where es: "es = events_of_frames fs @ es2"
      and run2: "run_events inflate (k\<lparr>pc_buf := drop (scan_consumed out) data\<rparr>) = (es2, d)"
      using split run False by (auto simp: k_def map_prod_def split: prod.splits)
    from fast_path_continues [OF assms(1,2) sf False, of cb inflate] obtain c' where
      fast: "handle_events cb (events_of_frames fs) c = Some (Inr (), c')"
        "data_received_inner inflate cb data c = park_tail_and_drain inflate cb out data c'" by blast
    from handle_events_quiet [OF assms(1) events_of_frames_quiet [OF False], of cb] fast(1) have
      quiet: "tame c'" "protocol_core c' = protocol_core c"
        "handle_events cb es (with_core c d) = handle_events cb es2 (with_core c' d)"
      by (auto simp: es)
    have "fast_path_eligible c'" using quiet(2) assms(2) by (simp add: fast_path_eligible_def protocol_core_def)
    moreover have "protocol_core (c'\<lparr>buf := x\<rparr>) = k\<lparr>pc_buf := x\<rparr>" for x
      using quiet(2) by (simp add: k_def protocol_core_def)
    moreover have "scan_consumed out \<le> length data" "\<forall>k. out \<noteq> Stopped k"
      using split_frames_ok [of 0 data] split_frames_not_Stopped [of data 0] by (simp_all add: sf outcome_ok_def)
    ultimately have "park_tail_and_drain inflate cb out data c' = handle_events cb es2 (with_core c' d)"
      using quiet(1) run2 by (intro drain_tail) simp_all
    then show ?thesis using False fast(2) quiet(3) by (simp add: sf)
  qed
qed

section \<open>Callbacks written against the client's own interface\<close>

text \<open>A callback that answers each message with some calls of the client's methods; an exception of
  one of them ends it.\<close>

datatype ApiCall =
    CallSend PyMsg
  | CallPing "bytes option"
  | CallPong "bytes option"
  | CallClose
  | CallRecv
  | CallAnext
  | CallCancel fut

definition api_call :: "'z compressor \<Rightarrow> ApiCall \<Rightarrow> client \<Rightarrow> ((PyErr + unit) \<times> client) option" where
  "api_call cz call c =
     (case call of
        CallSend m \<Rightarrow> send cz m c
      | CallPing d \<Rightarrow> Some (ping d c)
      | CallPong d \<Rightarrow> Some (pong d c)
      | CallClose \<Rightarrow> Some (Inr (), close c)
      | CallRecv \<Rightarrow> Some (map_prod (map_sum id (\<lambda>_. ())) id (recv c))
      | CallAnext \<Rightarrow> Some (map_prod (map_sum id (\<lambda>_. ())) id (anext c))
      | CallCancel i \<Rightarrow> Some (Inr (), cancel_future i c))"

fun run_calls :: "'z compressor \<Rightarrow> ApiCall list \<Rightarrow> client \<Rightarrow> ((PyErr + unit) \<times> client) option" where
  "run_calls cz [] c = Some (Inr (), c)"
| "run_calls cz (call # calls) c =
     Option.bind (api_call cz call c) (\<lambda>(r, c').
       case r of Inl e \<Rightarrow> Some (Inl e, c') | Inr _ \<Rightarrow> run_calls cz calls c')"

definition scripted :: "'z compressor \<Rightarrow> (bytes \<Rightarrow> ApiCall list) \<Rightarrow> callback" where
  "scripted cz script m c = run_calls cz (script m) c"

lemma next_mask_key_buf: "next_mask_key (c\<lparr>buf := b\<rparr>) = map_prod id (buf_update (\<lambda>_. b)) (next_mask_key c)"
  by (simp add: next_mask_key_def Let_def)

lemma transport_write_call_buf:
  "transport_write_call d (c\<lparr>buf := b\<rparr>) = map_prod id (buf_update (\<lambda>_. b)) (transport_write_call d c)"
  by (simp add: transport_write_call_eq)

lemma transport_write_invalidated_buf:
  "transport_write_call d (c\<lparr>buf := b, buf_known_empty := False\<rparr>) =
     map_prod id (buf_update (\<lambda>_. b)) (transport_write_call d (c\<lparr>buf_known_empty := False\<rparr>))"
  by (simp add: transport_write_call_eq)

lemma check_drained_buf: "check_drained (c\<lparr>buf := b\<rparr>) = map_prod id (buf_update (\<lambda>_. b)) (check_drained c)"
  by (simp add: check_drained_def)

lemma send_scratch_buf:
  "send_scratch h p k (c\<lparr>buf := b\<rparr>) = map_prod id (map_prod id (buf_update (\<lambda>_. b))) (send_scratch h p k c)"
proof -
  have keep: "send_buf (c\<lparr>buf := b\<rparr>) = send_buf c" "machine (c\<lparr>buf := b\<rparr>) = machine c" by simp_all
  have "native_send d (c\<lparr>buf := b, send_buf := x\<rparr>) =
      map_prod id (buf_update (\<lambda>_. b)) (native_send d (c\<lparr>send_buf := x\<rparr>))" for d x
    by (simp add: native_send_def send_result_def)
  then show ?thesis
    unfolding send_scratch_def Let_def keep by (simp only: map_prod_def split_def fst_conv snd_conv id_apply)
qed

lemma send_merged_buf:
  "send_merged h p k (c\<lparr>buf := b\<rparr>) = map_prod id (buf_update (\<lambda>_. b)) (send_merged h p k c)"
  by (simp add: send_merged_def build_merged_frame_def transport_write_invalidated_buf)

lemma send_frame_buf:
  "send_frame op p (c\<lparr>buf := b\<rparr>) = map_prod id (buf_update (\<lambda>_. b)) (send_frame op p c)"
proof -
  obtain k c1 where mk: "next_mask_key c = (k, c1)" by fastforce
  obtain dr c2 where cd: "check_drained c1 = (dr, c2)" by fastforce
  obtain n fr c3 where ss: "send_scratch (send_header op (deflate c1) (length p) k) p k c2 = (n, fr, c3)"
    by (metis surj_pair)
  show ?thesis
    by (simp add: send_frame_def next_mask_key_buf mk Let_def check_drained_buf cd send_scratch_buf ss
        send_merged_buf build_merged_frame_def transport_write_invalidated_buf split: bool.split)
qed

lemma send_buf_blind:
  "send cz m (c\<lparr>buf := b\<rparr>) = map_option (map_prod id (buf_update (\<lambda>_. b))) (send cz m c)"
proof (cases "message_payload m")
  case (Inl e)
  then show ?thesis by (simp add: send_def)
next
  case (Inr po)
  obtain raw op where "po = (raw, op)" by fastforce
  with Inr show ?thesis
    by (cases "deflate_message cz raw") (simp_all add: send_def send_frame_buf split: sum.split)
qed

lemma send_control_buf:
  "send_control op w d (c\<lparr>buf := b\<rparr>) = map_prod id (buf_update (\<lambda>_. b)) (send_control op w d c)"
  by (simp add: send_control_def encode_control_frame_buf transport_write_call_buf Let_def split: prod.split)

lemma take_pending_buf: "take_pending (c\<lparr>buf := b\<rparr>) = map_prod id (buf_update (\<lambda>_. b)) (take_pending c)"
  by (simp add: take_pending_def pending_futures_def)

lemma close_buf: "close (c\<lparr>buf := b\<rparr>) = (close c)\<lparr>buf := b\<rparr>"
proof -
  define r where "r = release_references (c\<lparr>closed := True, transport := False\<rparr>)"
  have r: "release_references (c\<lparr>buf := b, closed := True, transport := False\<rparr>) = r\<lparr>buf := b\<rparr>"
    by (simp add: r_def release_references_def)
  obtain p c2 where tp: "take_pending r = (p, c2)" by fastforce
  show ?thesis
    unfolding close_def Let_def r r_def [symmetric]
    by (simp add: take_pending_buf tp transport_write_call_buf)
qed

lemma wait_for_message_buf:
  "wait_for_message (c\<lparr>buf := b\<rparr>) = map_prod id (buf_update (\<lambda>_. b)) (wait_for_message c)"
  by (simp add: wait_for_message_def call_create_future_def park_receiver_def Let_def split: sum.split)

lemma recv_buf:
  "recv (c\<lparr>buf := b\<rparr>) = map_prod id (buf_update (\<lambda>_. b)) (recv c)"
  "anext (c\<lparr>buf := b\<rparr>) = map_prod id (buf_update (\<lambda>_. b)) (anext c)"
  by (auto simp: recv_def anext_def wait_for_message_buf split: list.split)

lemma api_call_blind:
  "api_call cz call (c\<lparr>buf := b\<rparr>) = map_option (map_prod id (buf_update (\<lambda>_. b))) (api_call cz call c)"
  by (cases call) (simp_all add: api_call_def send_buf_blind ping_def pong_def send_control_buf close_buf recv_buf
      cancel_future_def prod.map_comp comp_def)

lemma run_calls_blind:
  "run_calls cz calls (c\<lparr>buf := b\<rparr>) = map_option (map_prod id (buf_update (\<lambda>_. b))) (run_calls cz calls c)"
proof (induction calls arbitrary: c)
  case (Cons call calls)
  show ?case
  proof (cases "api_call cz call c")
    case (Some rc)
    obtain r c' where "rc = (r, c')" by fastforce
    with Some Cons show ?thesis by (simp add: api_call_blind split: sum.split)
  qed (simp add: api_call_blind)
qed simp

interpretation scripted: passive_callback "scripted cz script" for cz script
  by unfold_locales (simp add: scripted_def run_calls_blind)

section \<open>Properties\<close>

text \<open>C20 Zero-copy delivery is invisible: whichever way a scan hands out payloads, as copies, as slices
  of the read buffer or as slices of a Python bytes object, the client ends up the same, and a
  bytes object is received like any other buffer with the same content.\<close>

theorem zero_copy_transparent:
  "scan_frame_aligned cb data mode c = scan_frame_aligned cb data CopyMode c \<and>
   data_received inflate cb (BytesObject (b # bs)) c = data_received inflate cb (FlatBuffer (b # bs)) c"
  using scan_frame_aligned_mode [of cb data mode c]
  by (simp add: data_received_def data_received_plaintext_def data_received_inner_pybytes_eq)

text \<open>C2 The two receive paths agree: on a connection with nothing parked, scanning a read in place
  (deliver at once, acknowledge and pong at the end, close last) has the same result and the same
  effects as parking the bytes and handling them event by event.  The only difference is what is
  left in the parse buffer behind a close frame.  The receivers are asyncio futures, distinct from
  those of pings, and the callback does not look at the parse buffer.\<close>

theorem receive_paths_agree:
  assumes "passive_callback cb" and "tame c" and "fast_path_eligible c"
  shows "map_option (map_prod id (buf_update (\<lambda>_. []))) (data_received_inner inflate cb data c) =
      map_option (map_prod id (buf_update (\<lambda>_. []))) (process_buffered_frames inflate cb (c\<lparr>buf := data\<rparr>)) \<and>
    ((\<forall>code reason. Close code reason \<notin> set (fst (run_events inflate (protocol_core (c\<lparr>buf := data\<rparr>))))) \<longrightarrow>
      data_received_inner inflate cb data c = process_buffered_frames inflate cb (c\<lparr>buf := data\<rparr>))"
proof -
  obtain es d where run: "run_events inflate (protocol_core (c\<lparr>buf := data\<rparr>)) = (es, d)" by fastforce
  have slow: "process_buffered_frames inflate cb (c\<lparr>buf := data\<rparr>) = handle_events cb es (with_core c d)"
    using assms by (intro slow_path [OF _ _ run]) (simp_all add: fast_path_eligible_def)
  note fast = fast_path_events(1) [OF assms(2,3) run, of cb] fast_path_events(2) [OF assms(2,3) run]
  show ?thesis
  proof (cases "ended (events_of_frames (fst (split_frames data 0)))")
    case True
    with fast(2) obtain rest where "with_core c d = c\<lparr>buf := rest\<rparr>" by blast
    then have "process_buffered_frames inflate cb (c\<lparr>buf := data\<rparr>) =
        map_option (map_prod id (buf_update (\<lambda>_. rest))) (handle_events cb es c)"
      by (simp add: slow passive_callback.handle_events_blind [OF assms(1)])
    with True fast(2) show ?thesis
      by (cases "handle_events cb es c") (auto simp: fast(1) run)
  next
    case False
    then show ?thesis by (simp add: fast(1) slow)
  qed
qed

theorem receive_paths_agree_witness:
  "data_received_inner (\<lambda>b. (b, False)) (\<lambda>m c. Some (Inr (), c)) [0x82, 1, 65, 0x89, 1, 7, 0x82] demo_client =
   process_buffered_frames (\<lambda>b. (b, False)) (\<lambda>m c. Some (Inr (), c)) (demo_client\<lparr>buf := [0x82, 1, 65, 0x89, 1, 7, 0x82]\<rparr>)"
proof -
  have "passive_callback (\<lambda>m c. Some (Inr (), c))" by unfold_locales simp
  moreover have "tame demo_client" "fast_path_eligible demo_client"
    by (simp_all add: tame_with_def ping_futures_def fast_path_eligible_def demo_client_def connect_state_def)
  moreover have "protocol_core (demo_client\<lparr>buf := d\<rparr>) = idle_core d" for d
    by (simp add: protocol_core_def demo_client_def connect_state_def idle_core_def)
  moreover have "fst (run_events (\<lambda>b. (b, False)) (idle_core [0x82, 1, 65, 0x89, 1, 7, 0x82])) =
      [Message [65], SendPong [7]]"
    by (simp add: run_events.simps event_eval)
  ultimately show ?thesis
    using receive_paths_agree [of "\<lambda>m c. Some (Inr (), c)" demo_client "\<lambda>b. (b, False)"
        "[0x82, 1, 65, 0x89, 1, 7, 0x82]"] by simp
qed

end
