(* ===== verification/Client_Stream.thy ===== *)
theory Client_Stream
  imports Client_Paths
begin

text \<open>
  A whole stream of reads against the events of its bytes, for both protocols: \<^verbatim>\<open>NativeClient\<close>,
  which gets each read as an object, and \<^verbatim>\<open>NativeClientBuffered\<close>, which has the event loop write
  into its own buffer and skips parse passes that cannot complete a frame.
\<close>

section \<open>A parser with nothing left to report\<close>

definition settled :: "inflater \<Rightarrow> ProtocolCore \<Rightarrow> bool" where
  "settled inflate k \<longleftrightarrow> run_events inflate k = ([], k)"

lemma next_event_None_settled: "next_event inflate c = (None, d) \<Longrightarrow> next_event inflate d = (None, d)"
proof (induction c rule: next_event_induct [where inflate = inflate])
  case (Turn c)
  show ?case
  proof (cases "event_turn inflate c")
    case (Inl r)
    with Turn.prems have "event_turn inflate c = Inl (None, d)" by (simp add: next_event_turn [of inflate c])
    moreover from event_turn_NoneD [OF this] have "d = c" .
    ultimately show ?thesis by (simp add: next_event_turn [of inflate c])
  next
    case (Inr c')
    with Turn show ?thesis by (simp add: next_event_turn [of inflate c])
  qed
qed

lemma run_events_settles:
  "run_events inflate c = (es, d) \<Longrightarrow> \<not> ended es \<Longrightarrow> settled inflate d"
proof (induction inflate c arbitrary: es rule: run_events.induct)
  case (1 inflate c)
  obtain o' d1 where ne: "next_event inflate c = (o', d1)" by fastforce
  note run = "1.prems"(1) [unfolded run_events.simps [of inflate c] ne]
  show ?case
  proof (cases o')
    case None
    with run have "d = d1" by simp
    with next_event_None_settled [OF ne [unfolded None]] show ?thesis
      by (simp add: settled_def run_events.simps [of inflate d1])
  next
    case (Some e)
    have "\<not> terminal e" using run Some "1.prems"(2) by (auto simp: ended_def)
    with run Some obtain es1 where es: "es = e # es1" "run_events inflate d1 = (es1, d)"
      by (auto simp: map_prod_def split: prod.splits)
    from "1.IH" [OF ne [symmetric] Some \<open>\<not> terminal e\<close> es(2)] "1.prems"(2) es(1) \<open>\<not> terminal e\<close> show ?thesis
      by (simp add: ended_Cons)
  qed
qed

lemma run_events_keeps:
  "run_events inflate c = (es, d) \<Longrightarrow>
   pc_expected_accept d = pc_expected_accept c \<and> pc_compression_enabled d = pc_compression_enabled c \<and>
   pc_handshake_done d = pc_handshake_done c"
proof (induction inflate c arbitrary: es rule: run_events.induct)
  case (1 inflate c)
  obtain o' d1 where ne: "next_event inflate c = (o', d1)" by fastforce
  note run = "1.prems" [unfolded run_events.simps [of inflate c] ne]
  show ?case
  proof (cases "\<exists>e. o' = Some e \<and> \<not> terminal e")
    case True
    then obtain e where e: "o' = Some e" "\<not> terminal e" by blast
    with run obtain es1 where "run_events inflate d1 = (es1, d)"
      by (auto simp: map_prod_def split: prod.splits)
    from "1.IH" [OF ne [symmetric] e this] next_event_keeps [OF ne] show ?thesis by simp
  next
    case False
    with run next_event_keeps [OF ne] show ?thesis by (auto split: option.splits if_splits)
  qed
qed

lemma run_events_quiet: "run_events inflate c = (es, d) \<Longrightarrow> \<not> ended es \<Longrightarrow> list_all (\<lambda>e. \<not> terminal e) es"
proof (induction inflate c arbitrary: es rule: run_events.induct)
  case (1 inflate c)
  obtain o' d1 where ne: "next_event inflate c = (o', d1)" by fastforce
  note run = "1.prems"(1) [unfolded run_events.simps [of inflate c] ne]
  show ?case
  proof (cases o')
    case (Some e)
    have "\<not> terminal e" using run Some "1.prems"(2) by (auto simp: ended_def)
    with run Some obtain es1 where es: "es = e # es1" "run_events inflate d1 = (es1, d)"
      by (auto simp: map_prod_def split: prod.splits)
    from "1.IH" [OF ne [symmetric] Some \<open>\<not> terminal e\<close> es(2)] "1.prems"(2) es(1) \<open>\<not> terminal e\<close> show ?thesis
      by (simp add: ended_Cons)
  qed (use run in simp)
qed

section \<open>One read\<close>

text \<open>A connection past its handshake that hands its messages to futures.\<close>

definition streaming :: "client \<Rightarrow> bool" where
  "streaming c \<longleftrightarrow> tame c \<and> handshake_done c \<and> \<not> on_message c"

lemma data_received_inner_events:
  assumes "streaming c" and "run_events inflate (ext data (protocol_core c)) = (es, d)" and "\<not> ended es"
  shows "\<exists>c'. handle_events cb es c = Some (Inr (), c') \<and> streaming c' \<and> protocol_core c' = protocol_core c \<and>
    (\<forall>x n. handle_events cb es (set_side x n c) = Some (Inr (), set_side x n c')) \<and>
    data_received_inner inflate cb data c = Some (Inr (), with_core c' d)"
proof -
  have tame: "tame c" using assms(1) by (simp add: streaming_def)
  note quiet = run_events_quiet [OF assms(2,3)]
  from handle_events_quiet [OF tame quiet, of cb] obtain c' where
    c': "handle_events cb es c = Some (Inr (), c')" "tame c'" "protocol_core c' = protocol_core c"
      "\<And>es' d. handle_events cb (es @ es') (with_core c d) = handle_events cb es' (with_core c' d)"
      "\<forall>x n. handle_events cb es (set_side x n c) = Some (Inr (), set_side x n c')"
      "on_message c' = on_message c" by blast
  have core: "protocol_core (c\<lparr>buf := buf c @ data\<rparr>) = ext data (protocol_core c)"
    by (simp add: protocol_core_def ext_def)
  note run = assms(2) [folded core]
  have "data_received_inner inflate cb data c = handle_events cb es (with_core c d)"
  proof (cases "fast_path_eligible c")
    case True
    then have "buf c @ data = data" by (simp add: fast_path_eligible_def)
    note run' = run [unfolded this]
    have "\<not> ended (events_of_frames (fst (split_frames data 0)))"
      using fast_path_events(2) [OF tame True run'] quiet by (force simp: list_all_iff)
    then show ?thesis using fast_path_events(1) [OF tame True run', of cb] by simp
  next
    case False
    have "tame_with {} c" "handshake_done c" using assms(1) by (simp_all add: streaming_def)
    from slow_path [OF this run, of cb] False show ?thesis by (simp add: data_received_inner_def)
  qed
  with c'(4) [of "[]" d] have "data_received_inner inflate cb data c = Some (Inr (), with_core c' d)" by simp
  moreover have "handshake_done c'" using assms(1) c'(3) by (simp add: streaming_def protocol_core_def)
  ultimately show ?thesis using c' assms(1) by (auto simp: streaming_def)
qed

section \<open>A stream of reads\<close>

fun receive_all :: "inflater \<Rightarrow> callback \<Rightarrow> bytes list \<Rightarrow> client \<Rightarrow> ((PyErr + unit) \<times> client) option" where
  "receive_all inflate cb [] c = Some (Inr (), c)"
| "receive_all inflate cb (data # reads) c =
     Option.bind (data_received_plaintext inflate cb data c) (\<lambda>(r, c').
       case r of Inl e \<Rightarrow> Some (Inl e, c') | Inr _ \<Rightarrow> receive_all inflate cb reads c')"

fun buffer_all :: "inflater \<Rightarrow> callback \<Rightarrow> bytes list \<Rightarrow> client \<Rightarrow> ((PyErr + unit) \<times> client) option" where
  "buffer_all inflate cb [] c = Some (Inr (), c)"
| "buffer_all inflate cb (data # reads) c =
     Option.bind (buffer_updated inflate cb data c) (\<lambda>(r, c').
       case r of Inl e \<Rightarrow> Some (Inl e, c') | Inr _ \<Rightarrow> buffer_all inflate cb reads c')"

lemma flush_no_callback: "\<not> on_message c \<Longrightarrow> flush_pending_callbacks cb c = Some (Inr (), c)"
  by (simp add: flush_pending_callbacks_def)

lemma streaming_with_core: "streaming c \<Longrightarrow> pc_handshake_done d \<Longrightarrow> streaming (with_core c d)"
  by (simp add: streaming_def with_core_def tame_with_def ping_futures_def)

lemma streaming_on_message: "streaming c \<Longrightarrow> \<not> on_message c"
  by (simp add: streaming_def)

lemma on_message_with_core [simp]: "on_message (with_core c d) = on_message c"
  by (simp add: with_core_def)

lemma receive_one:
  assumes "streaming c" and "settled inflate (protocol_core c)"
    and run: "run_events inflate (ext data (protocol_core c)) = (es, d)" and "\<not> ended es"
  shows "\<exists>c'. handle_events cb es c = Some (Inr (), c') \<and> streaming c' \<and> protocol_core c' = protocol_core c \<and>
    data_received_plaintext inflate cb data c = Some (Inr (), with_core c' d) \<and>
    streaming (with_core c' d) \<and> protocol_core (with_core c' d) = d \<and> settled inflate d"
proof -
  from data_received_inner_events [OF assms(1) run assms(4), of cb] obtain c' where
    c': "handle_events cb es c = Some (Inr (), c')" "streaming c'" "protocol_core c' = protocol_core c"
      "data_received_inner inflate cb data c = Some (Inr (), with_core c' d)" by blast
  note keeps = run_events_keeps [OF run]
  have core: "protocol_core (with_core c' d) = d"
    using keeps c'(3) by (intro protocol_core_with_core) (simp_all add: protocol_core_def ext_def)
  have str: "streaming (with_core c' d)"
    using c'(2,3) keeps assms(1) by (intro streaming_with_core) (simp_all add: streaming_def ext_def protocol_core_def)
  have "data_received_plaintext inflate cb data c = Some (Inr (), with_core c' d)"
  proof (cases "data = []")
    case True
    with run assms(2) have "es = []" "d = protocol_core c" by (simp_all add: settled_def)
    with c'(1) assms(1) True show ?thesis
      by (simp add: data_received_plaintext_def then_flush_def flush_no_callback streaming_on_message)
  next
    case False
    with c'(4) streaming_on_message [OF c'(2)] show ?thesis
      by (simp add: data_received_plaintext_def then_flush_def flush_no_callback streaming_on_message)
  qed
  with c' core str run_events_settles [OF run assms(4)] show ?thesis by blast
qed

lemma handle_events_append:
  assumes "streaming c" and "list_all (\<lambda>e. \<not> terminal e) es" and "handle_events cb es c = Some (Inr (), c')"
  shows "handle_events cb (es @ es') (with_core c d) = handle_events cb es' (with_core c' d)"
  using handle_events_quiet [of c es cb] assms by (auto simp: streaming_def)

lemma handle_events_append_same:
  assumes "streaming c" and "list_all (\<lambda>e. \<not> terminal e) es" and "handle_events cb es c = Some (Inr (), c')"
  shows "handle_events cb (es @ es') c = handle_events cb es' c'"
proof -
  have "protocol_core c' = protocol_core c"
    using handle_events_quiet [of c es cb] assms by (auto simp: streaming_def)
  with handle_events_append [OF assms, of es' "protocol_core c"] show ?thesis
    by (metis with_core_protocol_core)
qed

lemma receive_all_events:
  assumes "streaming c" and "settled inflate (protocol_core c)"
    and "run_events inflate (ext (concat reads) (protocol_core c)) = (es, d)" and "\<not> ended es"
  shows "receive_all inflate cb reads c = handle_events cb es (with_core c d)"
  using assms
proof (induction reads arbitrary: c es)
  case Nil
  then show ?case by (auto simp: settled_def)
next
  case (Cons data reads)
  obtain es1 d1 where run1: "run_events inflate (ext data (protocol_core c)) = (es1, d1)" by fastforce
  have ext: "ext (concat (data # reads)) (protocol_core c) = ext (concat reads) (ext data (protocol_core c))"
    by (simp add: ext_def)
  obtain es2 d2 where run2: "run_events inflate (ext (concat reads) d1) = (es2, d2)" by fastforce
  have "(if ended es1 then (es1, ext (concat reads) d1) else (es1 @ es2, d2)) = (es, d)"
    using Cons.prems(3) unfolding ext run_events_append [of inflate "concat reads" "ext data (protocol_core c)"]
    by (simp add: run1 run2 split: if_splits)
  with Cons.prems(4) have ne1: "\<not> ended es1" and es: "es = es1 @ es2" and "d2 = d" by (auto split: if_splits)
  from receive_one [OF Cons.prems(1,2) run1 ne1, of cb] obtain c1 where
    c1: "handle_events cb es1 c = Some (Inr (), c1)" "streaming c1"
      "data_received_plaintext inflate cb data c = Some (Inr (), with_core c1 d1)"
      "streaming (with_core c1 d1)" "protocol_core (with_core c1 d1) = d1" "settled inflate d1" by blast
  have "\<not> ended es2" using Cons.prems(4) es by (cases "es2 = []") (auto simp: ended_def)
  with Cons.IH [OF c1(4)] c1(5,6) run2 \<open>d2 = d\<close>
  have "receive_all inflate cb reads (with_core c1 d1) = handle_events cb es2 (with_core c1 d)" by simp
  moreover have "handle_events cb es (with_core c d) = handle_events cb es2 (with_core c1 d)"
    unfolding es by (rule handle_events_append [OF Cons.prems(1) run_events_quiet [OF run1 ne1] c1(1)])
  ultimately show ?case by (simp add: c1(3))
qed

section \<open>The buffered protocol\<close>

text \<open>The parser state with the bytes that still sit in the receive buffer, and the client as the
  plain protocol would have it.\<close>

definition unread :: "client \<Rightarrow> ProtocolCore" where
  "unread c = ext (recv_buf c) (protocol_core c)"

definition as_plain :: "client \<Rightarrow> client" where
  "as_plain c = (set_side [] None c)\<lparr>buf := buf c @ recv_buf c\<rparr>"

text \<open>The gate is right: the number of bytes it waits for is what the frame at the front needs.\<close>

definition gate_ok :: "client \<Rightarrow> bool" where
  "gate_ok c \<longleftrightarrow>
     (case next_frame_needed c of None \<Rightarrow> True | Some n \<Rightarrow> split_frames (recv_buf c) 0 = ([], Partial 0 n))"

definition buffered :: "inflater \<Rightarrow> client \<Rightarrow> bool" where
  "buffered inflate c \<longleftrightarrow>
     streaming c \<and> (recv_buf c \<noteq> [] \<longrightarrow> fast_path_eligible c) \<and> settled inflate (unread c) \<and> gate_ok c"

lemma split_frames_Partial_0_iff:
  "split_frames x 0 = ([], Partial 0 n) \<longleftrightarrow> scan_step x 0 = Inl (Partial 0 n)"
  by (auto simp: split_frames.simps [of x 0] map_prod_def split: sum.splits prod.splits)

lemma gate_waits:
  assumes "split_frames x 0 = ([], Partial 0 n)" and "length (x @ w) < n"
  shows "split_frames (x @ w) 0 = ([], Partial 0 n) \<and> x \<noteq> []"
proof -
  from assms(1) have st: "scan_step x 0 = Inl (Partial 0 n)" by (simp add: split_frames_Partial_0_iff)
  then obtain fin rsv1 opcode plen hdr where
    ph: "parse_header x = Some (fin, rsv1, opcode, plen, hdr)" "plen \<le> MAX_FRAME_SIZE" "n = hdr + plen"
    by (auto simp: scan_step_def split: option.splits if_splits)
  have "scan_step (x @ w) 0 = Inl (Partial 0 n)"
    using ph assms(2) by (simp add: scan_step_def parse_header_append)
  moreover have "x \<noteq> []" using ph(1) by (auto simp: parse_header_def MIN_HDR_def)
  ultimately show ?thesis by (simp add: split_frames_Partial_0_iff)
qed

lemma split_frames_Partial_rest:
  "split_frames data off = (fs, Partial k n) \<Longrightarrow> split_frames (drop k data) 0 = ([], Partial 0 n)"
proof (induction data off arbitrary: fs rule: split_frames.induct)
  case (1 data off)
  show ?case
  proof (cases "scan_step data off")
    case (Inl out)
    with "1.prems" have "scan_step data off = Inl (Partial k n)" by (simp add: split_frames.simps [of data off])
    then have "scan_step (drop k data) 0 = Inl (Partial 0 n)"
      by (auto simp: scan_step_def split: option.splits if_splits)
    then show ?thesis by (simp add: split_frames_Partial_0_iff)
  next
    case (Inr p)
    obtain f off' where step: "scan_step data off = Inr (f, off')" using Inr by (cases p) auto
    with "1.prems" obtain fs' where "split_frames data off' = (fs', Partial k n)"
      by (auto simp: split_frames.simps [of data off] map_prod_def split: prod.splits)
    from "1.IH" [OF step refl this] show ?thesis .
  qed
qed

text \<open>What one read does, in terms of the events of the bytes that were unread before it.\<close>

definition buffered_step :: "inflater \<Rightarrow> ProtocolCore \<Rightarrow> client \<Rightarrow> ((PyErr + unit) \<times> client) option \<Rightarrow> bool" where
  "buffered_step inflate d c' result \<longleftrightarrow>
     (\<exists>c2. result = Some (Inr (), c2) \<and> as_plain c2 = with_core (set_side [] None c') d \<and>
       unread c2 = d \<and> buffered inflate c2)"

lemma buffered_stepI:
  assumes "result = Some (Inr (), set_side x n (with_core c' (d\<lparr>pc_buf := b\<rparr>)))" and "pc_buf d = b @ x"
    and "streaming c'" and "pc_handshake_done d" and "settled inflate d"
    and "pc_expected_accept d = expected_accept c'" and "pc_compression_enabled d = deflate c'"
    and "x \<noteq> [] \<Longrightarrow> b = [] \<and> pc_fragment_buf d = None"
    and "\<And>k. n = Some k \<Longrightarrow> split_frames x 0 = ([], Partial 0 k)"
  shows "buffered_step inflate d c' result"
proof -
  define c2 where "c2 = set_side x n (with_core c' (d\<lparr>pc_buf := b\<rparr>))"
  have u: "unread c2 = d"
    using assms(2,6,7) by (simp add: c2_def unread_def protocol_core_with_core ext_def)
      (simp add: set_side_def)
  have "as_plain c2 = with_core (set_side [] None c') d"
    using assms(2) by (simp add: c2_def as_plain_def set_side_def with_core_def)
  moreover have "streaming c2" using assms(3,4)
    by (simp add: c2_def streaming_def tame_with_def ping_futures_def with_core_def set_side_def)
  moreover have "recv_buf c2 \<noteq> [] \<longrightarrow> fast_path_eligible c2"
    using assms(4,8) by (auto simp: c2_def set_side_def with_core_def fast_path_eligible_def)
  moreover have "gate_ok c2" using assms(9) by (simp add: c2_def gate_ok_def set_side_def split: option.split)
  ultimately show ?thesis
    using assms(1,5) u by (auto simp: buffered_step_def buffered_def c2_def)
qed

lemma buffer_gated:
  assumes "buffered inflate c" and "next_frame_needed c = Some n" and "length (recv_buf c @ w) < n"
    and "run_events inflate (ext w (unread c)) = (es, d)"
  shows "es = [] \<and> buffered_step inflate d c (buffer_updated inflate cb w c)"
proof -
  have gate: "split_frames (recv_buf c) 0 = ([], Partial 0 n)"
    using assms(1,2) by (simp add: buffered_def gate_ok_def)
  note waits = gate_waits [OF gate assms(3)]
  have el: "fast_path_eligible c" using assms(1) waits by (simp add: buffered_def)
  define k where "k = protocol_core c"
  have "ext w (unread c) = k\<lparr>pc_buf := drop 0 (recv_buf c @ w)\<rparr>"
    using el by (simp add: unread_def k_def ext_def fast_path_eligible_def protocol_core_def)
  with assms(4) run_events_rest [of "recv_buf c @ w" 0 "[]" "Partial 0 n" 0 n inflate k] waits
  have es: "es = []" and d: "d = k\<lparr>pc_buf := recv_buf c @ w\<rparr>" by auto
  have "buffer_updated inflate cb w c = Some (Inr (), c\<lparr>recv_buf := recv_buf c @ w\<rparr>)"
    using assms(2,3) by (simp add: buffer_updated_def)
  also have "c\<lparr>recv_buf := recv_buf c @ w\<rparr> = set_side (recv_buf c @ w) (Some n) (with_core c (d\<lparr>pc_buf := []\<rparr>))"
    using assms(2) el
    by (simp add: set_side_def d k_def with_core_def protocol_core_def fast_path_eligible_def)
  finally have "buffered_step inflate d c (buffer_updated inflate cb w c)"
    using assms(1) el waits run_events_settles [OF assms(4)] es
    by (intro buffered_stepI)
      (simp_all add: d k_def protocol_core_def buffered_def fast_path_eligible_def ended_def, simp)
  with es show ?thesis by simp
qed

text \<open>A parse pass over the received region.\<close>

definition parse_pass :: "inflater \<Rightarrow> callback \<Rightarrow> bytes \<Rightarrow> client \<Rightarrow> ((PyErr + unit) \<times> client) option" where
  "parse_pass inflate cb received c =
     Option.bind (parse_recv_data inflate cb received c) (\<lambda>(r, c).
       case r of
         Inl e \<Rightarrow> Some (Inl e, c)
       | Inr (consumed, needed) \<Rightarrow>
           (let c = (if consumed < length received
                     then c\<lparr>recv_buf := recv_buf c @ drop consumed received\<rparr> else c)
            in flush_pending_callbacks cb (c\<lparr>next_frame_needed := needed\<rparr>)))"

lemma buffer_updated_parse:
  assumes "\<And>n. next_frame_needed c = Some n \<Longrightarrow> n \<le> length (recv_buf c @ w)"
  shows "buffer_updated inflate cb w c = parse_pass inflate cb (recv_buf c @ w) (set_side [] None c)"
proof -
  have "c\<lparr>next_frame_needed := None, recv_buf := []\<rparr> = set_side [] None c" by (simp add: set_side_def)
  moreover have "(case next_frame_needed c of Some needed \<Rightarrow> length (recv_buf (c\<lparr>recv_buf := recv_buf c @ w\<rparr>)) < needed
      | None \<Rightarrow> False) = False"
    using assms by (simp add: not_less split: option.split)
  ultimately show ?thesis by (simp add: buffer_updated_def parse_pass_def Let_def)
qed

lemma flush_streaming: "streaming c \<Longrightarrow>
   flush_pending_callbacks cb (c\<lparr>recv_buf := x, next_frame_needed := n\<rparr>) = Some (Inr (), set_side x n c)"
  by (simp add: flush_pending_callbacks_def streaming_def set_side_def)

lemma parse_pass_consumed:
  assumes "parse_recv_data inflate cb received c = Some (Inr (length received, None), c1)" and "streaming c1"
  shows "parse_pass inflate cb received c = Some (Inr (), set_side (recv_buf c1) None c1)"
proof -
  have "c1\<lparr>next_frame_needed := None\<rparr> = set_side (recv_buf c1) None c1" by (simp add: set_side_def)
  with assms flush_streaming [OF assms(2), where x = "recv_buf c1" and n = None and cb = cb] show ?thesis
    by (simp add: parse_pass_def)
qed

lemma parse_pass_partial:
  assumes "parse_recv_data inflate cb received c = Some (Inr (k, needed), c1)" and "streaming c1"
    and "recv_buf c1 = []"
  shows "parse_pass inflate cb received c = Some (Inr (), set_side (drop k received) needed c1)"
proof -
  have "c1\<lparr>next_frame_needed := needed\<rparr> = set_side [] needed c1" using assms(3) by (simp add: set_side_def)
  with assms flush_streaming [OF assms(2), where n = needed and cb = cb] show ?thesis
    by (auto simp: parse_pass_def not_less flush_no_callback streaming_on_message [OF assms(2)])
qed

lemma side_recv_buf [simp]: "recv_buf (set_side x n c) = x"
  by (simp add: set_side_def)

lemma with_core_side: "with_core (set_side x n c) d = set_side x n (with_core c d)"
  by (simp add: with_core_def set_side_def)

lemma eligible_side [simp]: "fast_path_eligible (set_side x n c) = fast_path_eligible c"
  by (simp add: fast_path_eligible_def set_side_def)

lemma streaming_side [simp]: "streaming (set_side x n c) = streaming c"
  by (simp add: streaming_def tame_with_def ping_futures_def)

text \<open>The pass when the bytes cannot be scanned in place.\<close>

lemma parse_pass_slow:
  assumes "streaming c" and "\<not> fast_path_eligible c"
    and run: "run_events inflate (ext data (protocol_core c)) = (es, d)" and "\<not> ended es"
    and c': "handle_events cb es c = Some (Inr (), c')"
  shows "buffered_step inflate d c' (parse_pass inflate cb data (set_side [] None c))"
proof -
  define s where "s = set_side [] None c"
  have run_s: "run_events inflate (ext data (protocol_core s)) = (es, d)" using run by (simp add: s_def)
  from data_received_inner_events [OF _ run_s assms(4), of cb] assms(1) obtain s' where
    s': "handle_events cb es s = Some (Inr (), s')" "streaming s'"
      "data_received_inner inflate cb data s = Some (Inr (), with_core s' d)" by (auto simp: s_def)
  from data_received_inner_events [OF assms(1) run assms(4), of cb] c'
  have c'_facts: "streaming c'" "protocol_core c' = protocol_core c" "s' = set_side [] None c'"
    using s'(1) by (auto simp: s_def)
  note keeps = run_events_keeps [OF run]
  have hd: "pc_handshake_done d" using keeps assms(1) by (simp add: streaming_def protocol_core_def ext_def)
  have "parse_recv_data inflate cb data s = Some (Inr (length data, None), with_core s' d)"
    using assms(2) s'(3) by (simp add: parse_recv_data_def s_def)
  from parse_pass_consumed [OF this] streaming_with_core [OF s'(2) hd]
  have "parse_pass inflate cb data s = Some (Inr (), set_side [] None (with_core c' (d\<lparr>pc_buf := pc_buf d\<rparr>)))"
    by (simp add: c'_facts(3) with_core_side)
  then show ?thesis unfolding s_def [symmetric]
    using c'_facts hd keeps run_events_settles [OF run assms(4)]
    by (intro buffered_stepI [where x = "[]" and n = None and b = "pc_buf d"]) (simp_all add: protocol_core_def ext_def)
qed

text \<open>The pass that scans in place: it keeps the partial frame at the end, or hands what it cannot
  scan to the slow path.\<close>

lemma scan_pass:
  assumes "streaming c" and el: "fast_path_eligible c"
    and run: "run_events inflate (ext data (protocol_core c)) = (es, d)" and "\<not> ended es"
    and c': "handle_events cb es c = Some (Inr (), c')"
  obtains fs out es2 s1 where "split_frames data 0 = (fs, out)"
    and "run_events inflate ((protocol_core c)\<lparr>pc_buf := drop (scan_consumed out) data\<rparr>) = (es2, d)" and "\<not> ended es2"
    and "scan_frame_aligned cb data CopyMode (set_side [] None c) = Some (Inr out, s1)"
    and "streaming s1" and "recv_buf s1 = []" and "protocol_core s1 = protocol_core c"
    and "handle_events cb es2 s1 = Some (Inr (), set_side [] None c')"
proof -
  define s where "s = set_side [] None c"
  define k where "k = protocol_core c"
  obtain fs out where sf: "split_frames data 0 = (fs, out)" by fastforce
  have s: "tame s" "fast_path_eligible s" "protocol_core s = k" "streaming s"
    using assms(1) el by (simp_all add: s_def k_def streaming_def tame_with_def ping_futures_def)
  have k: "k\<lparr>pc_buf := []\<rparr> = k" "pc_fragment_buf k = None" "pc_handshake_done k"
    using el by (simp_all add: k_def fast_path_eligible_def protocol_core_def)
  have buf: "ext data k = protocol_core (s\<lparr>buf := data\<rparr>)" "ext x k = k\<lparr>pc_buf := x\<rparr>" for x
    using el by (simp_all add: s_def k_def ext_def fast_path_eligible_def protocol_core_def set_side_def)
  note run_s = run [folded k_def, unfolded buf(1)]
  have ne: "\<not> ended (events_of_frames fs)"
    using fast_path_events(2) [OF s(1,2) run_s] run_events_quiet [OF run assms(4)] sf by (force simp: list_all_iff)
  obtain es2 d2 where run2: "run_events inflate (k\<lparr>pc_buf := drop (scan_consumed out) data\<rparr>) = (es2, d2)"
    by fastforce
  have "run_events inflate (k\<lparr>pc_buf := data\<rparr>) = (events_of_frames fs @ es2, d2)"
    using split_frames_run_events [OF sf, of "k\<lparr>pc_buf := data\<rparr>" inflate] ne k(2) run2 by simp
  with run have es: "es = events_of_frames fs @ es2" "d2 = d" by (simp_all add: k_def [symmetric] buf(2))
  from fast_path_continues [OF s(1,2) sf ne, of cb] obtain s1 where
    s1: "handle_events cb (events_of_frames fs) s = Some (Inr (), s1)"
      "scan_frame_aligned cb data CopyMode s = Some (Inr out, s1)" by blast
  from handle_events_quiet [OF _ events_of_frames_quiet [OF ne], of c cb] assms(1) s1(1)
  have s1_side: "recv_buf s1 = []" by (auto simp: s_def streaming_def)
  from handle_events_quiet [OF s(1) events_of_frames_quiet [OF ne], of cb] s1(1)
  have s1_facts: "tame s1" "protocol_core s1 = k" "on_message s1 = on_message s"
    by (auto simp: s(3))
  have str1: "streaming s1"
    using s1_facts s(4) k(3) by (simp add: streaming_def) (simp add: k_def protocol_core_def)
  from data_received_inner_events [OF assms(1) run assms(4), of cb] c'
  have c'_facts: "handle_events cb es s = Some (Inr (), set_side [] None c')" by (auto simp: s_def)
  have rest: "handle_events cb es2 s1 = Some (Inr (), set_side [] None c')"
    using handle_events_append [OF s(4) events_of_frames_quiet [OF ne] s1(1), of es2 k] c'_facts s(3) s1_facts(2)
    by (metis es(1) with_core_protocol_core)
  have "\<not> ended es2" using assms(4) es by (cases "es2 = []") (auto simp: ended_def)
  from that [OF sf run2 [unfolded es(2) k_def] this s1(2) [unfolded s_def] str1 s1_side] show thesis
    using s1_facts(2) rest by (simp add: k_def es(2))
qed

lemma parse_pass_fast:
  assumes "streaming c" and el: "fast_path_eligible c"
    and run: "run_events inflate (ext data (protocol_core c)) = (es, d)" and "\<not> ended es"
    and c': "handle_events cb es c = Some (Inr (), c')"
  shows "buffered_step inflate d c' (parse_pass inflate cb data (set_side [] None c))"
proof -
  obtain fs out es2 s1 where sf: "split_frames data 0 = (fs, out)"
    and run2: "run_events inflate ((protocol_core c)\<lparr>pc_buf := drop (scan_consumed out) data\<rparr>) = (es2, d)"
    and ne2: "\<not> ended es2" and scan: "scan_frame_aligned cb data CopyMode (set_side [] None c) = Some (Inr out, s1)"
    and s1: "streaming s1" "recv_buf s1 = []" "protocol_core s1 = protocol_core c"
    and rest: "handle_events cb es2 s1 = Some (Inr (), set_side [] None c')"
    by (rule scan_pass [OF assms])
  have k: "(protocol_core c)\<lparr>pc_buf := []\<rparr> = protocol_core c" "pc_fragment_buf (protocol_core c) = None"
    using el by (simp_all add: fast_path_eligible_def protocol_core_def)
  from data_received_inner_events [OF assms(1) run assms(4), of cb] c'
  have c'_facts: "streaming c'" "protocol_core c' = protocol_core c" by auto
  note keeps = run_events_keeps [OF run]
  have core: "pc_handshake_done d" "pc_expected_accept d = expected_accept c'" "pc_compression_enabled d = deflate c'"
    using keeps assms(1) c'_facts(2) by (simp_all add: streaming_def ext_def protocol_core_def)
  have prd: "parse_recv_data inflate cb data (set_side [] None c) =
      (case out of
         Exhausted k \<Rightarrow> Some (Inr (k, None), s1)
       | Partial k n \<Rightarrow> Some (Inr (k, Some n), s1)
       | Fallback k \<Rightarrow> Option.bind (data_received_inner inflate cb (drop k data) s1)
           (\<lambda>(r, c). Some (map_sum id (\<lambda>_. (length data, None)) r, c))
       | Stopped k \<Rightarrow> Some (Inr (k, None), s1))"
    using el scan by (simp add: parse_recv_data_def scan_frame_aligned_mode [of cb data ZeroCopyOwned] split: ScanOutcome.split)
  have kept: "buffered_step inflate d c' (parse_pass inflate cb data (set_side [] None c))"
    if out: "out = Exhausted j \<and> needed = None \<or> (\<exists>n. out = Partial j n \<and> needed = Some n)" for j needed
  proof -
    have "run_events inflate ((protocol_core c)\<lparr>pc_buf := drop j data\<rparr>) = ([], (protocol_core c)\<lparr>pc_buf := drop j data\<rparr>)"
      using out by (intro run_events_rest [OF sf, of j "case needed of Some n \<Rightarrow> n | None \<Rightarrow> 0"]) auto
    with run2 out have d: "d = (protocol_core c)\<lparr>pc_buf := drop j data\<rparr>" "es2 = []" by auto
    with rest have s1': "s1 = set_side [] None c'" by simp
    have "parse_recv_data inflate cb data (set_side [] None c) = Some (Inr (j, needed), s1)"
      using out by (auto simp: prd)
    from parse_pass_partial [OF this s1(1,2)]
    have "parse_pass inflate cb data (set_side [] None c) =
        Some (Inr (), set_side (drop j data) needed (with_core c' (d\<lparr>pc_buf := []\<rparr>)))"
      by (simp add: s1' d k(1)) (simp add: c'_facts(2) [symmetric])
    then show ?thesis
      using c'_facts(1) core run_events_settles [OF run assms(4)] k(2) out split_frames_Partial_rest [of data 0 fs j] sf
      by (intro buffered_stepI [where x = "drop j data" and b = "[]" and n = needed]) (auto simp: d)
  qed
  show ?thesis
  proof (cases out)
    case (Fallback j)
    have "ext (drop j data) (protocol_core c) = (protocol_core c)\<lparr>pc_buf := drop j data\<rparr>"
      using el by (simp add: ext_def fast_path_eligible_def protocol_core_def)
    with run2 Fallback s1(3) have "run_events inflate (ext (drop j data) (protocol_core s1)) = (es2, d)" by simp
    from data_received_inner_events [OF s1(1) this ne2, of cb] rest
    have "parse_recv_data inflate cb data (set_side [] None c) =
        Some (Inr (length data, None), with_core (set_side [] None c') d)" by (auto simp: prd Fallback)
    from parse_pass_consumed [OF this] streaming_with_core [of "set_side [] None c'" d] c'_facts(1) core(1)
    have "parse_pass inflate cb data (set_side [] None c) =
        Some (Inr (), set_side [] None (with_core c' (d\<lparr>pc_buf := pc_buf d\<rparr>)))"
      by (simp add: with_core_side)
    then show ?thesis
      using c'_facts(1) core run_events_settles [OF run assms(4)]
      by (intro buffered_stepI [where x = "[]" and n = None and b = "pc_buf d"]) simp_all
  next
    case (Stopped j)
    then show ?thesis using split_frames_not_Stopped [of data 0 j] sf by simp
  qed (use kept in auto)
qed

lemma buffer_one:
  assumes "buffered inflate c" and run: "run_events inflate (ext w (unread c)) = (es, d)" and "\<not> ended es"
  shows "\<exists>c'. handle_events cb es c = Some (Inr (), c') \<and> streaming c' \<and>
    buffered_step inflate d c' (buffer_updated inflate cb w c)"
proof (cases "\<exists>n. next_frame_needed c = Some n \<and> length (recv_buf c @ w) < n")
  case True
  then obtain n where n: "next_frame_needed c = Some n" "length (recv_buf c @ w) < n" by blast
  from buffer_gated [OF assms(1) n run, of cb] assms(1) show ?thesis by (auto simp: buffered_def)
next
  case False
  have str: "streaming c" using assms(1) by (simp add: buffered_def)
  have run': "run_events inflate (ext (recv_buf c @ w) (protocol_core c)) = (es, d)"
    using run by (simp add: unread_def ext_def)
  from data_received_inner_events [OF str run' assms(3), of cb] obtain c' where
    c': "handle_events cb es c = Some (Inr (), c')" "streaming c'" by blast
  have "buffered_step inflate d c' (parse_pass inflate cb (recv_buf c @ w) (set_side [] None c))"
    using parse_pass_slow [OF str _ run' assms(3) c'(1)] parse_pass_fast [OF str _ run' assms(3) c'(1)] by blast
  with c' False show ?thesis by (auto simp: buffer_updated_parse not_less)
qed

lemma as_plain_eq:
  assumes "as_plain c2 = with_core (set_side [] None c') d"
  shows "c2 = set_side (recv_buf c2) (next_frame_needed c2) (with_core c' (protocol_core c2))"
proof -
  have "c2 = set_side (recv_buf c2) (next_frame_needed c2) (with_core (as_plain c2) (protocol_core c2))"
    by (simp add: as_plain_def set_side_def with_core_def protocol_core_def)
  then show ?thesis unfolding assms by (simp add: with_core_side)
qed

lemma handle_events_both_sides:
  assumes "streaming c" and "list_all (\<lambda>e. \<not> terminal e) es" and "handle_events cb es c = Some (Inr (), c')"
  shows "handle_events cb es (set_side x n (with_core c k)) = Some (Inr (), set_side x n (with_core c' k))"
proof -
  have "handle_events cb es (with_core c k) = Some (Inr (), with_core c' k)"
    using handle_events_append [OF assms, of "[]" k] by simp
  with handle_events_quiet [of "with_core c k" es cb] assms(1,2) show ?thesis by (auto simp: streaming_def)
qed

lemma buffer_all_events:
  assumes "buffered inflate c" and "run_events inflate (ext (concat reads) (unread c)) = (es, d)" and "\<not> ended es"
  shows "\<exists>c' c2. handle_events cb es c = Some (Inr (), c') \<and> buffer_all inflate cb reads c = Some (Inr (), c2) \<and>
    as_plain c2 = with_core (set_side [] None c') d"
  using assms
proof (induction reads arbitrary: c es)
  case Nil
  then have "es = [] \<and> d = unread c" by (auto simp: buffered_def settled_def)
  then show ?case by (simp add: as_plain_def unread_def ext_def set_side_def with_core_def protocol_core_def)
next
  case (Cons w reads)
  obtain es1 d1 where run1: "run_events inflate (ext w (unread c)) = (es1, d1)" by fastforce
  obtain es2 d2 where run2: "run_events inflate (ext (concat reads) d1) = (es2, d2)" by fastforce
  have ext: "ext (concat (w # reads)) (unread c) = ext (concat reads) (ext w (unread c))" by (simp add: ext_def)
  have "(if ended es1 then (es1, ext (concat reads) d1) else (es1 @ es2, d2)) = (es, d)"
    using Cons.prems(2) unfolding ext run_events_append [of inflate "concat reads" "ext w (unread c)"]
    by (simp add: run1 run2 split: if_splits)
  with Cons.prems(3) have ne1: "\<not> ended es1" and es: "es = es1 @ es2" and d2: "d2 = d" by (auto split: if_splits)
  have ne2: "\<not> ended es2" using Cons.prems(3) es by (cases "es2 = []") (auto simp: ended_def)
  from buffer_one [OF Cons.prems(1) run1 ne1, of cb] obtain c1 b1 where
    c1: "handle_events cb es1 c = Some (Inr (), c1)" "streaming c1" "buffer_updated inflate cb w c = Some (Inr (), b1)"
      "as_plain b1 = with_core (set_side [] None c1) d1" "unread b1 = d1" "buffered inflate b1"
    by (auto simp: buffered_step_def)
  from Cons.IH [OF c1(6)] run2 d2 ne2 c1(5) obtain b' b2 where
    b: "handle_events cb es2 b1 = Some (Inr (), b')" "buffer_all inflate cb reads b1 = Some (Inr (), b2)"
      "as_plain b2 = with_core (set_side [] None b') d" by auto
  note quiet2 = run_events_quiet [OF run2 ne2]
  from handle_events_quiet [of c1 es2 cb] c1(2) quiet2 obtain c2 where
    c2: "handle_events cb es2 c1 = Some (Inr (), c2)" by (auto simp: streaming_def)
  have "b' = set_side (recv_buf b1) (next_frame_needed b1) (with_core c2 (protocol_core b1))"
    using handle_events_both_sides [OF c1(2) quiet2 c2] as_plain_eq [OF c1(4)] b(1) by (metis Pair_inject option.inject)
  then have "as_plain b2 = with_core (set_side [] None c2) d" using b(3) by (simp add: with_core_side)
  moreover have "handle_events cb es c = Some (Inr (), c2)"
    using handle_events_append_same [OF _ run_events_quiet [OF run1 ne1] c1(1), of es2] Cons.prems(1) c2 es
    by (simp add: buffered_def)
  ultimately show ?case using c1(3) b(2) by simp
qed

section \<open>Properties\<close>


lemma demo_streaming: "streaming demo_client" "protocol_core demo_client = idle_core []"
  "recv_buf demo_client = []" "next_frame_needed demo_client = None"
  by (simp_all add: streaming_def tame_with_def ping_futures_def demo_client_def connect_state_def
      protocol_core_def idle_core_def)

lemma idle_settled: "settled inflate (idle_core [])"
  by (simp add: settled_def run_events.simps event_eval)

lemma ext_idle: "ext x (idle_core []) = idle_core x"
  by (simp add: ext_def idle_core_def)




end
