(* ===== verification/Client_Deflate.thy ===== *)
theory Client_Deflate
  imports Client_Send
begin

text \<open>
  The compression loop of \<^verbatim>\<open>send\<close> in \<^verbatim>\<open>src/src/native_client/client.rs\<close> over an arbitrary DEFLATE
  compressor.  What \<^verbatim>\<open>flate2\<close> documents about a compressor with sync flush is stated as the
  predicates \<open>streaming_compressor\<close> and \<open>sync_flush_inverse\<close>; from them the loop returns, and a
  peer that inflates the frame of a sent message gets the message back.
\<close>

section \<open>What the compressor promises\<close>

text \<open>
  A call consumes at most the input it is given; one that consumes nothing only drains the
  compressor's pending output; and with enough room a call that neither consumes nor produces has
  no input left.
\<close>

definition streaming_compressor :: "'z compressor \<Rightarrow> ('z \<Rightarrow> nat) \<Rightarrow> bool" where
  "streaming_compressor cz pending \<longleftrightarrow>
     (\<forall>z inp spare z' used produced. cz_step cz z inp spare = Inr (z', used, produced) \<longrightarrow>
        used \<le> length inp \<and>
        (used = 0 \<longrightarrow> pending z' + length produced \<le> pending z) \<and>
        (used = 0 \<and> produced = [] \<and> 32 \<le> spare \<longrightarrow> inp = []))"

text \<open>The states of the compressor while it works on one message.\<close>

inductive deflating :: "'z compressor \<Rightarrow> bytes \<Rightarrow> 'z \<Rightarrow> nat \<Rightarrow> bytes \<Rightarrow> bool" for cz raw where
  start: "deflating cz raw (cz_new cz) 0 []"
| step: "deflating cz raw z cursor out \<Longrightarrow> cz_step cz z (drop cursor raw) spare = Inr (z', used, produced) \<Longrightarrow>
    deflating cz raw z' (cursor + used) (out @ produced)"

text \<open>
  Inflating undoes a sync-flushed stream; and a call that has room, finishes the message and has
  nothing to produce finds the marker of the flush already written.
\<close>

definition sync_flush_inverse :: "'z compressor \<Rightarrow> inflater \<Rightarrow> bool" where
  "sync_flush_inverse cz inflate \<longleftrightarrow>
     (\<forall>raw z cursor out. deflating cz raw z cursor out \<longrightarrow>
        (cursor = length raw \<and> ends_with out deflate_tail \<longrightarrow> inflate out = (raw, False)) \<and>
        (\<forall>spare z'. 32 \<le> spare \<and> cz_step cz z (drop cursor raw) spare = Inr (z', length raw - cursor, []) \<longrightarrow>
           ends_with out deflate_tail))"

section \<open>The loop\<close>

definition grown :: "bytes \<Rightarrow> nat \<Rightarrow> bytes \<Rightarrow> nat \<Rightarrow> nat" where
  "grown raw cursor out cap =
     (if cap - length out < (if cursor < length raw then 128 else 32)
      then reserve cap (length out) (max (length raw) 1024) else cap)"

lemma grown_spare: "32 \<le> grown raw cursor out cap - length out"
  by (auto simp: grown_def reserve_def)

lemma deflate_loop_step:
  "deflate_loop f raw z cursor out cap =
     (case f z (drop cursor raw) (grown raw cursor out cap - length out) of
        Inl e \<Rightarrow> Some (Inl (RuntimeError (''deflate error: '' @ e)))
      | Inr (z', used, produced) \<Rightarrow>
          if length raw \<le> cursor + used \<and> (ends_with (out @ produced) deflate_tail \<or> produced = [])
          then Some (Inr (out @ produced))
          else deflate_loop f raw z' (cursor + used) (out @ produced) (grown raw cursor out cap))"
proof -
  let ?call = "f z (drop cursor raw) (grown raw cursor out cap - length out)"
  note unfold = deflate_loop.simps [of f raw z cursor out cap, unfolded Let_def, folded grown_def]
  show ?thesis
  proof (cases ?call)
    case (Inl e)
    then show ?thesis by (simp only: unfold sum.case)
  next
    case (Inr r)
    obtain z' used produced where "r = (z', used, produced)" by (cases r)
    with Inr show ?thesis by (simp only: unfold sum.case prod.case if_splits) auto
  qed
qed

lemma deflate_loop_returns:
  assumes "streaming_compressor cz pending" and "cursor \<le> length raw"
  shows "\<exists>r. deflate_loop (cz_step cz) raw z cursor out cap = Some r"
  using assms(2)
proof (induction "length raw - cursor" arbitrary: z cursor out cap rule: less_induct)
  case outer: less
  show ?case
  proof (induction "pending z" arbitrary: z out cap rule: less_induct)
    case inner: less
    show ?case
    proof (cases "cz_step cz z (drop cursor raw) (grown raw cursor out cap - length out)")
      case (Inl e)
      then show ?thesis by (simp add: deflate_loop_step)
    next
      case (Inr r)
      obtain z' used produced where r: "r = (z', used, produced)" by (cases r)
      note st = Inr [unfolded r]
      have u: "used \<le> length raw - cursor" "used = 0 \<longrightarrow> pending z' + length produced \<le> pending z"
        "used = 0 \<and> produced = [] \<longrightarrow> length raw \<le> cursor"
        using assms(1) [unfolded streaming_compressor_def, rule_format, OF st] grown_spare [of raw cursor out cap]
        by auto
      define stop where "stop \<longleftrightarrow> length raw \<le> cursor + used \<and> (ends_with (out @ produced) deflate_tail \<or> produced = [])"
      have "produced \<noteq> []" if "\<not> stop" "used = 0" using u(3) that by (auto simp: stop_def)
      then consider stop | "\<not> stop" "0 < used" | "\<not> stop" "used = 0" "produced \<noteq> []" by auto
      then have "\<exists>r. (if stop then Some (Inr (out @ produced))
          else deflate_loop (cz_step cz) raw z' (cursor + used) (out @ produced) (grown raw cursor out cap)) = Some r"
      proof cases
        case 2
        with outer.hyps [of "cursor + used"] outer.prems u(1) show ?thesis by simp
      next
        case 3
        then have "pending z' < pending z" using u(2) by (cases produced) auto
        from inner.hyps [OF this] 3 show ?thesis by simp
      qed simp
      then show ?thesis by (simp add: deflate_loop_step [of _ _ z] st stop_def)
    qed
  qed
qed

lemma deflate_loop_deflating:
  assumes "streaming_compressor cz pending" and "sync_flush_inverse cz inflate"
    and "deflate_loop (cz_step cz) raw z cursor out cap = Some (Inr out')"
    and "deflating cz raw z cursor out" and "cursor \<le> length raw"
  shows "\<exists>z'. deflating cz raw z' (length raw) out' \<and> ends_with out' deflate_tail"
  using assms(3-5)
proof (induction "length raw - cursor" arbitrary: z cursor out cap rule: less_induct)
  case outer: less
  from outer.prems(1,2) show ?case
  proof (induction "pending z" arbitrary: z out cap rule: less_induct)
    case inner: less
    from inner.prems(1) obtain z' used produced where
      st: "cz_step cz z (drop cursor raw) (grown raw cursor out cap - length out) = Inr (z', used, produced)"
      by (auto simp: deflate_loop_step [of _ _ z] split: sum.splits)
    note spare = grown_spare [of raw cursor out cap]
    have u: "used \<le> length raw - cursor" "used = 0 \<longrightarrow> pending z' + length produced \<le> pending z"
      "used = 0 \<and> produced = [] \<longrightarrow> length raw \<le> cursor"
      using assms(1) [unfolded streaming_compressor_def, rule_format, OF st] spare by auto
    note reach = deflating.step [OF inner.prems(2) st]
    define stop where "stop \<longleftrightarrow> length raw \<le> cursor + used \<and> (ends_with (out @ produced) deflate_tail \<or> produced = [])"
    have loop: "(if stop then Some (Inr (out @ produced))
        else deflate_loop (cz_step cz) raw z' (cursor + used) (out @ produced) (grown raw cursor out cap)) = Some (Inr out')"
      using inner.prems(1) by (simp add: deflate_loop_step [of _ _ z] st stop_def)
    have "produced \<noteq> []" if "\<not> stop" "used = 0" using u(3) that by (auto simp: stop_def)
    then consider stop | "\<not> stop" "0 < used" | "\<not> stop" "used = 0" "produced \<noteq> []" by auto
    then show ?case
    proof cases
      case 1
      then have full: "cursor + used = length raw" using u(1) outer.prems(3) unfolding stop_def by linarith
      have "ends_with (out @ produced) deflate_tail"
      proof (cases "produced = []")
        case True
        then have "cz_step cz z (drop cursor raw) (grown raw cursor out cap - length out) = Inr (z', length raw - cursor, [])"
          using st full by simp
        with assms(2) [unfolded sync_flush_inverse_def, rule_format, OF inner.prems(2)] spare True show ?thesis by auto
      qed (use 1 stop_def in simp)
      with 1 loop reach full show ?thesis by auto
    next
      case 2
      with outer.hyps [OF _ _ reach] loop u(1) outer.prems(3) show ?thesis by simp
    next
      case 3
      then have "pending z' < pending z" using u(2) by (cases produced) auto
      from inner.hyps [OF this] 3 loop reach show ?thesis by simp
    qed
  qed
qed

lemma strip_tail_append: "ends_with out deflate_tail \<Longrightarrow> strip_tail out @ deflate_tail = out"
proof -
  assume tail: "ends_with out deflate_tail"
  have "length deflate_tail = 4" by (simp add: deflate_tail_def)
  with tail have "drop (length out - 4) out = deflate_tail" by (simp add: ends_with_def)
  with tail append_take_drop_id [of "length out - 4" out] show ?thesis by (simp add: strip_tail_def)
qed

lemma deflate_message_inflates:
  assumes "streaming_compressor cz pending" and "sync_flush_inverse cz inflate"
    and "deflate_message cz raw = Some (Inr p)" and "length raw \<le> MAX_MESSAGE_SIZE"
  shows "decompress_message inflate True p = Inr raw"
proof -
  from assms(3) obtain r where
    r: "deflate_loop (cz_step cz) raw (cz_new cz) 0 [] (length raw + 64) = Some r" "map_sum id strip_tail r = Inr p"
    by (auto simp: deflate_message_def)
  then obtain out where
    out: "deflate_loop (cz_step cz) raw (cz_new cz) 0 [] (length raw + 64) = Some (Inr out)" "p = strip_tail out"
    by (cases r) auto
  from deflate_loop_deflating [OF assms(1,2) out(1) deflating.start] obtain z where
    z: "deflating cz raw z (length raw) out" "ends_with out deflate_tail" by auto
  with assms(2) have "inflate out = (raw, False)" by (auto simp: sync_flush_inverse_def)
  with assms(4) show ?thesis
    by (simp add: decompress_message_def read_limited_def out(2) strip_tail_append [OF z(2)])
qed

section \<open>Properties\<close>

text \<open>A compressor that stores its input, for the examples.\<close>

definition storing :: "bool compressor" where
  "storing = \<lparr>cz_new = False,
     cz_step = (\<lambda>z inp spare. Inr (True, length inp, if z \<and> inp = [] then [] else inp @ deflate_tail))\<rparr>"

definition unstore :: inflater where
  "unstore b = (take (length b - 4) b, False)"

lemma storing_streaming: "streaming_compressor storing (\<lambda>z. if z then 0 else 4)"
  by (simp add: streaming_compressor_def storing_def deflate_tail_def)

lemma storing_deflating:
  "deflating storing raw z cursor out \<Longrightarrow>
   \<not> z \<and> cursor = 0 \<and> out = [] \<or> z \<and> cursor = length raw \<and> out = raw @ deflate_tail"
  by (induction rule: deflating.induct) (auto simp: storing_def split: if_splits)

lemma storing_inverse: "sync_flush_inverse storing unstore"
  unfolding sync_flush_inverse_def
  by (auto dest!: storing_deflating simp: unstore_def ends_with_def deflate_tail_def) (auto simp: storing_def deflate_tail_def)

lemma send_total:
  assumes "streaming_compressor cz pending"
  shows "\<exists>r c'. send cz m c = Some (r, c')"
proof -
  have ret: "\<exists>r. deflate_message cz raw = Some r" for raw
    using deflate_loop_returns [OF assms, of 0 raw "cz_new cz" "[]" "length raw + 64"]
    by (auto simp: deflate_message_def)
  show ?thesis
  proof (cases "message_payload m")
    case (Inl e)
    then show ?thesis by (simp add: send_def)
  next
    case (Inr po)
    obtain raw opcode r where "po = (raw, opcode)" "deflate_message cz raw = Some r"
      using ret by (cases po) blast
    with Inr show ?thesis
      by (cases r; cases "send_frame opcode raw c"; cases "send_frame opcode (projr r) c") (simp_all add: send_def)
  qed
qed





end
