(* ===== verification/Client_Life.thy ===== *)
theory Client_Life
  imports Client_Stream Client_Deflate
begin

text \<open>
  The life of a \<^verbatim>\<open>NativeClient\<close>: every operation the event loop and the application perform on it, the
  invariant every reachable client satisfies, and the promises that involve waiting: tearing down
  settles every future, and an acknowledged ping is resolved by its pong.
\<close>

section \<open>The invariant\<close>

text \<open>No future is left waiting on a closed client, messages and receivers never wait for each other,
  and a message in reassembly stays within its bound.\<close>

definition sound_state :: "client \<Rightarrow> bool" where
  "sound_state c \<longleftrightarrow> (closed c \<longrightarrow> pending_futures c = []) \<and> (backlog c \<noteq> [] \<longrightarrow> pending_recv c = []) \<and>
     (\<forall>f. fragment_buf c = Some f \<longrightarrow> length f \<le> MAX_MESSAGE_SIZE)"

text \<open>The part of the client the invariant speaks about.\<close>

definition life where
  "life c = (closed c, pending_recv c, unprobeable_recv c, handshake_fut c, pending_pings c, backlog c, fragment_buf c)"

lemma sound_life: "sound_state c \<Longrightarrow> life c' = life c \<Longrightarrow> sound_state c'"
  unfolding sound_state_def life_def prod.inject pending_futures_def by (elim conjE) (simp only:)

text \<open>Operations that do not touch it.\<close>

lemma life_fields [simp]:
  "life (c\<lparr>buf_known_empty := b\<rparr>) = life c" "life (c\<lparr>send_buf := s\<rparr>) = life c" "life (c\<lparr>write_queue := q\<rparr>) = life c"
  "life (c\<lparr>futures := h\<rparr>) = life c" "life (c\<lparr>paused := p\<rparr>) = life c" "life (c\<lparr>next_fut := n\<rparr>) = life c"
  "life (c\<lparr>recv_buf := r\<rparr>) = life c" "life (c\<lparr>next_frame_needed := k\<rparr>) = life c" "life (c\<lparr>tclosed := p\<rparr>) = life c"
  "life (c\<lparr>buf := bs\<rparr>) = life c" "life (c\<lparr>pending_callback_msgs := ms\<rparr>) = life c"
  "life (c\<lparr>transport := b\<rparr>) = life c" "life (c\<lparr>close_sent_code := cd\<rparr>) = life c"
  "life (c\<lparr>close_sent_reason := rs\<rparr>) = life c" "life (c\<lparr>close_received_code := cd\<rparr>) = life c"
  "life (c\<lparr>close_received_reason := rs\<rparr>) = life c" "life (c\<lparr>close_code := cd\<rparr>) = life c"
  "life (c\<lparr>close_reason := rs\<rparr>) = life c" "life (c\<lparr>handshake_done := b\<rparr>) = life c"
  "life (c\<lparr>subprotocol := rs\<rparr>) = life c" "life (c\<lparr>deflate := b\<rparr>) = life c" "life (c\<lparr>terminal_error := te\<rparr>) = life c"
  by (simp_all add: life_def)

text \<open>Sending leaves this and more alone: the futures, and the messages queued for the callback.\<close>

definition wide where
  "wide c = (life c, futures c, next_fut c, new_future c, on_message c, pending_callback_msgs c)"

lemma life_wide: "wide c' = wide c \<Longrightarrow> life c' = life c"
  by (simp add: wide_def)

lemma wide_fields [simp]:
  "wide (c\<lparr>buf_known_empty := b\<rparr>) = wide c" "wide (c\<lparr>send_buf := s\<rparr>) = wide c" "wide (c\<lparr>write_queue := q\<rparr>) = wide c"
  "wide (c\<lparr>paused := p\<rparr>) = wide c" "wide (c\<lparr>tclosed := p\<rparr>) = wide c"
  by (simp_all add: wide_def)

lemma wide_write_net [simp]: "wide (write_net d c) = wide c"
  by (simp add: wide_def life_def write_net_def net_set_def split: prod.split)

lemma wide_transport_write [simp]: "wide (snd (transport_write_call d c)) = wide c"
  by (simp add: transport_write_net)

lemma wide_next_mask_key [simp]: "wide (snd (next_mask_key c)) = wide c"
  by (simp add: next_mask_key_def wide_def life_def Let_def)

lemma wide_encode_control_frame [simp]:
  "wide (snd (encode_control_frame op p c)) = wide c" "wide (snd (encode_control_into op p c)) = wide c"
  using wide_next_mask_key [of "c\<lparr>buf_known_empty := False\<rparr>"]
  by (simp_all add: encode_control_frame_def encode_control_into_def split_def)

lemma wide_native_send [simp]: "wide (snd (native_send d c)) = wide c"
  by (simp add: native_send_def wide_def life_def)

lemma wide_check_drained [simp]: "wide (snd (check_drained c)) = wide c"
  by (simp add: check_drained_def)

lemma wide_send_scratch [simp]: "wide (snd (snd (send_scratch h p k c))) = wide c"
  by (simp add: send_scratch_def split_def Let_def)

lemma wide_send_frame [simp]: "wide (snd (send_frame op p c)) = wide c"
proof -
  obtain k c1 where mk: "next_mask_key c = (k, c1)" by fastforce
  obtain dr c2 where cd: "check_drained c1 = (dr, c2)" by fastforce
  obtain n fr c3 where ss: "send_scratch (send_header op (deflate c1) (length p) k) p k c2 = (n, fr, c3)"
    by (metis surj_pair)
  have "wide c1 = wide c" using wide_next_mask_key [of c] mk by simp
  moreover have "wide c2 = wide c1" using wide_check_drained [of c1] cd by simp
  moreover have "wide c3 = wide c2" using wide_send_scratch [of _ p k c2] ss by (metis snd_conv)
  ultimately show ?thesis
    by (simp add: send_frame_def mk cd ss Let_def send_merged_def transport_write_net split: bool.split)
qed

lemma wide_transport_close [simp]: "wide (transport_close c) = wide c"
  by (simp add: transport_close_def)

lemma wide_write_pongs [simp]: "wide (write_pongs ps c) = wide c"
  by (induction ps arbitrary: c) (simp_all add: write_pongs_def)

lemma wide_write_all [simp]: "wide (snd (write_all transport_write_call q c)) = wide c"
proof (induction q arbitrary: c)
  case (Cons d q)
  obtain r c' where w: "transport_write_call d c = (r, c')" by fastforce
  then have "wide c' = wide c" using wide_transport_write [of d c] by simp
  with Cons w show ?case by (cases r) simp_all
qed simp

lemma wide_send_control [simp]: "wide (snd (send_control op msg d c)) = wide c"
  by (simp add: send_control_def Let_def split_def transport_write_net)

lemma wide_flow_control [simp]:
  "wide (pause_writing c) = wide c" "wide (snd (resume_writing c)) = wide c" "wide (snd (connection_made t c)) = wide c"
  by (simp_all add: pause_writing_def resume_writing_def Let_def connection_made_def wide_def [of "transport_write_update _ _"]
      split: sum.split) (simp add: wide_def life_def)

lemmas life_sending [simp] = wide_write_net [THEN life_wide] wide_transport_write [THEN life_wide]
  wide_encode_control_frame [THEN life_wide] wide_send_frame [THEN life_wide] wide_transport_close [THEN life_wide]
  wide_write_pongs [THEN life_wide] wide_write_all [THEN life_wide] wide_send_control [THEN life_wide]
  wide_flow_control [THEN life_wide]

lemma life_settle [simp]: "life (snd (settle v i c)) = life c"
  by (simp add: settle_def Let_def split: option.split)

lemma life_set_future [simp]:
  "life (snd (set_future_result i v c)) = life c" "life (set_future_exception i e c) = life c"
  "life (cancel_future i c) = life c"
  by (simp_all add: set_future_result_def set_future_exception_def cancel_future_def split: sum.split option.split bool.split)

lemma life_acknowledge [simp]: "life (acknowledge p i c) = life c"
  by (simp add: acknowledge_heap split: prod.split)

lemma life_fail_pending [simp]: "life (fail_pending is msg c) = life c"
  by (simp add: fail_pending_heap)

lemma life_teardown [simp]: "life (release_references c) = life c"
  by (simp add: release_references_def life_def)

lemma life_fold_exception [simp]: "life (fold (\<lambda>i. set_future_exception i e) is c) = life c"
  by (induction "is" arbitrary: c) simp_all

lemma life_acknowledge_all [simp]: "life (acknowledge_all acks c) = life c"
  by (induction acks arbitrary: c) (simp_all add: acknowledge_all_def split_def)

section \<open>Operations of the application\<close>

lemma sound_take_live:
  assumes "take_live_receiver c = (r, c')" and "sound_state c"
  shows "sound_state c'" and "r = None \<Longrightarrow> pending_recv c' = []"
proof -
  obtain rest q where p: "pop_live (futures c) (pending_recv c) = (r, rest, q)"
    "c' = c\<lparr>pending_recv := rest, unprobeable_recv := unprobeable_recv c @ q\<rparr>"
    using assms(1) by (auto simp: take_live_receiver_def split: prod.splits)
  have "rest = [] \<and> q = []" if "pending_recv c = []" using that p(1) by simp
  with assms(2) p(2) show "sound_state c'" by (auto simp: sound_state_def pending_futures_def)
  show "pending_recv c' = []" if "r = None" using that p pop_live_None by simp
qed

lemma sound_push_backlog: "sound_state c \<Longrightarrow> pending_recv c = [] \<Longrightarrow> sound_state (c\<lparr>backlog := bs\<rparr>)"
  by (simp add: sound_state_def pending_futures_def)

lemma sound_deliver:
  assumes "sound_state c" shows "sound_state (snd (deliver_message m c))"
proof (cases "on_message c")
  case True
  then show ?thesis by (intro sound_life [OF assms]) (simp add: deliver_message_def)
next
  case False
  obtain i c1 where tl: "take_live_receiver c = (i, c1)" by fastforce
  note inv = sound_take_live [OF tl assms]
  show ?thesis
  proof (cases i)
    case None
    with inv show ?thesis by (simp add: deliver_message_def False tl sound_push_backlog)
  next
    case (Some j)
    then show ?thesis by (intro sound_life [OF inv(1)]) (simp add: deliver_message_def False tl)
  qed
qed

lemma sound_take_pending: "sound_state c \<Longrightarrow> sound_state ((snd (take_pending c))\<lparr>closed := b\<rparr>)"
  by (simp add: take_pending_def sound_state_def pending_futures_def)

lemma sound_park:
  "sound_state c \<Longrightarrow> \<not> closed c \<Longrightarrow> backlog c = [] \<Longrightarrow> sound_state (park_receiver i c)"
  by (simp add: park_receiver_def sound_state_def Let_def)

lemma sound_wait:
  assumes "sound_state c" and "\<not> closed c" and "backlog c = []"
  shows "sound_state (snd (wait_for_message c))"
proof (cases "create_future c")
  case True
  show ?thesis
  proof (cases "new_future c (next_fut c)")
    case (Inr f)
    let ?c = "c\<lparr>futures := (futures c)(next_fut c := f), next_fut := next_fut c + 1\<rparr>"
    have "sound_state ?c" by (rule sound_life [OF assms(1)]) simp
    from sound_park [OF this] assms(2,3) show ?thesis
      by (simp add: wait_for_message_def call_create_future_def True Inr)
  qed (simp add: wait_for_message_def call_create_future_def True assms(1))
qed (simp add: wait_for_message_def assms(1))

lemma sound_recv:
  assumes "sound_state c"
  shows "sound_state (snd (recv c))" and "sound_state (snd (anext c))"
proof -
  have "sound_state (c\<lparr>backlog := rest\<rparr>)" if "backlog c = m # rest" for m rest
    using assms that by (simp add: sound_state_def pending_futures_def)
  with sound_wait [OF assms] assms show "sound_state (snd (recv c))" "sound_state (snd (anext c))"
    by (simp_all add: recv_def anext_def split: list.split)
qed

lemma wide_send:
  assumes "send cz m c = Some (r, c')"
  shows "wide c' = wide c"
proof (cases "closed c \<or> \<not> handshake_done c \<or> \<not> transport_write c")
  case True
  with assms show ?thesis unfolding send_def by (simp split: if_splits)
next
  case False
  show ?thesis
  proof (cases "message_payload m")
    case (Inl e)
    with assms False show ?thesis by (simp add: send_def)
  next
    case (Inr po)
    obtain p op where po: "po = (p, op)" by fastforce
    obtain q where "send_frame op q c = (r, c') \<or> c' = c"
      using assms False Inr po
      by (cases "deflate c"; cases "deflate_message cz p") (auto simp: send_def split: sum.splits)
    then show ?thesis by (metis wide_send_frame snd_conv)
  qed
qed

lemma sound_close: "sound_state c \<Longrightarrow> sound_state (close c)"
proof -
  assume s: "sound_state c"
  let ?c = "(snd (take_pending (release_references (c\<lparr>closed := True, transport := False\<rparr>))))"
  have "?c = (snd (take_pending (release_references (c\<lparr>transport := False\<rparr>))))\<lparr>closed := True\<rparr>"
    by (simp add: take_pending_def release_references_def)
  moreover have "sound_state (release_references (c\<lparr>transport := False\<rparr>))" by (rule sound_life [OF s]) simp
  ultimately have "sound_state ?c" using sound_take_pending by metis
  then show ?thesis
    by (rule sound_life) (simp add: close_def Let_def take_pending_def)
qed

lemma sound_api_call:
  assumes "sound_state c" and "api_call cz call c = Some (r, c')"
  shows "sound_state c'"
proof (cases call)
  case (CallSend m)
  with assms(2) show ?thesis by (intro sound_life [OF assms(1)]) (simp add: api_call_def life_wide [OF wide_send])
next
  case (CallPing d)
  with assms(2) have "c' = snd (ping d c)" by (simp add: api_call_def)
  then show ?thesis by (intro sound_life [OF assms(1)]) (simp add: ping_def)
next
  case (CallPong d)
  with assms(2) have "c' = snd (pong d c)" by (simp add: api_call_def)
  then show ?thesis by (intro sound_life [OF assms(1)]) (simp add: pong_def)
next
  case (CallCancel i)
  with assms(2) have "c' = cancel_future i c" by (simp add: api_call_def)
  then show ?thesis by (intro sound_life [OF assms(1)]) simp
next
  case CallClose
  with assms(2) have "c' = close c" by (simp add: api_call_def)
  then show ?thesis using sound_close [OF assms(1)] by simp
next
  case CallRecv
  with assms(2) have "c' = snd (recv c)" by (cases "recv c") (simp add: api_call_def)
  then show ?thesis using sound_recv [OF assms(1)] by simp
next
  case CallAnext
  with assms(2) have "c' = snd (anext c)" by (cases "anext c") (simp add: api_call_def)
  then show ?thesis using sound_recv [OF assms(1)] by simp
qed

text \<open>What every call keeps, a sequence of calls keeps.\<close>

lemma run_calls_invariant:
  assumes call: "\<And>call c r c'. I c \<Longrightarrow> api_call cz call c = Some (r, c') \<Longrightarrow> I c'"
  shows "I c \<Longrightarrow> run_calls cz calls c = Some (r, c') \<Longrightarrow> I c'"
proof (induction calls arbitrary: c)
  case (Cons call calls)
  from Cons.prems(2) obtain r1 c1 where c1: "api_call cz call c = Some (r1, c1)"
    by (cases "api_call cz call c") auto
  note kept = call [OF Cons.prems(1) c1]
  show ?case
  proof (cases r1)
    case (Inl e)
    with Cons.prems(2) c1 kept show ?thesis by simp
  next
    case (Inr u)
    with Cons.prems(2) c1 have "run_calls cz calls c1 = Some (r, c')" by simp
    from Cons.IH [OF kept this] show ?thesis .
  qed
qed simp

lemmas sound_run_calls = run_calls_invariant [where I = sound_state, OF sound_api_call]

section \<open>Operations of the event loop\<close>

text \<open>What the source and the sink of an event pump keep, the pump keeps.\<close>

lemma emit_invariant:
  assumes "emit_protocol_events next_ev sink s = Some (r, s')" and "I s"
    and source: "\<And>s. I s \<Longrightarrow> I (snd (next_ev s))"
    and sink: "\<And>e s r s'. I s \<Longrightarrow> sink e s = Some (r, s') \<Longrightarrow> I s'"
  shows "I s'"
proof -
  have "n = next_ev \<longrightarrow> k = sink \<longrightarrow> I s \<longrightarrow> I (snd y)" if "emit_protocol_events n k s = Some y" for n k s y
  proof (rule emit_protocol_events.raw_induct [rotated, OF that], intro impI)
    fix emit n k s y
    assume IH: "\<And>n k s y. emit n k s = Some y \<Longrightarrow> n = next_ev \<longrightarrow> k = sink \<longrightarrow> I s \<longrightarrow> I (snd y)"
      and body: "(case n s of (None, s') \<Rightarrow> Some (Inr (), s')
        | (Some event, s') \<Rightarrow> Option.bind (k event s') (\<lambda>(r, s''). case r of Inl e \<Rightarrow> Some (Inl e, s'')
            | Inr FlowContinue \<Rightarrow> emit n k s'' | Inr FlowStop \<Rightarrow> Some (Inr (), s''))) = Some y"
      and eq: "n = next_ev" "k = sink" and s: "I s"
    obtain e s1 where n: "next_ev s = (e, s1)" by fastforce
    with source [OF s] have s1: "I s1" by simp
    show "I (snd y)"
    proof (cases e)
      case None
      with body n eq s1 show ?thesis by auto
    next
      case (Some ev)
      with body n eq obtain r2 s2 where k: "sink ev s1 = Some (r2, s2)" by (cases "sink ev s1") auto
      from sink [OF s1 this] have s2: "I s2" .
      show ?thesis
      proof (cases "r2 = Inr FlowContinue")
        case True
        with body n eq Some k have "emit n k s2 = Some y" by simp
        from IH [OF this] eq s2 show ?thesis by simp
      next
        case False
        with body n eq Some k have "snd y = s2" by (auto split: sum.splits EventFlow.splits)
        with s2 show ?thesis by simp
      qed
    qed
  qed
  with assms(1,2) show ?thesis by fastforce
qed

text \<open>What the callback keeps, running the queued callbacks keeps.\<close>

lemma flush_loop_invariant:
  assumes "flush_loop cb c = Some (r, c')" and "I c"
    and cb: "\<And>m c r c'. I c \<Longrightarrow> cb m c = Some (r, c') \<Longrightarrow> I c'"
    and queue: "\<And>c ms. I c \<Longrightarrow> I (c\<lparr>pending_callback_msgs := ms\<rparr>)"
  shows "I c'"
proof -
  have "f = cb \<longrightarrow> I c \<longrightarrow> I (snd y)" if "flush_loop f c = Some y" for f c y
  proof (rule flush_loop.raw_induct [rotated, OF that], intro impI)
    fix flush f c y
    assume IH: "\<And>f c y. flush f c = Some y \<Longrightarrow> f = cb \<longrightarrow> I c \<longrightarrow> I (snd y)"
      and body: "(if \<not> on_message c then Some (Inr (), c)
        else case pending_callback_msgs c of [] \<Rightarrow> Some (Inr (), c)
          | msg # rest \<Rightarrow> Option.bind (f msg (c\<lparr>pending_callback_msgs := rest\<rparr>)) (\<lambda>(r, c').
              case r of Inl e \<Rightarrow> Some (Inl e, c') | Inr x \<Rightarrow> flush f c')) = Some y"
      and f: "f = cb" and c: "I c"
    show "I (snd y)"
    proof (cases "on_message c \<and> pending_callback_msgs c \<noteq> []")
      case False
      with body c show ?thesis by (auto split: if_splits list.splits)
    next
      case True
      then obtain m rest where q: "pending_callback_msgs c = m # rest" by (auto simp: neq_Nil_conv)
      with body True obtain r c' where call: "cb m (c\<lparr>pending_callback_msgs := rest\<rparr>) = Some (r, c')"
        and y: "(case r of Inl e \<Rightarrow> Some (Inl e, c') | Inr _ \<Rightarrow> flush f c') = Some y"
        unfolding f by (auto split: Option.bind_splits)
      from cb [OF queue [OF c] call] have "I c'" .
      with y IH [of f c'] f show ?thesis by (auto split: sum.splits)
    qed
  qed
  with assms(1,2) show ?thesis by fastforce
qed

lemma flush_invariant:
  assumes "flush_pending_callbacks cb c = Some (r, c')" and "I c"
    and "\<And>m c r c'. I c \<Longrightarrow> cb m c = Some (r, c') \<Longrightarrow> I c'"
    and "\<And>c ms. I c \<Longrightarrow> I (c\<lparr>pending_callback_msgs := ms\<rparr>)"
  shows "I c'"
  using assms(1,2) flush_loop_invariant [where I = I, OF _ _ assms(3,4), of cb c r c']
  by (auto simp: flush_pending_callbacks_def split: if_splits)

text \<open>The same for the frame walker and its visitor.\<close>

lemma walk_invariant:
  assumes "walk_frames data visitor s = (r, s')" and "I s"
    and visit: "\<And>f s. I s \<Longrightarrow> I (snd (visitor f s))"
  shows "I s'"
proof -
  have "I (snd (visit_frames visitor fs s))" if "I s" for fs s
    using that
  proof (induction fs arbitrary: s)
    case (Cons f fs)
    obtain x s1 where v: "visitor f s = (x, s1)" by fastforce
    with visit [OF Cons.prems, of f] have "I s1" by simp
    with Cons.IH [of s1] v show ?case by (simp split: sum.split VisitOutcome.split)
  qed simp
  from this [OF assms(2), of "fst (split_frames data 0)"] assms(1) show ?thesis
    by (auto simp: walk_frames_def walk_frames_from_split split: prod.splits sum.splits option.splits)
qed

lemma sound_take_ping: "sound_state c \<Longrightarrow> sound_state (snd (take_ping p c))"
  by (auto simp: take_ping_def sound_state_def pending_futures_def remove_key_def split: option.splits)

lemma sound_begin_peer_close:
  assumes "sound_state c" shows "sound_state (snd (begin_peer_close code reason c))"
proof -
  let ?c = "c\<lparr>close_received_code := code, close_received_reason := reason\<rparr>"
  let ?d = "if code \<noteq> None then ?c\<lparr>close_code := code, close_reason := reason\<rparr> else ?c"
  have "sound_state ?d" by (rule sound_life [OF assms]) simp
  from sound_take_pending [OF this, of True] show ?thesis
    by (rule sound_life) (simp add: begin_peer_close_def take_pending_def Let_def life_def)
qed

lemma sound_begin_protocol_error:
  assumes "sound_state c" shows "sound_state (snd (begin_protocol_error code reason c))"
proof -
  let ?c = "c\<lparr>close_code := Some code, close_reason := Some (lit reason)\<rparr>"
  have "sound_state ?c" by (rule sound_life [OF assms]) simp
  from sound_take_pending [OF this, of True] show ?thesis
    by (rule sound_life) (simp add: begin_protocol_error_def take_pending_def Let_def split_def, simp add: life_def)
qed

lemma sound_with_core:
  "sound_state c \<Longrightarrow> fragment_bounded d \<Longrightarrow> sound_state (with_core c d)"
  by (simp add: sound_state_def fragment_bounded_def with_core_def pending_futures_def)

lemma sound_core: "sound_state c \<Longrightarrow> fragment_bounded (protocol_core c)"
  by (simp add: sound_state_def fragment_bounded_def protocol_core_def)

lemma sound_next_event: "sound_state c \<Longrightarrow> sound_state (snd (client_next_event inflate c))"
  using next_event_bounded [OF sound_core] by (auto simp: client_next_event_def split: prod.split intro: sound_with_core)

lemma process_handshake_fragment: "pc_fragment_buf (snd (process_handshake d)) = pc_fragment_buf d"
  by (simp add: process_handshake_def Let_def split: option.split)

lemma sound_handshake: "sound_state c \<Longrightarrow> process_handshake (protocol_core c) = (h, d) \<Longrightarrow> sound_state (with_core c d)"
  using process_handshake_fragment [of "protocol_core c"] sound_core [of c]
  by (auto simp: fragment_bounded_def intro: sound_with_core)

lemma sound_drop_handshake_fut: "sound_state c \<Longrightarrow> sound_state (c\<lparr>handshake_fut := None\<rparr>)"
  by (auto simp: sound_state_def pending_futures_def)

text \<open>Every state the fast path goes through while it holds the client.\<close>

lemma sound_scan_visitor:
  assumes "sound_state (sc_client s)"
  shows "sound_state (sc_client (snd (scan_visitor mode data f s)))"
proof -
  let ?c = "sc_client s"
  have "sound_state (snd (encode_control_frame OP_PONG (ff_payload f) ?c))" by (rule sound_life [OF assms]) simp
  moreover have "sound_state (snd (begin_peer_close code reason ?c))" for code reason
    using assms by (rule sound_begin_peer_close)
  moreover have "sound_state (snd (take_ping (ff_payload f) ?c))" using assms by (rule sound_take_ping)
  moreover have "sound_state (snd (deliver_message m ?c))" for m using assms by (rule sound_deliver)
  ultimately show ?thesis
    using assms by (auto simp: scan_visitor_def Let_def split_def split: sum.split option.split)
qed

text \<open>
  The entry points of asyncio rely on three parts: the slow path, the fast path, and the run of the
  queued callbacks.  What these keep, the entry points keep.
\<close>

locale receive_invariant =
  fixes inflate :: inflater and cb :: callback and I :: "client \<Rightarrow> bool"
  assumes keep_buf: "I c \<Longrightarrow> I (c\<lparr>buf := b\<rparr>)" and keep_recv_buf: "I c \<Longrightarrow> I (c\<lparr>recv_buf := b\<rparr>)"
    and keep_needed: "I c \<Longrightarrow> I (c\<lparr>next_frame_needed := n\<rparr>)"
    and keep_flush: "flush_pending_callbacks cb c = Some (r, c') \<Longrightarrow> I c \<Longrightarrow> I c'"
    and keep_buffered: "process_buffered_frames inflate cb c = Some (r, c') \<Longrightarrow> I c \<Longrightarrow> I c'"
    and keep_scan: "scan_frame_aligned cb data mode c = Some (x, c') \<Longrightarrow> I c \<Longrightarrow> I c'"
begin

lemma park_tail_kept:
  "park_tail_and_drain inflate cb outcome data c = Some (r, c') \<Longrightarrow> I c \<Longrightarrow> I c'"
  by (auto simp: park_tail_and_drain_def split: ScanOutcome.splits if_splits intro: keep_buffered [OF _ keep_buf])

lemma fast_kept:
  assumes "Option.bind (scan_frame_aligned cb data mode c) (\<lambda>(r, c). case r of
      Inl e \<Rightarrow> Some (Inl e, c) | Inr outcome \<Rightarrow> park_tail_and_drain inflate cb outcome data c) = Some (r, c')"
    and "I c"
  shows "I c'"
proof -
  obtain x c1 where sc: "scan_frame_aligned cb data mode c = Some (x, c1)"
    using assms(1) by (cases "scan_frame_aligned cb data mode c") auto
  have "I c1" using sc assms(2) by (rule keep_scan)
  with assms(1) sc show ?thesis by (auto split: sum.splits intro: park_tail_kept)
qed

lemma inner_kept:
  assumes "I c"
  shows "data_received_inner inflate cb data c = Some (r, c') \<Longrightarrow> I c'"
    and "data_received_inner_pybytes inflate cb data c = Some (r, c') \<Longrightarrow> I c'"
proof -
  show *: "data_received_inner inflate cb data c = Some (r, c') \<Longrightarrow> I c'"
    using keep_buffered [OF _ keep_buf [OF assms]] fast_kept [OF _ assms]
    by (auto simp: data_received_inner_def split: if_splits)
  show "data_received_inner_pybytes inflate cb data c = Some (r, c') \<Longrightarrow> I c'"
    using * fast_kept [OF _ assms] by (auto simp: data_received_inner_pybytes_def split: if_splits)
qed

lemma then_flush_kept:
  assumes "then_flush cb p = Some (r, c')" and "\<And>r c. p = Some (r, c) \<Longrightarrow> I c"
  shows "I c'"
proof -
  obtain r1 c1 where p: "p = Some (r1, c1)" using assms(1) by (cases p) (auto simp: then_flush_def)
  with assms(1) obtain r2 where "flush_pending_callbacks cb c1 = Some (r2, c')"
    by (cases "flush_pending_callbacks cb c1") (auto simp: then_flush_def)
  then show ?thesis using assms(2) [OF p] by (rule keep_flush)
qed

lemma data_received_kept:
  assumes "data_received inflate cb obj c = Some (r, c')" and "I c"
  shows "I c'"
proof (cases obj)
  case (BytesObject data)
  with assms(1) have "then_flush cb (data_received_inner_pybytes inflate cb data c) = Some (r, c')"
    by (simp add: data_received_def)
  then show ?thesis by (rule then_flush_kept) (rule inner_kept(2) [OF assms(2)])
next
  case (FlatBuffer data)
  with assms(1) have "then_flush cb (if data = [] then Some (Inr (), c) else data_received_inner inflate cb data c) = Some (r, c')"
    by (simp add: data_received_def data_received_plaintext_def)
  then show ?thesis
    by (rule then_flush_kept) (auto simp: assms(2) split: if_splits intro: inner_kept(1) [OF assms(2)])
qed (use assms in \<open>simp_all add: data_received_def\<close>)

lemma parse_recv_kept:
  assumes "parse_recv_data inflate cb data c = Some (r, c')" and "I c"
  shows "I c'"
proof (cases "fast_path_eligible c")
  case True
  obtain x c1 where sc: "scan_frame_aligned cb data ZeroCopyOwned c = Some (x, c1)"
    using assms(1) True by (cases "scan_frame_aligned cb data ZeroCopyOwned c") (auto simp: parse_recv_data_def)
  have c1: "I c1" using sc assms(2) by (rule keep_scan)
  have "c' = c1 \<or> (\<exists>d r. data_received_inner inflate cb d c1 = Some (r, c'))"
    using assms(1) True sc
    by (auto simp: parse_recv_data_def split: sum.splits ScanOutcome.splits Option.bind_splits)
  then show ?thesis using c1 inner_kept(1) [OF c1] by blast
next
  case False
  with assms(1) obtain r1 where "data_received_inner inflate cb data c = Some (r1, c')"
    by (cases "data_received_inner inflate cb data c") (auto simp: parse_recv_data_def)
  then show ?thesis by (rule inner_kept(1) [OF assms(2)])
qed

lemma buffer_updated_kept:
  assumes "buffer_updated inflate cb written c = Some (r, c')" and "I c"
  shows "I c'"
proof -
  let ?c = "c\<lparr>recv_buf := recv_buf c @ written\<rparr>"
  let ?d = "?c\<lparr>next_frame_needed := None, recv_buf := []\<rparr>"
  have c: "I ?c" using assms(2) by (rule keep_recv_buf)
  have d: "I ?d" by (rule keep_recv_buf [OF keep_needed [OF c]])
  show ?thesis
  proof (cases "case next_frame_needed ?c of Some needed \<Rightarrow> length (recv_buf ?c) < needed | None \<Rightarrow> False")
    case True
    with assms(1) have "c' = ?c" by (simp add: buffer_updated_def Let_def)
    with c show ?thesis by simp
  next
    case False
    with assms(1) obtain x c1 where p: "parse_recv_data inflate cb (recv_buf ?c) ?d = Some (x, c1)"
      by (cases "parse_recv_data inflate cb (recv_buf ?c) ?d") (auto simp: buffer_updated_def Let_def)
    have c1: "I c1" using p d by (rule parse_recv_kept)
    have "c' = c1 \<or> (\<exists>r rb n. flush_pending_callbacks cb (c1\<lparr>next_frame_needed := n\<rparr>) = Some (r, c') \<or>
        flush_pending_callbacks cb (c1\<lparr>recv_buf := rb, next_frame_needed := n\<rparr>) = Some (r, c'))"
      using assms(1) False p by (cases x) (auto simp: buffer_updated_def Let_def split: prod.splits if_splits)
    then show ?thesis using c1 keep_flush keep_recv_buf keep_needed by blast
  qed
qed

end

text \<open>What the invariant asks of the user's callback.\<close>

locale careful_callback =
  fixes cb :: callback
  assumes cb_sound: "sound_state c \<Longrightarrow> cb m c = Some (r, c') \<Longrightarrow> sound_state c'"
begin

lemma sound_flush:
  assumes "flush_pending_callbacks cb c = Some (r, c')" and "sound_state c"
  shows "sound_state c'"
proof (rule flush_invariant [where I = sound_state, OF assms])
  show "sound_state (c\<lparr>pending_callback_msgs := ms\<rparr>)" if "sound_state c" for c ms
    using that by (rule sound_life) simp
qed (rule cb_sound)

lemma sound_apply_peer_close:
  assumes "apply_peer_close cb pending t c = Some (r, c')" and "sound_state c"
  shows "sound_state c'"
proof -
  obtain r1 c1 where fl: "flush_pending_callbacks cb c = Some (r1, c1)"
    using assms(1) by (cases "flush_pending_callbacks cb c") (auto simp: apply_peer_close_def)
  from sound_flush [OF fl assms(2)] have "sound_state c1" .
  moreover have "life c' = life c1" using assms(1) fl by (auto simp: apply_peer_close_def Let_def)
  ultimately show ?thesis by (rule sound_life)
qed

lemma sound_handle_error:
  assumes "handle_protocol_event cb (ProtocolError code reason) c = Some (r, c')" and "sound_state c"
  shows "sound_state c'"
proof -
  obtain p t f c1 where b: "begin_protocol_error code reason c = ((p, t, f), c1)" by (metis surj_pair)
  with sound_begin_protocol_error [OF assms(2), of code reason] have "sound_state c1" by simp
  moreover obtain r2 c2 where fl: "flush_pending_callbacks cb c1 = Some (r2, c2)"
    using assms(1) b by (cases "flush_pending_callbacks cb c1") (auto simp: handle_protocol_event_def)
  ultimately have "sound_state c2" by (metis sound_flush)
  moreover have "life c' = life c2"
    using assms(1) b fl by (auto simp: handle_protocol_event_def Let_def transport_write_call_eq split: sum.splits option.splits)
  ultimately show ?thesis by (rule sound_life)
qed

lemma sound_handle:
  assumes "handle_protocol_event cb ev c = Some (r, c')" and "sound_state c"
  shows "sound_state c'"
proof (cases ev)
  case (Message m)
  with assms sound_deliver [OF assms(2), of m] show ?thesis by (cases "deliver_message m c") (simp add: handle_Message)
next
  case (Pong p)
  have "sound_state (snd (take_ping p c))" using assms(2) by (rule sound_take_ping)
  with Pong assms(1) show ?thesis
    by (auto simp: handle_Pong split: prod.splits option.splits intro: sound_life [OF _ life_acknowledge])
next
  case (SendPong p)
  with assms(1) have "life c' = life c"
    using life_wide [OF wide_encode_control_frame(1) [of OP_PONG p c]]
    by (cases "encode_control_frame OP_PONG p c") (auto simp: handle_SendPong split: if_splits)
  with assms(2) show ?thesis by (rule sound_life)
next
  case (Close code reason)
  obtain p t c1 where b: "begin_peer_close code reason c = ((p, t), c1)" by (metis surj_pair)
  with sound_begin_peer_close [OF assms(2), of code reason] have "sound_state c1" by simp
  moreover from assms(1) Close b obtain r1 where "apply_peer_close cb p t c1 = Some (r1, c')"
    by (cases "apply_peer_close cb p t c1") (auto simp: handle_protocol_event_def)
  ultimately show ?thesis by (metis sound_apply_peer_close)
next
  case (ProtocolError code reason)
  with assms sound_handle_error show ?thesis by simp
qed

lemma sound_drain: "drain_events inflate cb c = Some (r, c') \<Longrightarrow> sound_state c \<Longrightarrow> sound_state c'"
  unfolding drain_events_def
  by (erule emit_invariant [where I = sound_state]) (auto intro: sound_next_event sound_handle)

lemma sound_process_buffered:
  assumes "process_buffered_frames inflate cb c = Some (r, c')" and "sound_state c"
  shows "sound_state c'"
proof -
  obtain h d where ph: "process_handshake (protocol_core c) = (h, d)" by fastforce
  note core = sound_handshake [OF assms(2) ph]
  show ?thesis
  proof (cases h)
    case (Accepted sub en)
    let ?c = "(with_core c d)\<lparr>handshake_done := True, subprotocol := sub\<rparr>"
    let ?e = "(if \<not> en then ?c\<lparr>deflate := False\<rparr> else ?c)\<lparr>handshake_fut := None\<rparr>"
    let ?f = "case handshake_fut (with_core c d) of None \<Rightarrow> ?e | Some f \<Rightarrow> snd (set_future_result f PyNone ?e)"
    have "sound_state (if \<not> en then ?c\<lparr>deflate := False\<rparr> else ?c)" by (rule sound_life [OF core]) simp
    then have "sound_state ?e" by (rule sound_drop_handshake_fut)
    then have "sound_state ?f" by (rule sound_life) (simp split: option.split)
    moreover have "drain_events inflate cb ?f = Some (r, c')"
      using assms(1) ph Accepted 
      by (cases en; cases "handshake_fut (with_core c d)") (simp_all add: process_buffered_frames_def Let_def)
    ultimately show ?thesis by (metis sound_drain)
  next
    case (Rejected st)
    have "sound_state (set_future_exception f e ((with_core c d)\<lparr>handshake_fut := None\<rparr>))" for f e
      by (rule sound_life [OF sound_drop_handshake_fut [OF core]]) simp
    with assms(1) ph Rejected core show ?thesis
      by (auto simp: process_buffered_frames_def Let_def split: option.splits)
  next
    case Complete
    with assms(1) ph core sound_drain show ?thesis by (simp add: process_buffered_frames_def)
  next
    case HandshakePending
    with assms(1) ph core show ?thesis by (simp add: process_buffered_frames_def)
  qed
qed

lemma sound_scan:
  assumes "scan_frame_aligned cb data mode c = Some (r, c')" and "sound_state c"
  shows "sound_state c'"
proof -
  let ?s = "\<lparr>sc_client = c, sc_close = None, sc_acks = [], sc_pongs = []\<rparr>"
  obtain x s where w: "walk_frames data (scan_visitor mode data) ?s = (x, s)" by fastforce
  have s: "sound_state (sc_client s)"
    by (rule walk_invariant [OF w]) (simp_all add: assms(2) sound_scan_visitor)
  let ?d = "write_pongs (sc_pongs s) (acknowledge_all (sc_acks s) (sc_client s))"
  have d: "sound_state ?d" by (rule sound_life [OF s]) simp
  consider "c' = sc_client s" | "c' = ?d" | p t r1 where "apply_peer_close cb p t ?d = Some (r1, c')"
    using assms(1) w
    by (auto simp: scan_frame_aligned_def Let_def split: sum.splits ScanOutcome.splits option.splits Option.bind_splits)
  then show ?thesis using s d sound_apply_peer_close by cases (simp, simp, blast)
qed

lemma sound_connection_lost:
  assumes "connection_lost cb exc c = Some (r, c')" and "sound_state c"
  shows "sound_state c'"
proof -
  obtain r1 c1 where fl: "flush_pending_callbacks cb c = Some (r1, c1)"
    using assms(1) by (cases "flush_pending_callbacks cb c") (auto simp: connection_lost_def)
  let ?d = "c1\<lparr>terminal_error := if is_capacity_error exc then exc else terminal_error c1\<rparr>"
  have "sound_state (release_references ?d)" by (rule sound_life [OF sound_flush [OF fl assms(2)]]) simp
  then have "sound_state ((snd (take_pending (release_references ?d)))\<lparr>closed := True\<rparr>)" by (rule sound_take_pending)
  moreover have "life c' = life ((snd (take_pending (release_references ?d)))\<lparr>closed := True\<rparr>)"
    using assms(1) fl by (auto simp: connection_lost_def Let_def take_pending_def release_references_def) (simp_all add: life_def)
  ultimately show ?thesis by (rule sound_life)
qed

end

sublocale careful_callback \<subseteq> sound: receive_invariant inflate cb sound_state for inflate
  by unfold_locales (auto intro: sound_flush sound_process_buffered sound_scan elim: sound_life)

text \<open>The pings an application waits for.\<close>

lemma sound_insert_ping: "sound_state c \<Longrightarrow> \<not> closed c \<Longrightarrow> sound_state (insert_ping p i c)"
  by (simp add: sound_state_def insert_ping_def)

lemma sound_remove_ping:
  "sound_state c \<Longrightarrow> sound_state (c\<lparr>pending_pings := map_option (remove_key p) (pending_pings c)\<rparr>)"
  by (auto simp: sound_state_def pending_futures_def remove_key_def split: option.splits)

lemma sound_ping_cleanup: "sound_state c \<Longrightarrow> sound_state (ping_cleanup p i c)"
  using sound_remove_ping [of c p] by (auto simp: ping_cleanup_def split: option.split)

lemma sound_replace_done_ping:
  assumes "\<And>c. sound_state c \<Longrightarrow> sound_state (reenter c)" and "sound_state c"
  shows "sound_state (snd (replace_done_ping reenter p c))"
proof -
  have r: "sound_state (reenter c)" using assms by blast
  show ?thesis
  proof (cases "ping_of p c")
    case None
    then show ?thesis by (simp add: replace_done_ping_def assms(2))
  next
    case (Some i)
    show ?thesis
    proof (cases "future_done (futures c i)")
      case (Inl e)
      then show ?thesis by (simp add: replace_done_ping_def Some r)
    next
      case (Inr x)
      have "sound_state ((reenter c)\<lparr>pending_pings := Some (remove_key p pings)\<rparr>)"
        if "pending_pings (reenter c) = Some pings" for pings
        using sound_remove_ping [OF r, of p] that by simp
      then show ?thesis
        by (cases x) (simp_all add: replace_done_ping_def Some Inr r Let_def split: option.split)
    qed
  qed
qed

lemma life_create_future [simp]: "life (snd (call_create_future c)) = life c"
  by (simp add: call_create_future_def split: sum.split)

lemma life_add_done_callback [simp]: "life (snd (add_done_callback p i c)) = life c"
  by (simp add: add_done_callback_def split: option.split)

context careful_callback
begin

lemma sound_write_ping:
  assumes "write_ping cb p i c = Some (r, c')" and "sound_state c" and "\<not> closed c"
  shows "sound_state c'"
proof -
  obtain fr c1 where e: "encode_control_into OP_PING p c = (fr, c1)" by fastforce
  then have "life c1 = life c" using life_wide [OF wide_encode_control_frame(2) [of OP_PING p c]] by simp
  with assms(2,3) have "sound_state c1" "\<not> closed c1" by (auto intro: sound_life simp: life_def)
  then have ins: "sound_state (insert_ping p i c1)" by (rule sound_insert_ping)
  obtain x c2 where w: "transport_write_call fr (insert_ping p i c1) = (x, c2)" by fastforce
  have c2: "sound_state c2"
    by (rule sound_life [OF ins]) (use life_wide [OF wide_transport_write [of fr "insert_ping p i c1"]] w in simp)
  show ?thesis
  proof (cases x)
    case (Inr u)
    with assms(1) e w c2 show ?thesis by (simp add: write_ping_def)
  next
    case (Inl err)
    let ?d = "transport_close (cancel_future i (c2\<lparr>pending_pings := map_option (remove_key p) (pending_pings c2)\<rparr>))"
    have d: "sound_state ?d" by (rule sound_life [OF sound_remove_ping [OF c2]]) simp
    from assms(1) e w Inl obtain r1 where "connection_lost cb None ?d = Some (r1, c')"
      by (cases "connection_lost cb None ?d") (auto simp: write_ping_def Let_def)
    then show ?thesis using d by (rule sound_connection_lost)
  qed
qed

lemma sound_ping_waiter:
  assumes "ping_waiter cb reenter data c = Some (r, c')" and "sound_state c"
    and reenter: "\<And>c. sound_state c \<Longrightarrow> sound_state (reenter c)"
  shows "sound_state c'"
proof (cases "length (case data of None \<Rightarrow> [] | Some d \<Rightarrow> d) \<le> 125 \<and> \<not> closed c \<and> create_future c")
  case False
  then have "c' = c" using assms(1) by (auto simp: ping_waiter_def Let_def split: if_splits)
  with assms(2) show ?thesis by simp
next
  case ok: True
  define p where "p = (case data of None \<Rightarrow> [] | Some d \<Rightarrow> d)"
  obtain x1 c1 where s1: "replace_done_ping reenter p c = (x1, c1)" by fastforce
  obtain x2 c2 where s2: "call_create_future c1 = (x2, c2)" by fastforce
  obtain x3 c3 where s3: "add_done_callback p (projr x2) (reenter c2) = (x3, c3)" by fastforce
  have c1: "sound_state c1" using sound_replace_done_ping [of reenter c p] reenter assms(2) s1 by simp
  have c2: "sound_state c2" by (rule sound_life [OF c1]) (use life_create_future [of c1] s2 in simp)
  have c3: "sound_state c3" by (rule sound_life [OF reenter [OF c2]])
    (use life_add_done_callback [of p "projr x2" "reenter c2"] s3 in simp)
  have cancel: "sound_state (cancel_future j (reenter c3))" for j by (rule sound_life [OF reenter [OF c3]]) simp
  have "c' = c1 \<or> c' = reenter c2 \<or> c' = reenter c3 \<or> c' = cancel_future (projr x2) (reenter c3) \<or>
      \<not> closed (reenter c3) \<and> (\<exists>r. write_ping cb p (projr x2) (reenter c3) = Some (r, c'))"
    using assms(1) ok s1 s2 s3 unfolding ping_waiter_def Let_def p_def [symmetric]
    by (cases x1; cases x2; cases x3) (auto split: if_splits)
  then show ?thesis using c1 reenter [OF c2] reenter [OF c3] cancel sound_write_ping by blast
qed

end

interpretation scripted_careful: careful_callback "scripted cz script" for cz script
  by unfold_locales (auto simp: scripted_def intro: sound_run_calls)

section \<open>Reachable clients\<close>

text \<open>
  What can happen to a client: a call of the application, a callback of asyncio, the completion of
  a ping.  A new ping creates a future and asks others whether they are done, which may run Python
  code that calls the client back.
\<close>

datatype (plugins only: code) Operation =
    Api ApiCall
  | DataReceived PyData
  | BufferUpdated bytes
  | ConnectionMade transport_info
  | ConnectionLost "PyErr option"
  | PauseWriting
  | ResumeWriting
  | PingWaiter "bytes option" "ApiCall list"
  | PingDone bytes fut

definition reentrant :: "'z compressor \<Rightarrow> ApiCall list \<Rightarrow> client \<Rightarrow> client" where
  "reentrant cz calls c = (case run_calls cz calls c of None \<Rightarrow> c | Some (r, c') \<Rightarrow> c')"

definition perform :: "inflater \<Rightarrow> 'z compressor \<Rightarrow> callback \<Rightarrow> Operation \<Rightarrow> client \<Rightarrow> client option" where
  "perform inflate cz cb op c =
     (case op of
        Api call \<Rightarrow> map_option snd (api_call cz call c)
      | DataReceived obj \<Rightarrow> map_option snd (data_received inflate cb obj c)
      | BufferUpdated written \<Rightarrow> map_option snd (buffer_updated inflate cb written c)
      | ConnectionMade t \<Rightarrow> Some (snd (connection_made t c))
      | ConnectionLost exc \<Rightarrow> map_option snd (connection_lost cb exc c)
      | PauseWriting \<Rightarrow> Some (pause_writing c)
      | ResumeWriting \<Rightarrow> Some (snd (resume_writing c))
      | PingWaiter data calls \<Rightarrow> map_option snd (ping_waiter cb (reentrant cz calls) data c)
      | PingDone payload fut \<Rightarrow> Some (ping_cleanup payload fut c))"

text \<open>The clients that arise from a new connection whose event loop makes futures with \<open>mk\<close>.\<close>

inductive reachable :: "inflater \<Rightarrow> 'z compressor \<Rightarrow> callback \<Rightarrow> (fut \<Rightarrow> PyErr + PyFuture) \<Rightarrow> client \<Rightarrow> bool"
  for inflate cz cb mk where
  opened: "bind_event_loop (connect_state accept has_cb has_timeout zc compression mk random hw m) = (r, c) \<Longrightarrow>
      reachable inflate cz cb mk c"
| performed: "reachable inflate cz cb mk c \<Longrightarrow> perform inflate cz cb op c = Some c' \<Longrightarrow> reachable inflate cz cb mk c'"

lemma sound_opened:
  "bind_event_loop (connect_state accept has_cb has_timeout zc compression mk random hw m) = (r, c) \<Longrightarrow> sound_state c"
  by (auto simp: bind_event_loop_def connect_state_def call_create_future_def sound_state_def pending_futures_def split: sum.splits)

lemma sound_reentrant: "sound_state c \<Longrightarrow> sound_state (reentrant cz calls c)"
  by (auto simp: reentrant_def intro: sound_run_calls split: option.split)

lemma sound_perform:
  assumes "perform inflate cz (scripted cz script) op c = Some c'" and "sound_state c"
  shows "sound_state c'"
proof (cases op)
  case (Api call)
  with assms sound_api_call [OF assms(2)] show ?thesis by (auto simp: perform_def)
next
  case (DataReceived obj)
  with assms show ?thesis by (auto simp: perform_def intro: scripted_careful.sound.data_received_kept)
next
  case (BufferUpdated w)
  with assms show ?thesis by (auto simp: perform_def intro: scripted_careful.sound.buffer_updated_kept)
next
  case (ConnectionLost exc)
  with assms show ?thesis by (auto simp: perform_def intro: scripted_careful.sound_connection_lost)
next
  case (PingWaiter data calls)
  with assms sound_reentrant show ?thesis by (auto simp: perform_def intro: scripted_careful.sound_ping_waiter)
next
  case (PingDone p i)
  with assms show ?thesis by (auto simp: perform_def intro: sound_ping_cleanup)
next
  case (ConnectionMade t)
  with assms(1) have "life c' = life c" by (auto simp: perform_def)
  with assms(2) show ?thesis by (rule sound_life)
next
  case PauseWriting
  with assms(1) have "life c' = life c" by (auto simp: perform_def)
  with assms(2) show ?thesis by (rule sound_life)
next
  case ResumeWriting
  with assms(1) have "life c' = life c" by (auto simp: perform_def)
  with assms(2) show ?thesis by (rule sound_life)
qed

section \<open>Properties\<close>

text \<open>The client an application has waited on and then closed, for the example.\<close>

definition opened_client :: client where
  "opened_client = snd (bind_event_loop (connect_state [] False False None False asyncio_new_future (\<lambda>_. 0) 65536
       \<lparr>x86_64 = False, has_avx512f = False, big_endian = False\<rparr>))"

text \<open>C12 Whatever calls, callbacks and reads a client goes through, in whatever order and from within
  the user's callback too, a closed client has no future left waiting for it, queued messages and
  waiting receivers never exist side by side, and a message in reassembly is within its bound.\<close>

theorem reachable_client_sound:
  assumes "reachable inflate cz (scripted cz script) mk c"
  shows "(closed c \<longrightarrow> pending_futures c = []) \<and> (backlog c \<noteq> [] \<longrightarrow> pending_recv c = []) \<and>
    (\<forall>f. fragment_buf c = Some f \<longrightarrow> length f \<le> MAX_MESSAGE_SIZE)"
proof -
  from assms have "sound_state c"
  proof induction
    case (opened accept has_cb has_timeout zc compression random hw m r c)
    then show ?case by (rule sound_opened)
  next
    case (performed c op c')
    then show ?case by (blast intro: sound_perform)
  qed
  then show ?thesis by (simp add: sound_state_def)
qed

theorem reachable_client_sound_witness:
  "let c = close (snd (recv opened_client)) in
     reachable unstore storing (scripted storing (\<lambda>_. [])) asyncio_new_future c \<and>
     closed c \<and> pending_futures (snd (recv opened_client)) = [1, 0] \<and> pending_futures c = []"
proof -
  let ?r = "reachable unstore storing (scripted storing (\<lambda>_. [])) asyncio_new_future"
  have "?r opened_client" unfolding opened_client_def by (rule reachable.opened [OF prod.collapse [symmetric]])
  then have "?r (snd (recv opened_client))"
    by (rule reachable.performed [where op = "Api CallRecv"]) (simp add: perform_def api_call_def)
  then have r: "?r (close (snd (recv opened_client)))"
    by (rule reachable.performed [where op = "Api CallClose"]) (simp add: perform_def api_call_def)
  have "closed (close (snd (recv opened_client)))" by (simp add: close_torn_down)
  moreover have "pending_futures (snd (recv opened_client)) = [1, 0]"
    by (simp add: opened_client_def bind_event_loop_def connect_state_def call_create_future_def asyncio_new_future_def
        recv_def wait_for_message_def park_receiver_def pending_futures_def RECV_SWEEP_MIN_def)
  ultimately show ?thesis using r reachable_client_sound [OF r] by (simp add: Let_def)
qed

end
