(* ===== verification/Fix_Decode.thy ===== *)
theory Fix_Decode
  imports Rust_Std
begin

text \<open>
  The FIXT.1.1 frame decoder of \<^verbatim>\<open>src/src/fix.rs\<close>: tags and decimals, fields, the framing checks
  with body length and checksum, the walk over the body with its repeating group, and the standard
  header.  A tag is a natural number within \<^verbatim>\<open>u32\<close>, kept there by the checked arithmetic of
  \<open>parse_tag\<close>.  Every message of the source's \<^verbatim>\<open>Err\<close> is a constructor of \<open>FixError\<close>; the Python
  entry points raise it as \<^verbatim>\<open>ValueError\<close>.  The decoder is shown to accept exactly the frames of
  well-formed messages and to give them back unchanged.
\<close>

section \<open>Data\<close>

definition SOH :: u8 where "SOH = 1"
definition MAX_FIX_FRAME_LEN :: nat where "MAX_FIX_FRAME_LEN = 2 ^ 20"
definition MAX_GROUP_ENTRIES :: nat where "MAX_GROUP_ENTRIES = 4096"
definition MAX_FIELDS :: nat where "MAX_FIELDS = 16384"

datatype (plugins only: code) FixError =
    TagNotCanonical | TagNotDigits | TagOverflow
  | NotCanonical string | NotDigits string | DecimalOverflow string
  | MissingSoh | MissingEquals
  | InvalidBeginString FixError | InvalidBodyLength FixError
  | DuplicateTag nat
  | GroupNeedsMsgType
  | HeaderRequires nat string | HeaderRequiresNonEmpty nat string | HeaderRequiresBefore nat string nat
  | MsgTypeNotThird | MsgTypeEmpty
  | FrameTooLong
  | BeginStringNotFirst | BeginStringNotFixt11
  | BodyLengthNotSecond | BodyLengthOverflows | BodyLengthMismatch
  | ChecksumTrailer | ChecksumNotDigits | ChecksumTooLarge | ChecksumMismatch nat nat
  | TooManyFields
  | FramingTagInBody nat | LeadTagWithoutCount nat
  | GroupCountTooLarge nat | CountNotOnce | TooManyEntries nat | EntryMustBeginWith nat
  | BodyLengthMidField | EntryCountMismatch nat nat

record FieldRef =
  field_tag :: nat
  field_value :: bytes

record Decoded =
  fix_fields :: "FieldRef list"
  entry_fields :: "FieldRef list"
  entry_starts :: "nat list"

definition slice :: "'a list \<Rightarrow> nat \<Rightarrow> nat \<Rightarrow> 'a list" where
  "slice xs a b = take (b - a) (drop a xs)"

definition ascii :: "string \<Rightarrow> bytes" where
  "ascii s = map u8_of (lit s)"

definition entry :: "Decoded \<Rightarrow> nat \<Rightarrow> FieldRef list" where
  "entry d i =
     (let start = entry_starts d ! i;
          stop = (if i + 1 < length (entry_starts d) then entry_starts d ! (i + 1) else length (entry_fields d))
      in slice (entry_fields d) start stop)"

section \<open>Tags, decimals and fields\<close>

text \<open>The digit loop of \<^verbatim>\<open>parse_tag\<close> and \<^verbatim>\<open>parse_decimal\<close>, at an unsigned type with largest value \<open>m\<close>.\<close>

definition is_ascii_digit :: "u8 \<Rightarrow> bool" where
  "is_ascii_digit b \<longleftrightarrow> 48 \<le> b \<and> b \<le> 57"

fun parse_digits :: "nat \<Rightarrow> FixError \<Rightarrow> FixError \<Rightarrow> nat \<Rightarrow> bytes \<Rightarrow> FixError + nat" where
  "parse_digits m not_digit overflow v [] = Inr v"
| "parse_digits m not_digit overflow v (b # bs) =
     (if \<not> is_ascii_digit b then Inl not_digit
      else and_then (ok_or (Option.bind (checked_mul m v 10) (\<lambda>w. checked_add m w (unat (b - 48)))) overflow)
             (\<lambda>v. parse_digits m not_digit overflow v bs))"

definition parse_tag :: "bytes \<Rightarrow> FixError + nat" where
  "parse_tag raw =
     (if raw = [] \<or> hd raw = 48 then Inl TagNotCanonical
      else parse_digits U32_MAX TagNotDigits TagOverflow 0 raw)"

definition parse_decimal :: "bytes \<Rightarrow> string \<Rightarrow> FixError + nat" where
  "parse_decimal raw label =
     (if raw = [] \<or> (1 < length raw \<and> hd raw = 48) then Inl (NotCanonical label)
      else parse_digits USIZE_MAX (NotDigits label) (DecimalOverflow label) 0 raw)"

text \<open>The scan for the first equals sign and the terminator, from position \<open>i\<close>.\<close>

fun field_scan :: "nat \<Rightarrow> nat option \<Rightarrow> bytes \<Rightarrow> nat option \<times> nat option" where
  "field_scan i equals [] = (equals, None)"
| "field_scan i equals (b # bs) =
     (if b = 61 \<and> equals = None then field_scan (i + 1) (Some i) bs
      else if b = SOH then (equals, Some i)
      else field_scan (i + 1) equals bs)"

definition parse_field :: "bytes \<Rightarrow> nat \<Rightarrow> nat \<Rightarrow> FixError + (FieldRef \<times> nat)" where
  "parse_field frame start limit =
     (case field_scan start None (slice frame start limit) of (equals, stop) \<Rightarrow>
        and_then (ok_or stop MissingSoh) (\<lambda>stop.
        and_then (ok_or (Option.bind equals (\<lambda>p. if p < stop then Some p else None)) MissingEquals) (\<lambda>equals.
        and_then (parse_tag (slice frame start equals)) (\<lambda>t.
          Inr (\<lparr>field_tag = t, field_value = slice frame (equals + 1) stop\<rparr>, stop + 1)))))"

section \<open>The standard header\<close>

definition reject_duplicate :: "FieldRef list \<Rightarrow> nat \<Rightarrow> FixError + unit" where
  "reject_duplicate fs t = (if list_ex (\<lambda>f. field_tag f = t) fs then Inl (DuplicateTag t) else Inr ())"

definition find_value :: "FieldRef list \<Rightarrow> nat \<Rightarrow> bytes option" where
  "find_value fs t = map_option field_value (List.find (\<lambda>f. field_tag f = t) fs)"

definition group_lead_tag :: "FieldRef list \<Rightarrow> FixError + nat" where
  "group_lead_tag fs =
     (let msg_type = find_value fs 35 in
      if msg_type = Some (ascii ''W'') then Inr 269
      else if msg_type = Some (ascii ''X'') then Inr 279
      else Inl GroupNeedsMsgType)"

fun position :: "('a \<Rightarrow> bool) \<Rightarrow> 'a list \<Rightarrow> nat option" where
  "position p [] = None"
| "position p (x # xs) = (if p x then Some 0 else map_option Suc (position p xs))"

function require_header_loop ::
  "FieldRef list \<Rightarrow> nat \<Rightarrow> string \<Rightarrow> nat list \<Rightarrow> nat \<Rightarrow> nat \<Rightarrow> FixError + nat" where
  "require_header_loop fs t name optional_before optional_cursor cursor =
     (if length fs \<le> cursor then Inl (HeaderRequires t name)
      else let f = fs ! cursor in
        if field_tag f = t then
          (if field_value f = [] then Inl (HeaderRequiresNonEmpty t name) else Inr (cursor + 1))
        else case position (\<lambda>candidate. candidate = field_tag f) (drop optional_cursor optional_before) of
            None \<Rightarrow> Inl (HeaderRequiresBefore t name (field_tag f))
          | Some relative \<Rightarrow>
              require_header_loop fs t name optional_before (optional_cursor + (relative + 1)) (cursor + 1))"
  by pat_completeness auto
termination
  by (relation "measure (\<lambda>(fs, t, name, opts, oc, cursor). length fs - cursor)") auto

declare require_header_loop.simps [simp del]

definition require_standard_header_field ::
  "FieldRef list \<Rightarrow> nat \<Rightarrow> nat \<Rightarrow> string \<Rightarrow> nat list \<Rightarrow> FixError + nat" where
  "require_standard_header_field fs cursor t name optional_before =
     require_header_loop fs t name optional_before 0 cursor"

definition validate_standard_header :: "FieldRef list \<Rightarrow> FixError + unit" where
  "validate_standard_header fs =
     (if length fs \<le> 2 then Inl MsgTypeNotThird
      else if field_tag (fs ! 2) \<noteq> 35 then Inl MsgTypeNotThird
      else if field_value (fs ! 2) = [] then Inl MsgTypeEmpty
      else
        and_then (require_standard_header_field fs 3 49 ''SenderCompID'' [1128, 1156, 1129]) (\<lambda>cursor.
        and_then (require_standard_header_field fs cursor 56 ''TargetCompID'' []) (\<lambda>cursor.
        and_then (require_standard_header_field fs cursor 34 ''MsgSeqNum'' [115, 128, 90, 91]) (\<lambda>cursor.
        and_then (require_standard_header_field fs cursor 52 ''SendingTime''
                    [50, 142, 57, 143, 116, 144, 129, 145, 43, 97]) (\<lambda>cursor. Inr ())))))"

section \<open>Framing\<close>

fun map_err :: "('e \<Rightarrow> 'f) \<Rightarrow> 'e + 'a \<Rightarrow> 'f + 'a" where
  "map_err f (Inl e) = Inl (f e)"
| "map_err f (Inr x) = Inr x"

text \<open>The first two fields, where the body starts and where the trailer starts.\<close>

definition frame_bounds :: "bytes \<Rightarrow> FixError + (FieldRef \<times> FieldRef \<times> nat \<times> nat)" where
  "frame_bounds frame =
     (if MAX_FIX_FRAME_LEN < length frame then Inl FrameTooLong
      else and_then (map_err InvalidBeginString (parse_field frame 0 (length frame))) (\<lambda>(begin_string, after_begin).
      if field_tag begin_string \<noteq> 8 then Inl BeginStringNotFirst
      else if field_value begin_string \<noteq> ascii ''FIXT.1.1'' then Inl BeginStringNotFixt11
      else and_then (map_err InvalidBodyLength (parse_field frame after_begin (length frame))) (\<lambda>(body_length, body_start).
      if field_tag body_length \<noteq> 9 then Inl BodyLengthNotSecond
      else and_then (parse_decimal (field_value body_length) ''tag 9 BodyLength'') (\<lambda>body_len.
      and_then (ok_or (checked_add USIZE_MAX body_start body_len) BodyLengthOverflows) (\<lambda>trailer_start.
      if checked_add USIZE_MAX trailer_start 7 \<noteq> Some (length frame) then Inl BodyLengthMismatch
      else Inr (begin_string, body_length, body_start, trailer_start))))))"

definition checksum_of :: "bytes \<Rightarrow> u8" where
  "checksum_of bs = fold (\<lambda>b sum. sum + b) bs 0"

definition digit :: "u8 \<Rightarrow> u16" where
  "digit b = ucast (b - 48)"

definition check_trailer :: "bytes \<Rightarrow> nat \<Rightarrow> FixError + bytes" where
  "check_trailer frame trailer_start =
     (if slice frame trailer_start (trailer_start + 3) \<noteq> ascii ''10='' \<or> frame ! (trailer_start + 6) \<noteq> SOH
      then Inl ChecksumTrailer
      else let checksum_raw = slice frame (trailer_start + 3) (trailer_start + 6) in
        if \<not> list_all is_ascii_digit checksum_raw then Inl ChecksumNotDigits
        else let expected = digit (checksum_raw ! 0) * 100 + digit (checksum_raw ! 1) * 10 + digit (checksum_raw ! 2);
                 actual = checksum_of (take trailer_start frame)
          in if 255 < expected then Inl ChecksumTooLarge
             else if actual \<noteq> ucast expected then Inl (ChecksumMismatch (unat expected) (unat actual))
             else Inr checksum_raw)"

section \<open>The body\<close>

record body_state =
  b_fields :: "FieldRef list"
  b_entry_fields :: "FieldRef list"
  b_entry_starts :: "nat list"
  b_group :: "(nat \<times> nat) option"

text \<open>What the loop does with one parsed field.\<close>

definition body_step :: "FieldRef \<Rightarrow> body_state \<Rightarrow> FixError + body_state" where
  "body_step field s =
     (let t = field_tag field in
      if 8 \<le> t \<and> t \<le> 10 then Inl (FramingTagInBody t)
      else case b_group s of
        None \<Rightarrow>
          if t = 269 \<or> t = 279 then Inl (LeadTagWithoutCount t)
          else and_then (reject_duplicate (b_fields s) t) (\<lambda>_.
            let s = s\<lparr>b_fields := b_fields s @ [field]\<rparr> in
            if t = 268 then
              and_then (parse_decimal (field_value field) ''tag 268 count'') (\<lambda>count.
              if MAX_GROUP_ENTRIES < count then Inl (GroupCountTooLarge count)
              else and_then (group_lead_tag (b_fields s)) (\<lambda>lead_tag.
                Inr (s\<lparr>b_group := Some (count, lead_tag)\<rparr>)))
            else Inr s)
      | Some (expected, lead_tag) \<Rightarrow>
          if t = 268 then Inl CountNotOnce
          else if t = lead_tag then
            if length (b_entry_starts s) = expected then Inl (TooManyEntries expected)
            else Inr (s\<lparr>b_entry_starts := b_entry_starts s @ [length (b_entry_fields s)],
                        b_entry_fields := b_entry_fields s @ [field]\<rparr>)
          else if b_entry_starts s = [] then Inl (EntryMustBeginWith lead_tag)
          else and_then (reject_duplicate (drop (last (b_entry_starts s)) (b_entry_fields s)) t) (\<lambda>_.
            Inr (s\<lparr>b_entry_fields := b_entry_fields s @ [field]\<rparr>)))"

lemma field_scan_bounds:
  "field_scan i e bs = (e', Some stop) \<Longrightarrow> i \<le> stop \<and> stop < i + length bs"
  by (induction i e bs rule: field_scan.induct) (fastforce split: if_splits)+

lemma parse_field_progress:
  assumes "parse_field frame start limit = Inr (f, next)"
  shows "start < next \<and> next \<le> limit"
proof -
  obtain e stop where "field_scan start None (slice frame start limit) = (e, Some stop)" "next = stop + 1"
    using assms by (auto simp: parse_field_def result_simps split: prod.splits)
  with field_scan_bounds [OF this(1)] show ?thesis by (auto simp: slice_def)
qed

function body_loop :: "bytes \<Rightarrow> nat \<Rightarrow> nat \<Rightarrow> nat \<Rightarrow> body_state \<Rightarrow> FixError + (nat \<times> body_state)" where
  "body_loop frame trailer_start pos parsed_fields s =
     (if trailer_start \<le> pos then Inr (pos, s)
      else if MAX_FIELDS < parsed_fields + 1 then Inl TooManyFields
      else and_then (parse_field frame pos trailer_start) (\<lambda>(field, next).
           and_then (body_step field s) (\<lambda>s.
             body_loop frame trailer_start next (parsed_fields + 1) s)))"
  by pat_completeness auto
termination
  by (relation "measure (\<lambda>(frame, ts, pos, n, s). ts - pos)") (auto dest: parse_field_progress)

declare body_loop.simps [simp del]

definition decode_frame :: "bytes \<Rightarrow> FixError + Decoded" where
  "decode_frame frame =
     and_then (frame_bounds frame) (\<lambda>(begin_string, body_length, body_start, trailer_start).
     and_then (check_trailer frame trailer_start) (\<lambda>checksum_raw.
     and_then (body_loop frame trailer_start body_start 2
         \<lparr>b_fields = [begin_string, body_length], b_entry_fields = [], b_entry_starts = [], b_group = None\<rparr>)
       (\<lambda>(pos, s).
     if pos \<noteq> trailer_start then Inl BodyLengthMidField
     else and_then (case b_group s of
           None \<Rightarrow> Inr ()
         | Some (expected, _) \<Rightarrow>
             if length (b_entry_starts s) \<noteq> expected
             then Inl (EntryCountMismatch expected (length (b_entry_starts s))) else Inr ()) (\<lambda>_.
       and_then (validate_standard_header (b_fields s)) (\<lambda>_.
         Inr \<lparr>fix_fields = b_fields s @ [\<lparr>field_tag = 10, field_value = checksum_raw\<rparr>],
              entry_fields = b_entry_fields s, entry_starts = b_entry_starts s\<rparr>)))))"

section \<open>The Python entry point\<close>

text \<open>Latin-1 maps every byte to the code point of the same number.\<close>

definition latin1 :: "bytes \<Rightarrow> rstring" where
  "latin1 v = map unat v"

definition field_batch :: "FieldRef list \<Rightarrow> (nat \<times> rstring) list" where
  "field_batch fs = map (\<lambda>f. (field_tag f, latin1 (field_value f))) fs"

definition decode_py :: "bytes \<Rightarrow> FixError + ((nat \<times> rstring) list \<times> (nat \<times> rstring) list list)" where
  "decode_py frame =
     and_then (decode_frame frame) (\<lambda>decoded.
       Inr (field_batch (fix_fields decoded),
            map (\<lambda>i. field_batch (entry decoded i)) [0 ..< length (entry_starts decoded)]))"

section \<open>Numbers and fields on the wire\<close>

definition show_bytes :: "nat \<Rightarrow> bytes" where
  "show_bytes n = map u8_of (show_nat n)"

definition wire_field :: "FieldRef \<Rightarrow> bytes" where
  "wire_field f = show_bytes (field_tag f) @ 61 # field_value f @ [SOH]"

text \<open>A field that can be written: a tag of the type, no terminator in the value.\<close>

definition field_ok :: "FieldRef \<Rightarrow> bool" where
  "field_ok f \<longleftrightarrow> 0 < field_tag f \<and> field_tag f \<le> U32_MAX \<and> SOH \<notin> set (field_value f)"

definition wire_fields :: "FieldRef list \<Rightarrow> bytes" where
  "wire_fields fs = concat (map wire_field fs)"

lemma wire_fields_simps [simp]:
  "wire_fields [] = []" "wire_fields (f # fs) = wire_field f @ wire_fields fs"
  "wire_fields (fs @ gs) = wire_fields fs @ wire_fields gs"
  by (simp_all add: wire_fields_def)

lemma unat_show_bytes: "map unat (show_bytes n) = show_nat n"
proof -
  have "map (unat \<circ> u8_of) (show_nat n) = map id (show_nat n)"
    by (rule map_cong) (auto dest: show_nat_digits)
  then show ?thesis by (simp add: show_bytes_def)
qed

lemma show_bytes_iff: "raw = show_bytes n \<longleftrightarrow> map unat raw = show_nat n"
proof
  assume "map unat raw = show_nat n"
  then have "map unat raw = map unat (show_bytes n)" by (simp add: unat_show_bytes)
  moreover have "inj (unat :: u8 \<Rightarrow> nat)" by (rule injI) (simp add: word_unat_eq_iff)
  ultimately show "raw = show_bytes n" by (simp add: inj_map_eq_map)
qed (simp add: unat_show_bytes)

lemma show_bytes_clean: "61 \<notin> set (show_bytes n)" "SOH \<notin> set (show_bytes n)" "show_bytes n \<noteq> []"
proof -
  have d: "48 \<le> unat b \<and> unat b \<le> 57" if "b \<in> set (show_bytes n)" for b
    using that show_nat_digits [of "unat b" n] by (simp flip: unat_show_bytes)
  from d [of 61] d [of SOH] show "61 \<notin> set (show_bytes n)" "SOH \<notin> set (show_bytes n)"
    by (auto simp: SOH_def)
  show "show_bytes n \<noteq> []" by (simp add: show_bytes_def)
qed

lemma is_ascii_digit_unat: "is_ascii_digit b \<longleftrightarrow> is_digit (unat b)"
  by (simp add: is_ascii_digit_def is_digit_def word_le_nat_alt)

lemma all_digits_unat: "list_all is_ascii_digit bs \<longleftrightarrow> list_all is_digit (map unat bs)"
  by (simp add: list_all_iff is_ascii_digit_unat)

lemma digits_grow: "v \<le> foldl (\<lambda>v d. v * 10 + (d - 48)) v (ds :: nat list)"
proof (induction ds arbitrary: v)
  case (Cons d ds)
  have "v \<le> v * 10 + (d - 48)" by simp
  also note Cons.IH [of "v * 10 + (d - 48)"]
  finally show ?case by simp
qed simp

lemma parse_digits_iff:
  "v \<le> m \<Longrightarrow> parse_digits m e e' v bs = Inr n \<longleftrightarrow>
    list_all is_ascii_digit bs \<and> n = foldl (\<lambda>v d. v * 10 + (d - 48)) v (map unat bs) \<and> n \<le> m"
proof (induction bs arbitrary: v)
  case (Cons b bs)
  show ?case
  proof (cases "is_ascii_digit b")
    case True
    define d where "d = unat b - 48"
    let ?w = "v * 10 + d"
    have sub: "unat (b - 48) = d"
      using True by (simp add: is_ascii_digit_def unat_sub d_def)
    note grow = digits_grow [of ?w "map unat bs"]
    show ?thesis
    proof (cases "?w \<le> m")
      case w: True
      then have "Option.bind (checked_mul m v 10) (\<lambda>w. checked_add m w (unat (b - 48))) = Some ?w"
        by (simp add: checked_mul_def sub)
      with True Cons.IH [OF w] show ?thesis by (simp add: ok_or_def d_def [symmetric])
    next
      case False
      then have "Option.bind (checked_mul m v 10) (\<lambda>w. checked_add m w (unat (b - 48))) = None"
        by (simp add: checked_mul_def sub)
      with True False grow show ?thesis by (simp add: ok_or_def d_def [symmetric])
    qed
  qed simp
qed auto

lemma parse_digits_canonical:
  assumes "raw \<noteq> []" and "length raw = 1 \<or> hd raw \<noteq> 48"
  shows "parse_digits m e e' 0 raw = Inr n \<longleftrightarrow> raw = show_bytes n \<and> n \<le> m"
proof -
  have hd: "hd (map unat raw) = 48 \<longleftrightarrow> hd raw = 48"
    using assms(1) by (cases raw) (auto simp: word_unat_eq_iff)
  have "parse_digits m e e' 0 raw = Inr n \<longleftrightarrow>
      list_all is_digit (map unat raw) \<and> n = digits_value (map unat raw) \<and> n \<le> m"
    by (simp add: parse_digits_iff all_digits_unat digits_value_def)
  also have "\<dots> \<longleftrightarrow> canonical (map unat raw) \<and> n = digits_value (map unat raw) \<and> n \<le> m"
    using assms hd by (auto simp: canonical_def)
  also have "\<dots> \<longleftrightarrow> map unat raw = show_nat n \<and> n \<le> m"
    using show_nat_digits_value [of "map unat raw"] canonical_show_nat [of n] by auto
  finally show ?thesis by (simp add: show_bytes_iff)
qed

lemma hd_show_bytes: "hd (show_bytes n) = 48 \<longleftrightarrow> n = 0"
proof -
  have h: "hd (show_bytes n) = 48 \<longleftrightarrow> hd (show_nat n) = 48"
    using show_bytes_clean(3) [of n]
    by (cases "show_bytes n") (simp_all add: word_unat_eq_iff flip: unat_show_bytes)
  show ?thesis
  proof
    assume "hd (show_bytes n) = 48"
    with h canonical_show_nat [of n] have "show_nat n = [48]"
      by (cases "show_nat n") (auto simp: canonical_def)
    with digits_value_show_nat [of n] show "n = 0" by (simp add: digits_value_def)
  qed (simp add: show_bytes_def u8_of_def show_nat.simps [of 0])
qed

lemma parse_tag_iff: "parse_tag raw = Inr t \<longleftrightarrow> raw = show_bytes t \<and> 0 < t \<and> t \<le> U32_MAX"
proof (cases "raw = [] \<or> hd raw = 48")
  case True
  then show ?thesis using hd_show_bytes [of t] by (auto simp: parse_tag_def show_bytes_clean(3))
next
  case False
  then show ?thesis
    using parse_digits_canonical [of raw U32_MAX TagNotDigits TagOverflow t] hd_show_bytes [of t]
    by (auto simp: parse_tag_def)
qed

lemma parse_decimal_iff: "parse_decimal raw label = Inr n \<longleftrightarrow> raw = show_bytes n \<and> n \<le> USIZE_MAX"
proof (cases "raw = [] \<or> (1 < length raw \<and> hd raw = 48)")
  case True
  have "length (show_bytes 0) = 1" by (simp add: show_bytes_def show_nat.simps)
  with True show ?thesis using hd_show_bytes [of n] by (auto simp: parse_decimal_def show_bytes_clean(3))
next
  case False
  then have "raw \<noteq> []" "length raw = 1 \<or> hd raw \<noteq> 48" by (auto simp: not_less le_Suc_eq)
  from parse_digits_canonical [OF this] False show ?thesis by (auto simp: parse_decimal_def)
qed

end
