(* ===== verification/Fix_Frames.thy ===== *)
theory Fix_Frames
  imports Fix_Decode
begin

text \<open>
  The byte-level loops of the FIX decoder read as operations on lists of fields: a field on the wire,
  the body as scalar fields and entries of the repeating group, the order of the standard header.
  Each loop is shown to succeed exactly on what the declarative reading describes.
\<close>

section \<open>Fields\<close>

lemma field_scan_tag:
  "61 \<notin> set t \<Longrightarrow> SOH \<notin> set t \<Longrightarrow> field_scan i None (t @ bs) = field_scan (i + length t) None bs"
  by (induction t arbitrary: i) auto

lemma field_scan_value:
  "SOH \<notin> set v \<Longrightarrow> field_scan i (Some p) (v @ SOH # r) = (Some p, Some (i + length v))"
  by (induction v arbitrary: i) (auto simp: SOH_def)

lemma field_scan_valueD:
  "field_scan i (Some p) bs = (e, Some stop) \<Longrightarrow>
    e = Some p \<and> (\<exists>v r. bs = v @ SOH # r \<and> SOH \<notin> set v \<and> stop = i + length v)"
proof (induction bs arbitrary: i)
  case (Cons b bs)
  show ?case
  proof (cases "b = SOH")
    case True
    with Cons.prems have "e = Some p \<and> b # bs = [] @ SOH # bs \<and> SOH \<notin> set [] \<and> stop = i + length []"
      by (simp add: SOH_def)
    then show ?thesis by blast
  next
    case False
    with Cons.prems have "field_scan (i + 1) (Some p) bs = (e, Some stop)" by simp
    from Cons.IH [OF this] obtain v r where "e = Some p" "bs = v @ SOH # r" "SOH \<notin> set v" "stop = i + 1 + length v"
      by blast
    with False have "e = Some p \<and> b # bs = (b # v) @ SOH # r \<and> SOH \<notin> set (b # v) \<and> stop = i + length (b # v)"
      by simp
    then show ?thesis by blast
  qed
qed simp

lemma field_scanD:
  "field_scan i None bs = (Some p, Some stop) \<Longrightarrow> \<exists>t v r. bs = t @ 61 # v @ SOH # r \<and>
    61 \<notin> set t \<and> SOH \<notin> set t \<and> SOH \<notin> set v \<and> p = i + length t \<and> stop = p + 1 + length v"
proof (induction bs arbitrary: i)
  case (Cons b bs)
  consider "b = 61" | "b = SOH" "b \<noteq> 61" | "b \<noteq> 61" "b \<noteq> SOH" by blast
  then show ?case
  proof cases
    case 1
    with Cons.prems have "field_scan (i + 1) (Some i) bs = (Some p, Some stop)" by simp
    from field_scan_valueD [OF this] obtain v r where "p = i" "bs = v @ SOH # r" "SOH \<notin> set v"
      "stop = i + 1 + length v" by auto
    with 1 have "b # bs = [] @ 61 # v @ SOH # r \<and> 61 \<notin> set ([] :: bytes) \<and> SOH \<notin> set [] \<and> SOH \<notin> set v \<and>
      p = i + length ([] :: bytes) \<and> stop = p + 1 + length v" by simp
    then show ?thesis by blast
  next
    case 2
    with Cons.prems show ?thesis by simp
  next
    case 3
    with Cons.prems have "field_scan (i + 1) None bs = (Some p, Some stop)" by simp
    from Cons.IH [OF this] obtain t v r where "bs = t @ 61 # v @ SOH # r" "61 \<notin> set t" "SOH \<notin> set t"
      "SOH \<notin> set v" "p = i + 1 + length t" "stop = p + 1 + length v" by blast
    with 3 have "b # bs = (b # t) @ 61 # v @ SOH # r \<and> 61 \<notin> set (b # t) \<and> SOH \<notin> set (b # t) \<and> SOH \<notin> set v \<and>
      p = i + length (b # t) \<and> stop = p + 1 + length v" by simp
    then show ?thesis by blast
  qed
qed simp

lemma slice_prefix:
  assumes "slice xs a b = ys @ zs"
  shows "slice xs a (a + length ys) = ys" and "a + length ys \<le> b \<or> ys = []"
    and "slice xs (a + length ys) b = zs"
proof -
  have d: "take (b - a) (drop a xs) = ys @ zs" using assms by (simp add: slice_def)
  then have len: "length ys \<le> b - a" by (metis length_append length_take le_add1 min.bounded_iff le_trans)
  have "take (length ys) (take (b - a) (drop a xs)) = ys" unfolding d by simp
  with len show "slice xs a (a + length ys) = ys" by (simp add: slice_def min_absorb1)
  from len show "a + length ys \<le> b \<or> ys = []" by (cases ys) auto
  have "drop (length ys) (take (b - a) (drop a xs)) = zs" unfolding d by simp
  then show "slice xs (a + length ys) b = zs" by (simp add: slice_def drop_take add.commute)
qed

lemma parse_field_iff:
  "parse_field frame start limit = Inr (f, next) \<longleftrightarrow>
    field_ok f \<and> next = start + length (wire_field f) \<and> (\<exists>rest. slice frame start limit = wire_field f @ rest)"
proof
  assume p: "parse_field frame start limit = Inr (f, next)"
  then obtain e stop where scan: "field_scan start None (slice frame start limit) = (Some e, Some stop)"
    and tag: "parse_tag (slice frame start e) = Inr (field_tag f)"
    and v: "field_value f = slice frame (e + 1) stop" and n: "next = stop + 1"
    by (auto simp: parse_field_def result_simps bind_eq_Some_conv split: prod.splits if_splits)
  from field_scanD [OF scan] obtain t w r where s: "slice frame start limit = t @ 61 # w @ SOH # r"
    and w: "SOH \<notin> set w" and e: "e = start + length t" "stop = e + 1 + length w" by blast
  from s have s2: "slice frame start limit = (t @ [61]) @ w @ SOH # r" by simp
  have t: "t = show_bytes (field_tag f)" "0 < field_tag f" "field_tag f \<le> U32_MAX"
    using tag slice_prefix(1) [OF s] e by (simp_all add: parse_tag_iff)
  have "field_value f = w"
    using slice_prefix(1) [OF slice_prefix(3) [OF s2]] v e by simp
  with t w s e n show "field_ok f \<and> next = start + length (wire_field f) \<and>
      (\<exists>rest. slice frame start limit = wire_field f @ rest)"
    by (auto simp: field_ok_def wire_field_def)
next
  assume a: "field_ok f \<and> next = start + length (wire_field f) \<and>
      (\<exists>rest. slice frame start limit = wire_field f @ rest)"
  let ?t = "show_bytes (field_tag f)" and ?v = "field_value f"
  from a obtain rest where s: "slice frame start limit = ?t @ 61 # ?v @ SOH # rest"
    by (auto simp: wire_field_def)
  then have s2: "slice frame start limit = (?t @ [61]) @ ?v @ SOH # rest" by simp
  have "field_scan start None (slice frame start limit) =
      (Some (start + length ?t), Some (start + length ?t + 1 + length ?v))"
    using a show_bytes_clean [of "field_tag f"]
    by (simp add: s field_scan_tag field_scan_value field_ok_def)
  moreover have "parse_tag (slice frame start (start + length ?t)) = Inr (field_tag f)"
    using a slice_prefix(1) [OF s] by (simp add: parse_tag_iff field_ok_def)
  moreover have "slice frame (start + length ?t + 1) (start + length ?t + 1 + length ?v) = ?v"
    using slice_prefix(1) [OF slice_prefix(3) [OF s2]] by simp
  ultimately show "parse_field frame start limit = Inr (f, next)"
    using a by (simp add: parse_field_def ok_or_def wire_field_def)
qed

section \<open>The body as a list of fields\<close>

fun body_fields :: "FieldRef list \<Rightarrow> body_state \<Rightarrow> FixError + body_state" where
  "body_fields [] s = Inr s"
| "body_fields (f # fs) s = and_then (body_step f s) (body_fields fs)"

lemma body_fields_append: "body_fields (fs @ gs) s = and_then (body_fields fs s) (body_fields gs)"
proof (induction fs arbitrary: s)
  case (Cons f fs)
  then show ?case by (cases "body_step f s") simp_all
qed simp

lemma wire_field_not_Nil [simp]: "wire_field f \<noteq> []"
  by (simp add: wire_field_def)

lemma slice_Nil_iff: "b \<le> length xs \<Longrightarrow> slice xs a b = [] \<longleftrightarrow> b \<le> a"
  by (auto simp: slice_def)

lemma body_loop_iff:
  assumes "trailer_start \<le> length frame" and "pos \<le> trailer_start"
  shows "body_loop frame trailer_start pos n s = Inr (p, s') \<longleftrightarrow> p = trailer_start \<and>
    (\<exists>fs. slice frame pos trailer_start = wire_fields fs \<and> list_all field_ok fs \<and>
       (fs = [] \<or> n + length fs \<le> MAX_FIELDS) \<and> body_fields fs s = Inr s')"
  using assms
proof (induction frame trailer_start pos n s rule: body_loop.induct)
  case (1 frame ts pos n s)
  show ?case
  proof (cases "ts \<le> pos")
    case True
    then have sl: "slice frame pos ts = []" by (simp add: slice_def)
    have nil: "[] = wire_fields fs \<longleftrightarrow> fs = []" for fs by (cases fs) simp_all
    have loop: "body_loop frame ts pos n s = Inr (pos, s)" using True by (subst body_loop.simps) simp
    have "pos = ts" using True "1.prems" by simp
    then show ?thesis unfolding loop sl nil by auto
  next
    case False
    let ?spec = "\<lambda>pos n s. p = ts \<and> (\<exists>fs. slice frame pos ts = wire_fields fs \<and> list_all field_ok fs \<and>
       (fs = [] \<or> n + length fs \<le> MAX_FIELDS) \<and> body_fields fs s = Inr s')"
    have step: "body_loop frame ts pos n s = Inr (p, s') \<longleftrightarrow> n + 1 \<le> MAX_FIELDS \<and>
        (\<exists>f s1. field_ok f \<and> (\<exists>rest. slice frame pos ts = wire_field f @ rest) \<and> body_step f s = Inr s1 \<and>
          body_loop frame ts (pos + length (wire_field f)) (n + 1) s1 = Inr (p, s'))"
      using False by (auto simp: body_loop.simps [of _ _ pos] result_simps parse_field_iff split: prod.splits)
    have IH: "body_loop frame ts (pos + length (wire_field f)) (n + 1) s1 = Inr (p, s') \<longleftrightarrow>
        ?spec (pos + length (wire_field f)) (n + 1) s1"
      if "n + 1 \<le> MAX_FIELDS" "field_ok f" "slice frame pos ts = wire_field f @ rest" "body_step f s = Inr s1" for f rest s1
    proof -
      have pf: "parse_field frame pos ts = Inr (f, pos + length (wire_field f))"
        using that by (auto simp: parse_field_iff)
      show ?thesis
        by (rule "1.IH" [OF False _ pf refl that(4) "1.prems"(1)]) (use that(1) parse_field_progress [OF pf] in simp_all)
    qed
    show ?thesis
    proof
      assume "body_loop frame ts pos n s = Inr (p, s')"
      with step obtain f s1 rest where f: "n + 1 \<le> MAX_FIELDS" "field_ok f" "slice frame pos ts = wire_field f @ rest"
        "body_step f s = Inr s1" "body_loop frame ts (pos + length (wire_field f)) (n + 1) s1 = Inr (p, s')" by blast
      from IH [OF f(1-4)] f(5) obtain fs where "p = ts" "slice frame (pos + length (wire_field f)) ts = wire_fields fs"
        "list_all field_ok fs" "fs = [] \<or> n + 1 + length fs \<le> MAX_FIELDS" "body_fields fs s1 = Inr s'" by blast
      with f slice_prefix(3) [OF f(3)] show "?spec pos n s" by (intro conjI exI [of _ "f # fs"]) auto
    next
      assume r: "?spec pos n s"
      then obtain fs where fs: "p = ts" "slice frame pos ts = wire_fields fs" "list_all field_ok fs"
        "fs = [] \<or> n + length fs \<le> MAX_FIELDS" "body_fields fs s = Inr s'" by blast
      from fs(2) False slice_Nil_iff [OF "1.prems"(1), of pos] obtain f gs where g: "fs = f # gs" by (cases fs) auto
      with fs obtain s1 where s1: "body_step f s = Inr s1" "body_fields gs s1 = Inr s'" by (auto simp: result_simps)
      have sl: "slice frame pos ts = wire_field f @ wire_fields gs" using fs(2) g by simp
      have ok: "n + 1 \<le> MAX_FIELDS" "field_ok f" using fs g by auto
      have "?spec (pos + length (wire_field f)) (n + 1) s1"
        using fs g s1 slice_prefix(3) [OF sl] by auto
      with IH [OF ok sl s1(1)] step ok sl s1(1) show "body_loop frame ts pos n s = Inr (p, s')" by blast
    qed
  qed
qed

section \<open>Entries of the repeating group\<close>

text \<open>An entry starts with the lead tag of its message type, has no tag twice and no tag that belongs
  to the framing or to the count.\<close>

definition body_tag :: "nat \<Rightarrow> bool" where
  "body_tag t \<longleftrightarrow> t \<notin> {8, 9, 10}"

definition entry_ok :: "nat \<Rightarrow> FieldRef list \<Rightarrow> bool" where
  "entry_ok lead e \<longleftrightarrow> e \<noteq> [] \<and> field_tag (hd e) = lead \<and> distinct (map field_tag e) \<and>
     list_all (\<lambda>f. body_tag (field_tag f) \<and> field_tag f \<noteq> 268) e"

text \<open>Where each of a list of entries starts in their concatenation.\<close>

fun starts_from :: "nat \<Rightarrow> 'a list list \<Rightarrow> nat list" where
  "starts_from n [] = []"
| "starts_from n (e # es) = n # starts_from (n + length e) es"

lemma starts_from_append [simp]:
  "starts_from n (es @ gs) = starts_from n es @ starts_from (n + length (concat es)) gs"
  by (induction es arbitrary: n) (simp_all add: add.assoc)

lemma length_starts_from [simp]: "length (starts_from n es) = length es"
  by (induction es arbitrary: n) simp_all

lemma reject_duplicate_iff: "reject_duplicate fs t = Inr u \<longleftrightarrow> t \<notin> field_tag ` set fs"
  by (auto simp: reject_duplicate_def list_ex_iff)

lemma framing_tag_iff: "8 \<le> t \<and> t \<le> 10 \<longleftrightarrow> \<not> body_tag t"
  by (auto simp: body_tag_def)

lemma body_step_group:
  assumes "b_group s = Some (n, lead)"
  shows "body_step f s = Inr s' \<longleftrightarrow> body_tag (field_tag f) \<and> field_tag f \<noteq> 268 \<and>
    (if field_tag f = lead then length (b_entry_starts s) \<noteq> n \<and>
       s' = s\<lparr>b_entry_starts := b_entry_starts s @ [length (b_entry_fields s)],
              b_entry_fields := b_entry_fields s @ [f]\<rparr>
     else b_entry_starts s \<noteq> [] \<and>
       field_tag f \<notin> field_tag ` set (drop (last (b_entry_starts s)) (b_entry_fields s)) \<and>
       s' = s\<lparr>b_entry_fields := b_entry_fields s @ [f]\<rparr>)"
proof -
  let ?r = "reject_duplicate (drop (last (b_entry_starts s)) (b_entry_fields s)) (field_tag f)"
  have r: "?r = Inr () \<longleftrightarrow> field_tag f \<notin> field_tag ` set (drop (last (b_entry_starts s)) (b_entry_fields s))"
    by (rule reject_duplicate_iff)
  show ?thesis
    unfolding body_step_def Let_def framing_tag_iff assms option.case prod.case r [symmetric]
    by (cases ?r) auto
qed

definition group_state :: "FieldRef list \<Rightarrow> nat \<Rightarrow> nat \<Rightarrow> FieldRef list list \<Rightarrow> body_state" where
  "group_state fs n lead es = \<lparr>b_fields = fs, b_entry_fields = concat es, b_entry_starts = starts_from 0 es,
     b_group = Some (n, lead)\<rparr>"

lemma group_step_lead:
  assumes "field_tag f = lead" and "body_tag lead" and "lead \<noteq> 268"
  shows "body_step f (group_state fs n lead es) = Inr s' \<longleftrightarrow>
    length es \<noteq> n \<and> s' = group_state fs n lead (es @ [[f]])"
proof -
  have "b_group (group_state fs n lead es) = Some (n, lead)" by (simp add: group_state_def)
  from body_step_group [OF this, of f s'] assms show ?thesis by (simp add: group_state_def)
qed

lemma group_step_other:
  assumes "field_tag f \<noteq> lead"
  shows "body_step f (group_state fs n lead (es @ [e])) = Inr s' \<longleftrightarrow>
    body_tag (field_tag f) \<and> field_tag f \<noteq> 268 \<and> field_tag f \<notin> field_tag ` set e \<and>
    s' = group_state fs n lead (es @ [e @ [f]])"
proof -
  have "b_group (group_state fs n lead (es @ [e])) = Some (n, lead)" by (simp add: group_state_def)
  from body_step_group [OF this, of f s'] assms show ?thesis by (simp add: group_state_def)
qed

lemma group_step_first: "field_tag f \<noteq> lead \<Longrightarrow> body_step f (group_state fs n lead []) \<noteq> Inr s'"
  using body_step_group [of "group_state fs n lead []" n lead f s'] by (simp add: group_state_def)

lemma group_fields_iff:
  assumes lead: "body_tag lead" "lead \<noteq> 268"
  shows "body_fields gs (group_state fs n lead []) = Inr s' \<longleftrightarrow>
    (\<exists>es. gs = concat es \<and> list_all (entry_ok lead) es \<and> length es \<le> n \<and> s' = group_state fs n lead es)"
proof (induction gs arbitrary: s' rule: rev_induct)
  case Nil
  have "es = []" if "[] = concat es" "list_all (entry_ok lead) es" for es
    using that by (cases es) (auto simp: entry_ok_def)
  then have "(\<exists>es. [] = concat es \<and> list_all (entry_ok lead) es \<and> length es \<le> n \<and>
      s' = group_state fs n lead es) \<longleftrightarrow> s' = group_state fs n lead []"
    by (metis concat.simps(1) list.pred_inject(1) list.size(3) le0)
  then show ?case by (auto simp only: body_fields.simps sum.inject)
next
  case (snoc f gs)
  have step: "body_fields (gs @ [f]) (group_state fs n lead []) = Inr s' \<longleftrightarrow>
      (\<exists>es. gs = concat es \<and> list_all (entry_ok lead) es \<and> length es \<le> n \<and>
        body_step f (group_state fs n lead es) = Inr s')"
    by (auto simp: body_fields_append result_simps snoc.IH)
  show ?case
  proof
    assume "body_fields (gs @ [f]) (group_state fs n lead []) = Inr s'"
    with step obtain es where es: "gs = concat es" "list_all (entry_ok lead) es" "length es \<le> n"
      "body_step f (group_state fs n lead es) = Inr s'" by blast
    consider "field_tag f = lead" | "field_tag f \<noteq> lead" "es = []"
      | es' e where "field_tag f \<noteq> lead" "es = es' @ [e]" by (cases es rule: rev_cases) auto
    then show "\<exists>es. gs @ [f] = concat es \<and> list_all (entry_ok lead) es \<and> length es \<le> n \<and> s' = group_state fs n lead es"
    proof cases
      case 1
      with es lead group_step_lead [OF 1 lead] show ?thesis
        by (intro exI [of _ "es @ [[f]]"]) (auto simp: entry_ok_def)
    next
      case 2
      with es(4) group_step_first show ?thesis by blast
    next
      case 3
      with es group_step_other [OF 3(1)] show ?thesis
        by (intro exI [of _ "es' @ [e @ [f]]"]) (auto simp: entry_ok_def)
    qed
  next
    assume "\<exists>es. gs @ [f] = concat es \<and> list_all (entry_ok lead) es \<and> length es \<le> n \<and> s' = group_state fs n lead es"
    then obtain es where es: "gs @ [f] = concat es" "list_all (entry_ok lead) es" "length es \<le> n"
      "s' = group_state fs n lead es" by blast
    then obtain es' e where e: "es = es' @ [e]" by (cases es rule: rev_cases) auto
    with es(2) obtain e' where e': "e = e' @ [f]" using es(1)
      by (cases e rule: rev_cases) (auto simp: entry_ok_def)
    have gs: "gs = concat es' @ e'" using es(1) e e' by simp
    show "body_fields (gs @ [f]) (group_state fs n lead []) = Inr s'"
    proof (cases "e' = []")
      case True
      with es e e' have f: "field_tag f = lead" by (simp add: entry_ok_def)
      from es e e' True gs group_step_lead [OF f lead] show ?thesis
        unfolding step by (intro exI [of _ es']) auto
    next
      case False
      with es e e' have f: "field_tag f \<noteq> lead" by (cases e') (auto simp: entry_ok_def)
      from es e e' False gs group_step_other [OF f] show ?thesis
        unfolding step by (intro exI [of _ "es' @ [e']"]) (auto simp: entry_ok_def)
    qed
  qed
qed

section \<open>Scalar fields and the whole body\<close>

definition scalar_tag :: "nat \<Rightarrow> bool" where
  "scalar_tag t \<longleftrightarrow> body_tag t \<and> t \<noteq> 269 \<and> t \<noteq> 279"

definition scalar_state :: "FieldRef list \<Rightarrow> body_state" where
  "scalar_state fs = \<lparr>b_fields = fs, b_entry_fields = [], b_entry_starts = [], b_group = None\<rparr>"

lemma body_step_scalar:
  assumes "field_tag f \<noteq> 268"
  shows "body_step f (scalar_state fs) = Inr s' \<longleftrightarrow>
    scalar_tag (field_tag f) \<and> field_tag f \<notin> field_tag ` set fs \<and> s' = scalar_state (fs @ [f])"
proof -
  let ?r = "reject_duplicate fs (field_tag f)"
  have r: "?r = Inr () \<longleftrightarrow> field_tag f \<notin> field_tag ` set fs" by (rule reject_duplicate_iff)
  show ?thesis
    using assms unfolding body_step_def Let_def framing_tag_iff scalar_state_def r [symmetric] scalar_tag_def
    by (cases ?r) auto
qed

lemma body_step_count:
  assumes "field_tag f = 268"
  shows "body_step f (scalar_state fs) = Inr s' \<longleftrightarrow> 268 \<notin> field_tag ` set fs \<and>
    (\<exists>n lead. field_value f = show_bytes n \<and> n \<le> MAX_GROUP_ENTRIES \<and> group_lead_tag (fs @ [f]) = Inr lead \<and>
       s' = group_state (fs @ [f]) n lead [])"
proof -
  let ?r = "reject_duplicate fs 268"
  have r: "?r = Inr () \<longleftrightarrow> 268 \<notin> field_tag ` set fs" by (rule reject_duplicate_iff)
  have le: "n \<le> MAX_GROUP_ENTRIES \<Longrightarrow> n \<le> USIZE_MAX" for n
    by (simp add: MAX_GROUP_ENTRIES_def USIZE_MAX_def)
  show ?thesis
  proof (cases ?r)
    case (Inl e)
    with r assms show ?thesis by (simp add: body_step_def scalar_state_def)
  next
    case (Inr u)
    with assms have "body_step f (scalar_state fs) = and_then (parse_decimal (field_value f) ''tag 268 count'') (\<lambda>n.
        if MAX_GROUP_ENTRIES < n then Inl (GroupCountTooLarge n)
        else and_then (group_lead_tag (fs @ [f])) (\<lambda>lead. Inr (group_state (fs @ [f]) n lead [])))"
      by (simp add: body_step_def scalar_state_def group_state_def Let_def cong: if_cong)
    with Inr r show ?thesis
      by (auto simp: result_simps parse_decimal_iff not_less le split: if_splits)
  qed
qed

text \<open>The scalar fields \<open>ss\<close> that follow \<open>fs\<close> and the entries: tags do not repeat, the count comes last
  and counts the entries, which are those of the message type.\<close>

definition has_count :: "FieldRef list \<Rightarrow> bool" where
  "has_count ss \<longleftrightarrow> 268 \<in> field_tag ` set ss"

definition body_ok :: "FieldRef list \<Rightarrow> FieldRef list \<Rightarrow> FieldRef list list \<Rightarrow> bool" where
  "body_ok fs ss es \<longleftrightarrow> distinct (map field_tag (fs @ ss)) \<and> list_all (\<lambda>f. scalar_tag (field_tag f)) ss \<and>
     (if has_count ss then
        field_tag (last ss) = 268 \<and> field_value (last ss) = show_bytes (length es) \<and>
        length es \<le> MAX_GROUP_ENTRIES \<and>
        (\<exists>lead. group_lead_tag (fs @ ss) = Inr lead \<and> list_all (entry_ok lead) es)
      else es = [])"

lemma body_ok_Cons:
  "field_tag f \<noteq> 268 \<Longrightarrow> body_ok fs (f # ss) es \<longleftrightarrow> scalar_tag (field_tag f) \<and> body_ok (fs @ [f]) ss es"
  by (cases ss) (auto simp: body_ok_def has_count_def)

lemma body_ok_count:
  assumes "field_tag f = 268" and "distinct (map field_tag fs)"
  shows "body_ok fs (f # ss) es \<longleftrightarrow> ss = [] \<and> 268 \<notin> field_tag ` set fs \<and>
    field_value f = show_bytes (length es) \<and> length es \<le> MAX_GROUP_ENTRIES \<and>
    (\<exists>lead. group_lead_tag (fs @ [f]) = Inr lead \<and> list_all (entry_ok lead) es)"
proof (cases "ss = []")
  case True
  with assms show ?thesis by (auto simp: body_ok_def has_count_def scalar_tag_def body_tag_def)
next
  case False
  have "\<not> (distinct (map field_tag (fs @ f # ss)) \<and> field_tag (last (f # ss)) = 268)"
    using False assms(1) by (auto simp: image_iff dest: last_in_set)
  with False assms(1) show ?thesis by (auto simp: body_ok_def has_count_def)
qed

lemma group_lead_tag_cases: "group_lead_tag fs = Inr lead \<Longrightarrow> body_tag lead \<and> lead \<noteq> 268"
  by (auto simp: group_lead_tag_def body_tag_def Let_def split: if_splits)

definition counted :: "body_state \<Rightarrow> bool" where
  "counted s \<longleftrightarrow> (case b_group s of None \<Rightarrow> True | Some (n, _) \<Rightarrow> length (b_entry_starts s) = n)"

text \<open>What remains of the state after the body: the fields, the entries and their starts.\<close>

definition ends_with :: "body_state \<Rightarrow> FieldRef list \<Rightarrow> FieldRef list list \<Rightarrow> bool" where
  "ends_with s fs es \<longleftrightarrow> counted s \<and> b_fields s = fs \<and> b_entry_fields s = concat es \<and> b_entry_starts s = starts_from 0 es"

lemma body_fields_sound:
  assumes "body_fields gs (scalar_state fs) = Inr s'" and "counted s'" and "distinct (map field_tag fs)"
  shows "\<exists>ss es. gs = ss @ concat es \<and> body_ok fs ss es \<and> ends_with s' (fs @ ss) es"
  using assms
proof (induction gs arbitrary: fs)
  case Nil
  then show ?case
    by (intro exI [of _ "[]"]) (auto simp: body_ok_def has_count_def ends_with_def scalar_state_def)
next
  case (Cons f gs)
  then obtain s1 where s1: "body_step f (scalar_state fs) = Inr s1" "body_fields gs s1 = Inr s'"
    by (auto simp: result_simps)
  show ?case
  proof (cases "field_tag f = 268")
    case False
    with s1 have f: "scalar_tag (field_tag f)" "field_tag f \<notin> field_tag ` set fs" "s1 = scalar_state (fs @ [f])"
      by (simp_all add: body_step_scalar)
    with Cons.IH [of "fs @ [f]"] s1 Cons.prems obtain ss es where
      "gs = ss @ concat es" "body_ok (fs @ [f]) ss es" "ends_with s' ((fs @ [f]) @ ss) es" by auto
    with f False have "f # gs = (f # ss) @ concat es \<and> body_ok fs (f # ss) es \<and> ends_with s' (fs @ f # ss) es"
      by (simp add: body_ok_Cons)
    then show ?thesis by blast
  next
    case True
    with s1(1) obtain n lead where n: "268 \<notin> field_tag ` set fs" "field_value f = show_bytes n" "n \<le> MAX_GROUP_ENTRIES"
      "group_lead_tag (fs @ [f]) = Inr lead" "s1 = group_state (fs @ [f]) n lead []"
      by (auto simp: body_step_count)
    from s1(2) n(5) group_fields_iff [of lead gs "fs @ [f]" n s'] group_lead_tag_cases [OF n(4)] obtain es where
      es: "gs = concat es" "list_all (entry_ok lead) es" "s' = group_state (fs @ [f]) n lead es" by auto
    with Cons.prems(2) have "n = length es" by (simp add: counted_def group_state_def)
    with es n True Cons.prems(2,3) have "f # gs = [f] @ concat es \<and> body_ok fs [f] es \<and> ends_with s' (fs @ [f]) es"
      by (auto simp: body_ok_count ends_with_def group_state_def)
    then show ?thesis by blast
  qed
qed

lemma body_fields_complete:
  assumes "body_ok fs ss es"
  shows "\<exists>s'. body_fields (ss @ concat es) (scalar_state fs) = Inr s' \<and> ends_with s' (fs @ ss) es"
  using assms
proof (induction ss arbitrary: fs)
  case Nil
  then have "es = []" by (simp add: body_ok_def has_count_def)
  then show ?case by (auto simp: ends_with_def scalar_state_def counted_def)
next
  case (Cons f ss)
  then have d: "distinct (map field_tag fs)" by (simp add: body_ok_def)
  show ?case
  proof (cases "field_tag f = 268")
    case False
    with Cons.prems have f: "scalar_tag (field_tag f)" "body_ok (fs @ [f]) ss es" by (simp_all add: body_ok_Cons)
    then have "body_step f (scalar_state fs) = Inr (scalar_state (fs @ [f]))"
      using False by (auto simp: body_step_scalar body_ok_def)
    with Cons.IH [OF f(2)] show ?thesis by simp
  next
    case True
    with Cons.prems d obtain lead where n: "ss = []" "268 \<notin> field_tag ` set fs"
      "field_value f = show_bytes (length es)" "length es \<le> MAX_GROUP_ENTRIES"
      "group_lead_tag (fs @ [f]) = Inr lead" "list_all (entry_ok lead) es" by (auto simp: body_ok_count)
    then have "body_step f (scalar_state fs) = Inr (group_state (fs @ [f]) (length es) lead [])"
      using True by (auto simp: body_step_count)
    moreover have "body_fields (concat es) (group_state (fs @ [f]) (length es) lead []) =
        Inr (group_state (fs @ [f]) (length es) lead es)"
      using group_fields_iff [of lead "concat es"] group_lead_tag_cases [OF n(5)] n(6) by blast
    ultimately show ?thesis using n(1) by (simp add: ends_with_def group_state_def counted_def)
  qed
qed

section \<open>The standard header\<close>

lemma position_subseq:
  "subseq (x # ys) xs \<longleftrightarrow> (\<exists>r. position (\<lambda>c. c = x) xs = Some r \<and> subseq ys (drop (r + 1) xs))"
  by (induction xs) auto

definition nonempty_field :: "nat \<Rightarrow> FieldRef \<Rightarrow> bool" where
  "nonempty_field t f \<longleftrightarrow> field_tag f = t \<and> field_value f \<noteq> []"

text \<open>A required field at the end of the first \<open>k\<close> fields, after optional ones in their order.\<close>

definition header_at :: "nat \<Rightarrow> nat list \<Rightarrow> FieldRef list \<Rightarrow> nat \<Rightarrow> bool" where
  "header_at t opts fs k \<longleftrightarrow> (\<exists>os f rest. fs = os @ f # rest \<and> nonempty_field t f \<and>
     subseq (map field_tag os) opts \<and> k = length os + 1)"

lemma header_at_Nil [simp]: "\<not> header_at t opts [] k"
  by (simp add: header_at_def)

lemma header_at_Cons:
  assumes "t \<notin> set opts"
  shows "header_at t opts (f # fs) k \<longleftrightarrow>
    (if field_tag f = t then field_value f \<noteq> [] \<and> k = 1
     else \<exists>r k'. position (\<lambda>c. c = field_tag f) opts = Some r \<and> k = Suc k' \<and> header_at t (drop (r + 1) opts) fs k')"
proof -
  have split: "header_at t opts (f # fs) k \<longleftrightarrow> (nonempty_field t f \<and> k = 1) \<or>
      (\<exists>os g rest. fs = os @ g # rest \<and> nonempty_field t g \<and> subseq (field_tag f # map field_tag os) opts \<and>
        k = Suc (length os + 1))" (is "?A \<longleftrightarrow> ?B")
  proof
    assume ?A
    then obtain os g rest where g: "f # fs = os @ g # rest" "nonempty_field t g" "subseq (map field_tag os) opts" "k = length os + 1"
      by (auto simp: header_at_def)
    then show ?B by (cases os) auto
  next
    assume ?B
    then consider "nonempty_field t f" "k = 1"
      | os g rest where "fs = os @ g # rest" "nonempty_field t g" "subseq (field_tag f # map field_tag os) opts" "k = Suc (length os + 1)"
      by blast
    then show ?A
    proof cases
      case 1
      then have "f # fs = [] @ f # fs \<and> nonempty_field t f \<and> subseq (map field_tag []) opts \<and> k = length [] + 1" by simp
      then show ?thesis unfolding header_at_def by blast
    next
      case 2
      then have "f # fs = (f # os) @ g # rest \<and> nonempty_field t g \<and> subseq (map field_tag (f # os)) opts \<and>
        k = length (f # os) + 1" by simp
      then show ?thesis unfolding header_at_def by blast
    qed
  qed
  have "field_tag f \<in> set opts" if "subseq (field_tag f # ys) opts" for ys
    using subseq_order.trans [of "[field_tag f]" "field_tag f # ys" opts] that by (simp add: subseq_singleton_left)
  with assms have no: "\<not> subseq (field_tag f # ys) opts" if "field_tag f = t" for ys using that by metis
  show ?thesis
  proof (cases "field_tag f = t")
    case True
    with no [OF True] show ?thesis by (simp only: split) (simp add: nonempty_field_def [of t f])
  next
    case False
    then have "\<not> nonempty_field t f" by (simp add: nonempty_field_def)
    with False have "header_at t opts (f # fs) k \<longleftrightarrow> (\<exists>r os g rest. fs = os @ g # rest \<and> nonempty_field t g \<and>
        position (\<lambda>c. c = field_tag f) opts = Some r \<and> subseq (map field_tag os) (drop (r + 1) opts) \<and> k = Suc (length os + 1))"
      by (simp only: split position_subseq) blast
    also have "\<dots> \<longleftrightarrow> (\<exists>r k'. position (\<lambda>c. c = field_tag f) opts = Some r \<and> k = Suc k' \<and>
        header_at t (drop (r + 1) opts) fs k')"
      by (simp only: header_at_def) blast
    finally show ?thesis using False by simp
  qed
qed

lemma header_loop_iff:
  "t \<notin> set opts \<Longrightarrow> require_header_loop fs t name opts oc cursor = Inr c' \<longleftrightarrow>
    (\<exists>k. c' = cursor + k \<and> header_at t (drop oc opts) (drop cursor fs) k)"
proof (induction fs t name opts oc cursor rule: require_header_loop.induct)
  case (1 fs t name opts oc cursor)
  show ?case
  proof (cases "length fs \<le> cursor")
    case True
    then show ?thesis by (simp add: require_header_loop.simps [of fs])
  next
    case False
    then have drop: "drop cursor fs = fs ! cursor # drop (cursor + 1) fs" by (simp add: Cons_nth_drop_Suc)
    have t: "t \<notin> set (drop oc opts)" using "1.prems" by (auto dest: in_set_dropD)
    note cons = header_at_Cons [OF t, of "fs ! cursor" "drop (cursor + 1) fs"]
    show ?thesis
    proof (cases "field_tag (fs ! cursor) = t")
      case True
      with False show ?thesis unfolding drop cons by (auto simp: require_header_loop.simps [of fs] Let_def)
    next
      case tag: False
      show ?thesis
      proof (cases "position (\<lambda>c. c = field_tag (fs ! cursor)) (drop oc opts)")
        case None
        with tag False show ?thesis unfolding drop cons by (simp add: require_header_loop.simps [of fs] Let_def)
      next
        case (Some r)
        with tag False have "require_header_loop fs t name opts oc cursor =
            require_header_loop fs t name opts (oc + (r + 1)) (cursor + 1)"
          by (subst require_header_loop.simps) (simp add: Let_def)
        moreover note "1.IH" [OF False refl tag Some "1.prems"]
        ultimately show ?thesis
          using tag Some unfolding drop cons by (auto simp: add.commute [of oc])
      qed
    qed
  qed
qed

text \<open>The order of the standard header: message type, then the four required fields with the optional
  ones that may stand before each of them.\<close>

definition required :: "nat \<Rightarrow> nat list \<Rightarrow> (FieldRef list \<Rightarrow> bool) \<Rightarrow> FieldRef list \<Rightarrow> bool" where
  "required t opts P fs \<longleftrightarrow> (\<exists>os f rest. fs = os @ f # rest \<and> subseq (map field_tag os) opts \<and> nonempty_field t f \<and> P rest)"

definition standard_header :: "FieldRef list \<Rightarrow> bool" where
  "standard_header = required 35 []
     (required 49 [1128, 1156, 1129]
     (required 56 []
     (required 34 [115, 128, 90, 91]
     (required 52 [50, 142, 57, 143, 116, 144, 129, 145, 43, 97] (\<lambda>_. True)))))"

lemma requiredI:
  "subseq (map field_tag os) opts \<Longrightarrow> nonempty_field t f \<Longrightarrow> P rest \<Longrightarrow> required t opts P (os @ f # rest)"
  unfolding required_def by blast

lemma required_Nil_iff: "required t [] P fs \<longleftrightarrow> (\<exists>f rest. fs = f # rest \<and> nonempty_field t f \<and> P rest)"
proof -
  have "os = []" if "subseq (map field_tag os) []" for os :: "FieldRef list"
    using that by (cases os) simp_all
  then show ?thesis using requiredI [of "[]" "[]" t _ P] by (fastforce simp: required_def)
qed

lemma required_header_at: "required t opts P fs \<longleftrightarrow> (\<exists>k. header_at t opts fs k \<and> P (drop k fs))"
proof
  assume "required t opts P fs"
  then obtain os f rest where r: "fs = os @ f # rest" "subseq (map field_tag os) opts" "nonempty_field t f" "P rest"
    by (auto simp: required_def)
  then have "header_at t opts fs (length os + 1) \<and> P (drop (length os + 1) fs)"
    unfolding header_at_def by auto
  then show "\<exists>k. header_at t opts fs k \<and> P (drop k fs)" by blast
next
  assume "\<exists>k. header_at t opts fs k \<and> P (drop k fs)"
  then show "required t opts P fs" by (auto simp: header_at_def intro: requiredI)
qed

lemma require_then:
  assumes "t \<notin> set opts" and "\<And>c. Q c \<longleftrightarrow> P (drop c fs)"
  shows "(\<exists>c'. require_standard_header_field fs c t name opts = Inr c' \<and> Q c') \<longleftrightarrow> required t opts P (drop c fs)"
  unfolding require_standard_header_field_def header_loop_iff [OF assms(1)] assms(2) required_header_at
  by (auto simp: add.commute [of c])

lemma validate_header_iff: "validate_standard_header (a # b # ss) = Inr u \<longleftrightarrow> standard_header ss"
proof (cases ss)
  case Nil
  then show ?thesis by (simp add: validate_standard_header_def standard_header_def required_def)
next
  case (Cons f35 rest)
  let ?req = "require_standard_header_field (a # b # f35 # rest)"
  let ?o52 = "[50, 142, 57, 143, 116, 144, 129, 145, 43, 97]"
  have "validate_standard_header (a # b # f35 # rest) = Inr u \<longleftrightarrow> nonempty_field 35 f35 \<and>
      (\<exists>c. ?req 3 49 ''SenderCompID'' [1128, 1156, 1129] = Inr c \<and>
      (\<exists>c'. ?req c 56 ''TargetCompID'' [] = Inr c' \<and>
      (\<exists>c. ?req c' 34 ''MsgSeqNum'' [115, 128, 90, 91] = Inr c \<and> (\<exists>c'. ?req c 52 ''SendingTime'' ?o52 = Inr c' \<and> True))))"
    by (auto simp: validate_standard_header_def nonempty_field_def result_simps)
  also have "\<dots> \<longleftrightarrow> nonempty_field 35 f35 \<and> required 49 [1128, 1156, 1129] (required 56 []
      (required 34 [115, 128, 90, 91] (required 52 ?o52 (\<lambda>_. True)))) (drop 3 (a # b # f35 # rest))"
    by (intro arg_cong2 [where f = conj] refl require_then) simp_all
  finally show ?thesis by (simp add: Cons standard_header_def required_Nil_iff [of 35])
qed

end
