(* ===== verification/Fix_Exact.thy ===== *)
theory Fix_Exact
  imports Fix_Frames
begin

text \<open>
  What the FIX decoder accepts: the frames of well-formed messages, given here as a declarative
  description of the wire format with its body length and checksum, and nothing else.
\<close>

section \<open>Framing and checksum\<close>

definition three_digits :: "u8 \<Rightarrow> bytes" where
  "three_digits c = map (\<lambda>d. u8_of (48 + d)) [unat c div 100, unat c div 10 mod 10, unat c mod 10]"

lemma unat_ucast_u16: "unat (ucast (w :: u8) :: u16) = unat w"
proof -
  have "unat w < 65536" using unat_u8_lt [of w] by linarith
  then show ?thesis by (simp add: unsigned_ucast_eq take_bit_eq_mod)
qed

lemma unat_ucast_u8: "unat (ucast (w :: u16) :: u8) = unat w mod 256"
  by (simp add: unsigned_ucast_eq take_bit_eq_mod)

lemma ascii_digitE:
  assumes "is_ascii_digit b"
  obtains x where "x < 10" "b = u8_of (48 + x)"
proof
  show "unat b - 48 < 10" "b = u8_of (48 + (unat b - 48))"
    using assms by (auto simp: is_ascii_digit_def word_le_nat_alt u8_of_def)
qed

lemma digit_u8_of: "x < 10 \<Longrightarrow> is_ascii_digit (u8_of (48 + x)) \<and> digit (u8_of (48 + x)) = of_nat x"
proof -
  assume x: "x < 10"
  have u: "unat (u8_of (48 + x)) = 48 + x" using x by simp
  then have le: "48 \<le> u8_of (48 + x)" by (simp add: word_le_nat_alt)
  have "unat (u8_of (48 + x) - 48) = x" using unat_sub [OF le] u by simp
  then have "digit (u8_of (48 + x)) = of_nat x"
    using x by (simp add: digit_def word_unat_eq_iff unat_ucast_u16 unat_of_nat)
  with u x show ?thesis by (simp add: is_ascii_digit_def word_le_nat_alt)
qed

lemma checksum_digits_iff:
  "list_all is_ascii_digit [a, b, c] \<and> \<not> 255 < digit a * 100 + digit b * 10 + digit c \<and>
     actual = ucast (digit a * 100 + digit b * 10 + digit c) \<longleftrightarrow> [a, b, c] = three_digits actual" (is "?L \<longleftrightarrow> ?R")
proof
  assume L: ?L
  then obtain x y z where d: "x < 10" "y < 10" "z < 10" "a = u8_of (48 + x)" "b = u8_of (48 + y)" "c = u8_of (48 + z)"
    by (auto elim!: ascii_digitE)
  define n where "n = x * 100 + y * 10 + z"
  have n: "n < 1000" using d(1-3) by (simp add: n_def)
  have e: "digit a * 100 + digit b * 10 + digit c = of_nat n"
    using d by (simp add: digit_u8_of n_def)
  have "unat (of_nat n :: u16) = n" using n by (simp add: unat_of_nat)
  with L e have "n \<le> 255" "actual = of_nat n"
    by (auto simp: word_less_nat_alt word_unat_eq_iff unat_ucast_u8)
  then have "unat actual = n" by simp
  moreover have n10: "n = (x * 10 + y) * 10 + z" by (simp add: n_def)
  then have div10: "n div 10 = x * 10 + y" using d(3) by simp
  moreover have "n mod 10 = z" using d(3) by (simp only: n10 mod_mult_self3 mod_less)
  moreover have "n div 100 = n div 10 div 10" by (simp add: div_mult2_eq [symmetric])
  then have "n div 100 = x" "n div 10 mod 10 = y" using d(2) unfolding div10 by simp_all
  ultimately show ?R using d by (simp add: three_digits_def)
next
  assume R: ?R
  define n where "n = unat actual"
  have n: "n \<le> 255" by (simp add: n_def)
  then have q: "n div 100 < 10" "n div 10 mod 10 < 10" "n mod 10 < 10" by auto
  have d: "digit a = of_nat (n div 100)" "digit b = of_nat (n div 10 mod 10)" "digit c = of_nat (n mod 10)"
    using R q digit_u8_of by (simp_all add: three_digits_def n_def [symmetric])
  have "n = n div 10 * 10 + n mod 10" "n div 10 = n div 10 div 10 * 10 + n div 10 mod 10" by simp_all
  moreover have "n div 100 = n div 10 div 10" by (simp add: div_mult2_eq [symmetric])
  ultimately have "n = n div 100 * 100 + n div 10 mod 10 * 10 + n mod 10" by linarith
  then have "(of_nat n :: u16) = of_nat (n div 100 * 100 + n div 10 mod 10 * 10 + n mod 10)" by (rule arg_cong)
  then have "digit a * 100 + digit b * 10 + digit c = of_nat n"
    by (simp only: d of_nat_add of_nat_mult of_nat_numeral)
  moreover have "unat (of_nat n :: u16) = n" using n by (simp add: unat_of_nat)
  moreover have "ucast (of_nat n :: u16) = actual"
    using \<open>unat (of_nat n :: u16) = n\<close> n by (simp add: word_unat_eq_iff unat_ucast_u8 n_def)
  ultimately show ?L
    using R q n digit_u8_of by (auto simp: three_digits_def n_def [symmetric] word_less_nat_alt)
qed
lemma check_trailer_iff:
  assumes "ts + 7 = length frame"
  shows "check_trailer frame ts = Inr raw \<longleftrightarrow>
    drop ts frame = ascii ''10='' @ raw @ [SOH] \<and> raw = three_digits (checksum_of (take ts frame))"
proof -
  have "length (drop ts frame) = Suc (Suc (Suc (Suc (Suc (Suc (Suc 0))))))" using assms by simp
  then obtain a b c x y z e where d: "drop ts frame = [a, b, c, x, y, z, e]"
    by (auto simp: length_Suc_conv simp del: length_drop)
  have s1: "slice frame ts (ts + 3) = [a, b, c]" by (simp add: slice_def d)
  have "drop (ts + 3) frame = drop 3 (drop ts frame)" by (simp add: add.commute)
  then have s2: "slice frame (ts + 3) (ts + 6) = [x, y, z]" by (simp add: slice_def d)
  have "frame ! (ts + 6) = drop ts frame ! 6" using assms by simp
  then have e: "frame ! (ts + 6) = e" by (simp add: d)
  let ?sum = "checksum_of (take ts frame)" and ?exp = "digit x * 100 + digit y * 10 + digit z"
  have "check_trailer frame ts = Inr raw \<longleftrightarrow> [a, b, c] = ascii ''10='' \<and> e = SOH \<and>
      (list_all is_ascii_digit [x, y, z] \<and> \<not> 255 < ?exp \<and> ?sum = ucast ?exp) \<and> raw = [x, y, z]"
    unfolding check_trailer_def s1 s2 e Let_def by (auto split: if_splits)
  also have "\<dots> \<longleftrightarrow> drop ts frame = ascii ''10='' @ raw @ [SOH] \<and> raw = three_digits ?sum"
    unfolding checksum_digits_iff d by (auto simp: ascii_def lit_def three_digits_def)
  finally show ?thesis .
qed

definition begin_field :: FieldRef where
  "begin_field = \<lparr>field_tag = 8, field_value = ascii ''FIXT.1.1''\<rparr>"

definition length_field :: "nat \<Rightarrow> FieldRef" where
  "length_field n = \<lparr>field_tag = 9, field_value = show_bytes n\<rparr>"

definition checksum_field :: "u8 \<Rightarrow> FieldRef" where
  "checksum_field c = \<lparr>field_tag = 10, field_value = three_digits c\<rparr>"

definition fix_head :: "nat \<Rightarrow> bytes" where
  "fix_head n = wire_field begin_field @ wire_field (length_field n)"

lemma framing_fields_ok: "field_ok begin_field" "field_ok (length_field n)"
  using show_bytes_clean(2) [of n]
  by (auto simp: field_ok_def begin_field_def length_field_def U32_MAX_def SOH_def ascii_def lit_def u8_of_def)

lemma fieldref_eq: "f = (\<lparr>field_tag = t, field_value = v\<rparr> :: FieldRef) \<longleftrightarrow> field_tag f = t \<and> field_value f = v"
  by (cases f) auto

lemma if_error_iff: "(if b then Inl e else r) = Inr x \<longleftrightarrow> \<not> b \<and> r = Inr x"
  by simp

lemma map_err_Inr_iff: "map_err g r = Inr x \<longleftrightarrow> r = Inr x"
  by (cases r) auto

lemma parse_field_suffix:
  "parse_field frame a (length frame) = Inr (f, n) \<longleftrightarrow>
    field_ok f \<and> n = a + length (wire_field f) \<and> (\<exists>rest. drop a frame = wire_field f @ rest)"
  by (simp add: parse_field_iff slice_def)

lemma frame_bounds_steps:
  "frame_bounds frame = Inr (bs, bl, start, ts) \<longleftrightarrow> length frame \<le> MAX_FIX_FRAME_LEN \<and>
    (\<exists>a n. parse_field frame 0 (length frame) = Inr (bs, a) \<and> bs = begin_field \<and>
      parse_field frame a (length frame) = Inr (bl, start) \<and> bl = length_field n \<and>
      ts = start + n \<and> ts + 7 = length frame)"
proof -
  have le: "length frame \<le> MAX_FIX_FRAME_LEN \<Longrightarrow> length frame \<le> USIZE_MAX"
    by (simp add: MAX_FIX_FRAME_LEN_def USIZE_MAX_def)
  have "frame_bounds frame = Inr (bs, bl, start, ts) \<longleftrightarrow> length frame \<le> MAX_FIX_FRAME_LEN \<and>
      (\<exists>a n. parse_field frame 0 (length frame) = Inr (bs, a) \<and> bs = begin_field \<and>
        parse_field frame a (length frame) = Inr (bl, start) \<and> field_tag bl = 9 \<and> field_value bl = show_bytes n \<and>
        n \<le> USIZE_MAX \<and> ts = start + n \<and> start + n \<le> USIZE_MAX \<and> checked_add USIZE_MAX ts 7 = Some (length frame))"
    unfolding frame_bounds_def begin_field_def fieldref_eq
    by (auto simp: result_simps if_error_iff map_err_Inr_iff parse_decimal_iff not_less)
  then show ?thesis using le unfolding length_field_def fieldref_eq by auto
qed

lemma frame_bounds_iff:
  "frame_bounds frame = Inr (bs, bl, start, ts) \<longleftrightarrow> length frame \<le> MAX_FIX_FRAME_LEN \<and> bs = begin_field \<and>
    (\<exists>n rest. bl = length_field n \<and> frame = fix_head n @ rest \<and> start = length (fix_head n) \<and>
       ts = start + n \<and> ts + 7 = length frame)"
  unfolding frame_bounds_steps parse_field_suffix using framing_fields_ok by (auto simp: fix_head_def)

section \<open>Messages and their frames\<close>

text \<open>A message is its scalar fields and the entries of its repeating group.\<close>

definition body_bytes :: "FieldRef list \<Rightarrow> FieldRef list list \<Rightarrow> bytes" where
  "body_bytes ss es = wire_fields (ss @ concat es)"

definition head_fields :: "FieldRef list \<Rightarrow> FieldRef list list \<Rightarrow> FieldRef list" where
  "head_fields ss es = [begin_field, length_field (length (body_bytes ss es))]"

definition fix_message :: "FieldRef list \<Rightarrow> FieldRef list list \<Rightarrow> bool" where
  "fix_message ss es \<longleftrightarrow> list_all field_ok (ss @ concat es) \<and> 2 + length (ss @ concat es) \<le> MAX_FIELDS \<and>
     body_ok (head_fields ss es) ss es \<and> standard_header ss"

definition summed_bytes :: "FieldRef list \<Rightarrow> FieldRef list list \<Rightarrow> bytes" where
  "summed_bytes ss es = wire_fields (head_fields ss es) @ body_bytes ss es"

definition trailer_field :: "FieldRef list \<Rightarrow> FieldRef list list \<Rightarrow> FieldRef" where
  "trailer_field ss es = checksum_field (checksum_of (summed_bytes ss es))"

definition fix_frame :: "FieldRef list \<Rightarrow> FieldRef list list \<Rightarrow> bytes" where
  "fix_frame ss es = summed_bytes ss es @ wire_field (trailer_field ss es)"

definition fix_decoded :: "FieldRef list \<Rightarrow> FieldRef list list \<Rightarrow> Decoded" where
  "fix_decoded ss es = \<lparr>fix_fields = head_fields ss es @ ss @ [trailer_field ss es],
     entry_fields = concat es, entry_starts = starts_from 0 es\<rparr>"

lemma wire_trailer: "wire_field (checksum_field c) = ascii ''10='' @ three_digits c @ [SOH]"
  by (simp add: wire_field_def checksum_field_def show_bytes_def show_nat.simps ascii_def lit_def u8_of_def)

lemma length_wire_trailer [simp]: "length (wire_field (trailer_field ss es)) = 7"
  by (simp add: trailer_field_def wire_trailer ascii_def lit_def three_digits_def)

lemma summed_head: "summed_bytes ss es = fix_head (length (body_bytes ss es)) @ body_bytes ss es"
  by (simp add: summed_bytes_def head_fields_def fix_head_def)

lemma standard_header_not_Nil: "standard_header ss \<Longrightarrow> ss \<noteq> []"
  by (auto simp: standard_header_def required_Nil_iff [of 35])

text \<open>\<^verbatim>\<open>decode_frame\<close> as a chain of successful steps.\<close>

lemma decode_frame_steps:
  "decode_frame frame = Inr d \<longleftrightarrow> (\<exists>bs bl start ts raw s.
    frame_bounds frame = Inr (bs, bl, start, ts) \<and> check_trailer frame ts = Inr raw \<and>
    body_loop frame ts start 2 (scalar_state [bs, bl]) = Inr (ts, s) \<and> counted s \<and>
    validate_standard_header (b_fields s) = Inr () \<and>
    d = \<lparr>fix_fields = b_fields s @ [\<lparr>field_tag = 10, field_value = raw\<rparr>],
         entry_fields = b_entry_fields s, entry_starts = b_entry_starts s\<rparr>)"
proof -
  have c: "(case b_group s of None \<Rightarrow> Inr () | Some (n, _) \<Rightarrow>
        if length (b_entry_starts s) \<noteq> n then Inl (EntryCountMismatch n (length (b_entry_starts s))) else Inr ()) = Inr u
      \<longleftrightarrow> counted s" for s :: body_state and u
    by (auto simp: counted_def split: option.splits)
  show ?thesis
    unfolding decode_frame_def scalar_state_def
    by (auto simp: result_simps if_error_iff c split: prod.splits)
qed

lemma decode_frame_complete:
  assumes "fix_message ss es" and "length (fix_frame ss es) \<le> MAX_FIX_FRAME_LEN"
  shows "decode_frame (fix_frame ss es) = Inr (fix_decoded ss es)"
proof -
  define frame body where "frame = fix_frame ss es" and "body = body_bytes ss es"
  define n where "n = length body"
  define start where "start = length (fix_head n)"
  have frame: "frame = fix_head n @ body @ wire_field (trailer_field ss es)"
    by (simp add: frame_def fix_frame_def summed_head body_def n_def)
  have len: "start + n + 7 = length frame" by (simp add: frame start_def n_def)
  have bounds: "frame_bounds frame = Inr (begin_field, length_field n, start, start + n)"
    unfolding frame_bounds_iff using assms(2) len frame by (auto simp: frame_def start_def)
  have sum: "take (start + n) frame = summed_bytes ss es"
    by (simp add: frame start_def n_def body_def summed_head)
  have trailer: "check_trailer frame (start + n) = Inr (three_digits (checksum_of (summed_bytes ss es)))"
    unfolding check_trailer_iff [OF len] sum
    by (simp add: frame start_def n_def trailer_field_def wire_trailer)
  obtain s where s: "body_fields (ss @ concat es) (scalar_state (head_fields ss es)) = Inr s"
    "ends_with s (head_fields ss es @ ss) es"
    using body_fields_complete [of "head_fields ss es" ss es] assms(1) by (auto simp: fix_message_def)
  have "slice frame start (start + n) = wire_fields (ss @ concat es)"
    by (simp add: slice_def frame start_def n_def body_def body_bytes_def)
  moreover have "start + n \<le> length frame" "start \<le> start + n" using len by simp_all
  ultimately have "body_loop frame (start + n) start 2 (scalar_state (head_fields ss es)) = Inr (start + n, s)"
    using s(1) assms(1) unfolding body_loop_iff [OF \<open>start + n \<le> length frame\<close> \<open>start \<le> start + n\<close>] fix_message_def
    by (intro conjI refl exI [of _ "ss @ concat es"]) blast+
  moreover have "validate_standard_header (b_fields s) = Inr ()"
    using s(2) assms(1) by (simp add: ends_with_def head_fields_def validate_header_iff fix_message_def)
  ultimately have "decode_frame frame = Inr (fix_decoded ss es)"
    unfolding decode_frame_steps using s(2) bounds trailer
    by (intro exI conjI) (auto simp: head_fields_def n_def body_def ends_with_def fix_decoded_def trailer_field_def checksum_field_def)
  then show ?thesis by (simp add: frame_def)
qed

lemma decode_frame_sound:
  assumes "decode_frame frame = Inr d"
  shows "\<exists>ss es. fix_message ss es \<and> frame = fix_frame ss es \<and> d = fix_decoded ss es \<and>
    length frame \<le> MAX_FIX_FRAME_LEN"
proof -
  from assms obtain bs bl start ts raw s where bounds: "frame_bounds frame = Inr (bs, bl, start, ts)"
    and trailer: "check_trailer frame ts = Inr raw"
    and loop: "body_loop frame ts start 2 (scalar_state [bs, bl]) = Inr (ts, s)"
    and counted: "counted s" and header: "validate_standard_header (b_fields s) = Inr ()"
    and d: "d = \<lparr>fix_fields = b_fields s @ [\<lparr>field_tag = 10, field_value = raw\<rparr>],
         entry_fields = b_entry_fields s, entry_starts = b_entry_starts s\<rparr>"
    unfolding decode_frame_steps by blast
  from bounds obtain n rest where n: "bs = begin_field" "bl = length_field n" "frame = fix_head n @ rest"
    "start = length (fix_head n)" "ts = start + n" "ts + 7 = length frame" "length frame \<le> MAX_FIX_FRAME_LEN"
    unfolding frame_bounds_iff by blast
  have le: "ts \<le> length frame" "start \<le> ts" using n(5,6) by simp_all
  from loop obtain fs where fs: "slice frame start ts = wire_fields fs" "list_all field_ok fs"
    "fs = [] \<or> 2 + length fs \<le> MAX_FIELDS" "body_fields fs (scalar_state [bs, bl]) = Inr s"
    unfolding body_loop_iff [OF le] by blast
  have "distinct (map field_tag [bs, bl])" by (simp add: n begin_field_def length_field_def)
  from body_fields_sound [OF fs(4) counted this] obtain ss es where ss: "fs = ss @ concat es"
    "body_ok [bs, bl] ss es" "ends_with s ([bs, bl] @ ss) es" by blast
  have body: "take n rest = body_bytes ss es" using fs(1) ss(1) n(3-5) by (simp add: slice_def body_bytes_def)
  have "length rest = n + 7" using n(3-6) by simp
  with body have len: "n = length (body_bytes ss es)" by (metis length_take min_absorb2 le_add1)
  then have hd: "[bs, bl] = head_fields ss es" by (simp add: n(1,2) head_fields_def)
  have sum: "take ts frame = summed_bytes ss es" using n(3-5) body len by (simp add: summed_head)
  have raw: "drop ts frame = ascii ''10='' @ raw @ [SOH]" "raw = three_digits (checksum_of (summed_bytes ss es))"
    using trailer unfolding check_trailer_iff [OF n(6)] sum by blast+
  have "frame = summed_bytes ss es @ drop ts frame" using append_take_drop_id [of ts frame] sum by simp
  then have frame: "frame = fix_frame ss es" by (simp add: raw fix_frame_def trailer_field_def wire_trailer)
  have hdr: "standard_header ss" using header ss(3) by (simp add: ends_with_def validate_header_iff)
  then have "fs \<noteq> []" using standard_header_not_Nil ss(1) by simp
  with fs(3) have "2 + length fs \<le> MAX_FIELDS" by blast
  with fs(2) ss(1,2) hd hdr have "fix_message ss es" unfolding fix_message_def by metis
  moreover have "d = fix_decoded ss es"
    using ss(3) unfolding hd by (simp add: d fix_decoded_def ends_with_def trailer_field_def checksum_field_def raw(2))
  ultimately show ?thesis using frame n(7) by blast
qed

lemma decode_frame_iff:
  "decode_frame frame = Inr d \<longleftrightarrow> (\<exists>ss es. fix_message ss es \<and> frame = fix_frame ss es \<and> d = fix_decoded ss es \<and>
    length frame \<le> MAX_FIX_FRAME_LEN)"
  using decode_frame_sound decode_frame_complete by blast

section \<open>Entries\<close>

lemma nth_starts_from: "i < length es \<Longrightarrow> starts_from n es ! i = n + length (concat (take i es))"
proof (induction es arbitrary: n i)
  case (Cons e es)
  then show ?case by (cases i) simp_all
qed simp

lemma slice_concat:
  "i < length es \<Longrightarrow> slice (concat es) (length (concat (take i es))) (length (concat (take (i + 1) es))) = es ! i"
proof (induction es arbitrary: i)
  case (Cons e es)
  then show ?case by (cases i) (simp_all add: slice_def)
qed simp

lemma entry_decoded:
  assumes "i < length es"
  shows "entry (fix_decoded ss es) i = es ! i"
proof -
  have "entry (fix_decoded ss es) i =
      slice (concat es) (length (concat (take i es))) (length (concat (take (i + 1) es)))"
    using assms by (auto simp: entry_def fix_decoded_def nth_starts_from Let_def not_less)
  then show ?thesis using slice_concat [OF assms] by simp
qed

lemma entries_decoded: "map (entry (fix_decoded ss es)) [0 ..< length es] = es"
  by (rule nth_equalityI) (simp_all add: entry_decoded)

lemma decode_py_iff:
  "decode_py frame = Inr (fs, gs) \<longleftrightarrow> (\<exists>ss es. fix_message ss es \<and> frame = fix_frame ss es \<and>
    length frame \<le> MAX_FIX_FRAME_LEN \<and> fs = field_batch (head_fields ss es @ ss @ [trailer_field ss es]) \<and>
    gs = map field_batch es)"
proof -
  have e: "map (\<lambda>i. field_batch (entry (fix_decoded ss es) i)) [0 ..< length es] = map field_batch es" for ss es
    using arg_cong [OF entries_decoded [of ss es], of "map field_batch"] by (simp add: comp_def)
  have p: "field_batch (fix_fields (fix_decoded ss es)) = field_batch (head_fields ss es @ ss @ [trailer_field ss es])"
    "length (entry_starts (fix_decoded ss es)) = length es" for ss es
    by (simp_all add: fix_decoded_def)
  have "(Inr (field_batch (fix_fields (fix_decoded ss es)), map (\<lambda>i. field_batch (entry (fix_decoded ss es) i))
        [0 ..< length (entry_starts (fix_decoded ss es))]) :: FixError + _) = Inr (fs, gs) \<longleftrightarrow>
      fs = field_batch (head_fields ss es @ ss @ [trailer_field ss es]) \<and> gs = map field_batch es" for ss es
    unfolding p e by auto
  then show ?thesis
    unfolding decode_py_def and_then_Inr_iff decode_frame_iff by blast
qed

section \<open>Corruption\<close>

lemma checksum_of_sum: "checksum_of bs = sum_list bs"
proof -
  have "fold (\<lambda>b s. s + b) bs a = a + sum_list bs" for a :: u8
    by (induction bs arbitrary: a) (simp_all add: add.assoc)
  then show ?thesis by (simp add: checksum_of_def)
qed

lemma sum_list_byte_update:
  "i < length bs \<Longrightarrow> sum_list (bs[i := b]) = sum_list bs - bs ! i + (b :: u8)"
proof (induction bs arbitrary: i)
  case (Cons a bs)
  then show ?case by (cases i) (simp_all add: algebra_simps)
qed simp

lemma three_digits_inj: "three_digits c = three_digits c' \<Longrightarrow> c = c'"
proof -
  assume eq: "three_digits c = three_digits c'"
  obtain x y z where d: "three_digits c = [x, y, z]" by (simp add: three_digits_def)
  with checksum_digits_iff [of x y z c] checksum_digits_iff [of x y z c'] eq show "c = c'" by simp
qed

lemma fix_frame_corrupt:
  assumes "frame = fix_frame ss es" and "frame[i := b] = fix_frame ss' es'" and "i < length frame"
  shows "frame ! i = b"
proof -
  let ?p = "summed_bytes ss es" and ?p' = "summed_bytes ss' es'"
  from arg_cong [OF assms(2), of length] have len: "length ?p = length ?p'"
    by (simp add: assms(1) fix_frame_def)
  show ?thesis
  proof (cases "i < length ?p")
    case True
    then have "?p[i := b] @ wire_field (trailer_field ss es) = ?p' @ wire_field (trailer_field ss' es')"
      using assms(1,2) by (simp add: fix_frame_def list_update_append)
    then have p: "?p[i := b] = ?p'" and "wire_field (trailer_field ss es) = wire_field (trailer_field ss' es')"
      using len by simp_all
    then have "checksum_of ?p = checksum_of ?p'"
      by (simp add: trailer_field_def wire_trailer three_digits_inj)
    then have "sum_list ?p = sum_list ?p - ?p ! i + b"
      using sum_list_byte_update [OF True, of b] p by (simp add: checksum_of_sum)
    then have "?p ! i = b" by (simp add: algebra_simps)
    with True show ?thesis by (simp add: assms(1) fix_frame_def nth_append)
  next
    case False
    then have "frame[i := b] = ?p @ (wire_field (trailer_field ss es))[i - length ?p := b]"
      by (simp add: assms(1) fix_frame_def list_update_append)
    with assms(2) len have "?p = ?p'" by (simp add: fix_frame_def)
    then have "frame[i := b] = frame" using assms(1,2) by (simp add: fix_frame_def trailer_field_def)
    then show ?thesis using assms(3) by (metis nth_list_update_eq)
  qed
qed

section \<open>Properties\<close>

text \<open>C21 The decoder accepts exactly the frames of well-formed messages, at most 1 MiB long, and returns
  the message: \<open>fix_message\<close> describes the fields (positive 32-bit tags, no terminator inside a value,
  no tag twice, no framing tag in the body, the standard header in its order, at most 16384 fields)
  and the repeating group (its count, at most 4096 entries, each starting with the lead tag of the
  message type and without duplicates); \<open>fix_frame\<close> is its wire form with body length and checksum.
  Every field comes back with its tag and, byte for byte, its value.\<close>

theorem decode_accepts_exactly:
  "decode_py frame = Inr (fs, gs) \<longleftrightarrow> (\<exists>ss es. fix_message ss es \<and> frame = fix_frame ss es \<and>
    length frame \<le> MAX_FIX_FRAME_LEN \<and> fs = field_batch (head_fields ss es @ ss @ [trailer_field ss es]) \<and>
    gs = map field_batch es)"
  by (rule decode_py_iff)

text \<open>C22 A corrupted byte is noticed: changing any one byte of an accepted frame, in the body or in the
  trailer, makes the decoder reject it.\<close>

theorem corrupted_byte_rejected:
  assumes "decode_py frame = Inr r" and "i < length frame" and "b \<noteq> frame ! i"
  shows "\<exists>e. decode_py (frame[i := b]) = Inl e"
proof (cases "decode_py (frame[i := b])")
  case (Inr r')
  obtain ss es where "frame = fix_frame ss es" using assms(1) decode_py_iff by (cases r) blast
  moreover obtain ss' es' where "frame[i := b] = fix_frame ss' es'" using Inr decode_py_iff by (cases r') blast
  ultimately show ?thesis using fix_frame_corrupt assms(2,3) by blast
qed simp

definition demo_message :: "FieldRef list" where
  "demo_message = map (\<lambda>(t, v). \<lparr>field_tag = t, field_value = ascii v\<rparr>)
     [(35, ''0''), (49, ''A''), (56, ''B''), (34, ''1''), (52, ''T'')]"

lemma demo_message_ok: "fix_message demo_message []"
proof -
  have "standard_header demo_message"
    unfolding standard_header_def demo_message_def
    by (simp add: required_Nil_iff [of 35] required_Nil_iff [of 56] nonempty_field_def ascii_def lit_def)
      (intro requiredI [of "[]", simplified] conjI TrueI, simp_all add: nonempty_field_def required_Nil_iff [of 56] ascii_def lit_def)
  moreover have "body_ok (head_fields demo_message []) demo_message []"
    by (simp add: body_ok_def has_count_def demo_message_def head_fields_def begin_field_def length_field_def
        scalar_tag_def body_tag_def)
  ultimately show ?thesis
    by (simp add: fix_message_def demo_message_def field_ok_def U32_MAX_def SOH_def ascii_def lit_def u8_of_def MAX_FIELDS_def)
qed

lemma demo_frame: "fix_frame demo_message [] ! 3 = 73" "length (fix_frame demo_message []) = 48"
proof -
  have "body_bytes demo_message [] = ascii ''35=0'' @ SOH # ascii ''49=A'' @ SOH # ascii ''56=B'' @ SOH # ascii ''34=1'' @
      SOH # ascii ''52=T'' @ [SOH]"
    by (simp add: body_bytes_def demo_message_def wire_field_def show_bytes_def show_nat.simps ascii_def lit_def u8_of_def)
  then have "summed_bytes demo_message [] = ascii ''8=FIXT.1.1'' @ SOH # ascii ''9=25'' @ SOH # ascii ''35=0'' @ SOH #
      ascii ''49=A'' @ SOH # ascii ''56=B'' @ SOH # ascii ''34=1'' @ SOH # ascii ''52=T'' @ [SOH]"
    by (simp add: summed_bytes_def head_fields_def begin_field_def length_field_def wire_field_def show_bytes_def
        show_nat.simps ascii_def lit_def u8_of_def)
  then show "fix_frame demo_message [] ! 3 = 73" "length (fix_frame demo_message []) = 48"
    by (simp_all add: fix_frame_def ascii_def lit_def u8_of_def nth_append)
qed

theorem corrupted_byte_rejected_witness:
  "\<exists>r e. decode_py (fix_frame demo_message []) = Inr r \<and> decode_py ((fix_frame demo_message [])[3 := 74]) = Inl e"
proof -
  have "length (fix_frame demo_message []) \<le> MAX_FIX_FRAME_LEN" by (simp add: demo_frame MAX_FIX_FRAME_LEN_def)
  with demo_message_ok obtain r where r: "decode_py (fix_frame demo_message []) = Inr r"
    using decode_py_iff by blast
  from corrupted_byte_rejected [OF this, of 3 74] r show ?thesis by (simp add: demo_frame)
qed

end
