(* ===== verification/Fix_Book.thy ===== *)
theory Fix_Book
  imports Fix_Exact "HOL-Library.Log_Nat"
begin

text \<open>
  The order-book projection of \<^verbatim>\<open>src/src/fix.rs\<close>: typed entries of Kalshi snapshot (\<^verbatim>\<open>W\<close>) and
  incremental (\<^verbatim>\<open>X\<close>) messages.  Prices and sizes are \<^verbatim>\<open>f64\<close>: \<^verbatim>\<open>str::parse::<f64>\<close> rounds the exact
  decimal to the nearest binary64 value, ties to even, and overflows to infinity.
\<close>

section \<open>Binary64\<close>

text \<open>\<open>F64 s m e\<close> is \<open>m * 2 ^ e\<close>, negated when \<open>s\<close>; the two zeros differ in the sign only.\<close>

datatype f64 = F64 bool nat int | Infinite bool

fun is_finite :: "f64 \<Rightarrow> bool" where
  "is_finite (F64 s m e) \<longleftrightarrow> True"
| "is_finite (Infinite s) \<longleftrightarrow> False"

fun f64_val :: "f64 \<Rightarrow> rat" where
  "f64_val (F64 s m e) = (if s then -1 else 1) * (of_nat m * 2 powi e)"
| "f64_val (Infinite s) = 0"

text \<open>Round half to even.\<close>

definition round_even :: "rat \<Rightarrow> int" where
  "round_even y =
     (let q = \<lfloor>y\<rfloor>; r = y - of_int q
      in if r > 1 / 2 \<or> (r = 1 / 2 \<and> odd q) then q + 1 else q)"

text \<open>The \<open>k\<close> with \<open>2 ^ k \<le> x < 2 ^ (k + 1)\<close>.\<close>

definition binary_exponent :: "rat \<Rightarrow> int" where
  "binary_exponent x =
     (let (a, b) = quotient_of x; k = int (floorlog 2 (nat a)) - int (floorlog 2 (nat b))
      in if 2 powi k \<le> x then k else k - 1)"

definition round_f64 :: "bool \<Rightarrow> rat \<Rightarrow> f64" where
  "round_f64 s x =
     (if x = 0 then F64 s 0 0
      else let e = max (-1074) (binary_exponent x - 52);
               m = nat (round_even (x / 2 powi e));
               (m, e) = (if m = 2 ^ 53 then (2 ^ 52, e + 1) else (m, e))
        in if 971 < e then Infinite s else F64 s m e)"

text \<open>\<^verbatim>\<open>str::parse::<f64>\<close> on a sign, digits and at most one point; exponents and the names of special
  values do not pass the scan of \<^verbatim>\<open>fix_number\<close>.\<close>

definition split_sign :: "nat list \<Rightarrow> bool \<times> nat list" where
  "split_sign s = (case s of [] \<Rightarrow> (False, []) | c # t \<Rightarrow> if c = 45 then (True, t) else if c = 43 then (False, t) else (False, s))"

definition parse_f64 :: "rstring \<Rightarrow> f64 option" where
  "parse_f64 text =
     (case split_sign text of (s, u) \<Rightarrow>
        let i = takeWhile (\<lambda>c. c \<noteq> 46) u; f = drop 1 (dropWhile (\<lambda>c. c \<noteq> 46) u)
        in if i @ f \<noteq> [] \<and> list_all is_digit (i @ f)
           then Some (round_f64 s (of_nat (digits_value (i @ f)) / 10 ^ length f)) else None)"

text \<open>\<^verbatim>\<open>std::str::from_utf8\<close> succeeds on the encodings of strings.\<close>

definition from_utf8 :: "bytes \<Rightarrow> rstring option" where
  "from_utf8 bs = (let s = from_utf8_lossy bs in if utf8_encode s = bs then Some s else None)"

section \<open>The projection\<close>

datatype BookError =
    InFrame FixError | KalshiRequires nat | KalshiRequiresNonEmpty nat
  | KalshiDecimalSyntax nat | KalshiNotAscii nat | KalshiNotNumeric nat | KalshiNotFinite nat
  | KalshiMsgType | KalshiEntryType rstring | KalshiUpdateAction rstring
  | KalshiPriceRange | KalshiSizeNegative | KalshiActiveSizeZero

record KalshiBookEntry =
  k_action :: "bytes option"
  k_symbol :: "bytes option"
  k_entry_type :: bytes
  k_price :: f64
  k_size :: f64
  k_date :: bytes
  k_time :: bytes

record KalshiBook =
  k_msg_type :: bytes
  k_sequence :: bytes
  k_snapshot_symbol :: "bytes option"
  k_entries :: "KalshiBookEntry list"

definition required_value :: "FieldRef list \<Rightarrow> nat \<Rightarrow> BookError + bytes" where
  "required_value fs t =
     and_then (ok_or (find_value fs t) (KalshiRequires t)) (\<lambda>v.
       if v = [] then Inl (KalshiRequiresNonEmpty t) else Inr v)"

text \<open>The scan over digits and at most one point; the result says whether it saw a digit.\<close>

fun number_scan :: "bool \<Rightarrow> bool \<Rightarrow> bytes \<Rightarrow> bool option" where
  "number_scan saw_digit saw_decimal [] = Some saw_digit"
| "number_scan saw_digit saw_decimal (b # bs) =
     (if is_ascii_digit b then number_scan True saw_decimal bs
      else if b = 46 \<and> \<not> saw_decimal then number_scan saw_digit True bs
      else None)"

definition fix_number :: "bytes \<Rightarrow> nat \<Rightarrow> BookError + f64" where
  "fix_number raw t =
     (let unsigned_part = (if raw \<noteq> [] \<and> (hd raw = 43 \<or> hd raw = 45) then tl raw else raw) in
      and_then (ok_or (number_scan False False unsigned_part) (KalshiDecimalSyntax t)) (\<lambda>saw_digit.
      if \<not> saw_digit then Inl (KalshiDecimalSyntax t)
      else and_then (ok_or (from_utf8 raw) (KalshiNotAscii t)) (\<lambda>text.
      and_then (ok_or (parse_f64 text) (KalshiNotNumeric t)) (\<lambda>v.
      if \<not> is_finite v then Inl (KalshiNotFinite t) else Inr v))))"

text \<open>One entry: the body of the loop over the entries.\<close>

definition kalshi_entry :: "bool \<Rightarrow> FieldRef list \<Rightarrow> BookError + KalshiBookEntry" where
  "kalshi_entry incremental fs =
     and_then (required_value fs 269) (\<lambda>entry_type.
     if \<not> (entry_type \<in> {ascii ''0'', ascii ''1''} \<or> incremental \<and> entry_type = ascii ''2'')
     then Inl (KalshiEntryType (from_utf8_lossy entry_type))
     else and_then
       (if incremental then
          and_then (required_value fs 279) (\<lambda>action.
            if action \<notin> {ascii ''0'', ascii ''1'', ascii ''2''} then Inl (KalshiUpdateAction (from_utf8_lossy action))
            else and_then (required_value fs 55) (\<lambda>symbol. Inr (Some action, Some symbol)))
        else Inr (None, None)) (\<lambda>(action, symbol).
     and_then (and_then (required_value fs 270) (\<lambda>v. fix_number v 270)) (\<lambda>price.
     and_then (and_then (required_value fs 271) (\<lambda>v. fix_number v 271)) (\<lambda>size.
     if \<not> (0 \<le> f64_val price \<and> f64_val price \<le> 1) then Inl KalshiPriceRange
     else if f64_val size < 0 then Inl KalshiSizeNegative
     else if entry_type \<in> {ascii ''0'', ascii ''1''} \<and> action \<noteq> Some (ascii ''2'') \<and> f64_val size = 0
     then Inl KalshiActiveSizeZero
     else and_then (required_value fs 272) (\<lambda>date.
          and_then (required_value fs 273) (\<lambda>time.
            Inr \<lparr>k_action = action, k_symbol = symbol, k_entry_type = entry_type, k_price = price,
                 k_size = size, k_date = date, k_time = time\<rparr>))))))"

fun kalshi_entries :: "bool \<Rightarrow> Decoded \<Rightarrow> nat list \<Rightarrow> BookError + KalshiBookEntry list" where
  "kalshi_entries incremental d [] = Inr []"
| "kalshi_entries incremental d (i # is) =
     and_then (kalshi_entry incremental (entry d i)) (\<lambda>x.
     and_then (kalshi_entries incremental d is) (\<lambda>xs. Inr (x # xs)))"

definition parse_kalshi_book :: "Decoded \<Rightarrow> BookError + KalshiBook" where
  "parse_kalshi_book d =
     and_then (required_value (fix_fields d) 35) (\<lambda>msg_type.
     if msg_type \<notin> {ascii ''W'', ascii ''X''} then Inl KalshiMsgType
     else and_then (required_value (fix_fields d) 34) (\<lambda>seq.
     and_then (required_value (fix_fields d) 268) (\<lambda>_.
     let incremental = (msg_type = ascii ''X'') in
     and_then (if incremental then Inr None
               else and_then (required_value (fix_fields d) 55) (\<lambda>v. Inr (Some v))) (\<lambda>snapshot_symbol.
     and_then (kalshi_entries incremental d [0 ..< length (entry_starts d)]) (\<lambda>es.
       Inr \<lparr>k_msg_type = msg_type, k_sequence = seq, k_snapshot_symbol = snapshot_symbol, k_entries = es\<rparr>)))))"

type_synonym py_entry = "rstring option \<times> rstring option \<times> rstring \<times> f64 \<times> f64 \<times> rstring \<times> rstring"

definition optional_latin1 :: "bytes option \<Rightarrow> rstring option" where
  "optional_latin1 v = map_option latin1 v"

definition py_entry_of :: "KalshiBookEntry \<Rightarrow> py_entry" where
  "py_entry_of x = (optional_latin1 (k_action x), optional_latin1 (k_symbol x), latin1 (k_entry_type x),
     k_price x, k_size x, latin1 (k_date x), latin1 (k_time x))"

definition decode_kalshi_book_py ::
  "bytes \<Rightarrow> BookError + (rstring \<times> rstring \<times> rstring option \<times> py_entry list)" where
  "decode_kalshi_book_py frame =
     and_then (map_err InFrame (decode_frame frame)) (\<lambda>decoded.
     and_then (parse_kalshi_book decoded) (\<lambda>book.
       Inr (latin1 (k_msg_type book), latin1 (k_sequence book), optional_latin1 (k_snapshot_symbol book),
            map py_entry_of (k_entries book))))"

section \<open>Rounding\<close>

lemma powi_two_le: "(2 :: rat) powi j \<le> 2 powi k \<longleftrightarrow> j \<le> k"
proof
  show "j \<le> k \<Longrightarrow> (2 :: rat) powi j \<le> 2 powi k" by (rule power_int_increasing) simp_all
  show "(2 :: rat) powi j \<le> 2 powi k \<Longrightarrow> j \<le> k"
    using power_int_strict_increasing [of k j "2 :: rat"] by (rule_tac ccontr) simp
qed

lemma floorlog_powi:
  assumes "0 < n"
  shows "(2 :: rat) powi (int (floorlog 2 n) - 1) \<le> of_nat n \<and> of_nat n < (2 :: rat) powi int (floorlog 2 n)"
proof -
  have pos: "0 < floorlog 2 n" using assms by (simp add: floorlog_def)
  from floorlog_bounds [of n 2] assms have b: "2 ^ (floorlog 2 n - 1) \<le> n" "n < 2 ^ floorlog 2 n" by auto
  have "(2 :: rat) powi (int (floorlog 2 n) - 1) = of_nat (2 ^ (floorlog 2 n - 1))"
    using pos by (simp add: power_int_def nat_diff_distrib)
  moreover have "(2 :: rat) powi int (floorlog 2 n) = of_nat (2 ^ floorlog 2 n)" by simp
  ultimately show ?thesis using b by (metis of_nat_le_iff of_nat_less_iff)
qed

lemma binary_exponent_bounds:
  assumes "0 < x"
  shows "2 powi binary_exponent x \<le> x \<and> x < 2 powi (binary_exponent x + 1)"
proof -
  obtain a b where q: "quotient_of x = (a, b)" by force
  have b: "0 < b" using quotient_of_denom_pos [OF q] .
  have x: "x = of_int a / of_int b" using quotient_of_div [OF q] .
  with assms b have a: "0 < a" by (simp add: zero_less_divide_iff)
  define i j where "i = int (floorlog 2 (nat a))" and "j = int (floorlog 2 (nat b))"
  have A: "2 powi (i - 1) \<le> (of_int a :: rat)" "(of_int a :: rat) < 2 powi i"
    using floorlog_powi [of "nat a"] a by (simp_all add: i_def)
  have B: "2 powi (j - 1) \<le> (of_int b :: rat)" "(of_int b :: rat) < 2 powi j"
    using floorlog_powi [of "nat b"] b by (simp_all add: j_def)
  have "x < 2 powi i / 2 powi (j - 1)"
    unfolding x using A B a b by (intro frac_less) auto
  also have "\<dots> = 2 powi (i - j + 1)" by (simp add: power_int_diff [symmetric] algebra_simps)
  finally have up: "x < 2 powi (i - j + 1)" .
  have "2 powi (i - 1) / 2 powi j < x"
    unfolding x using A B a b by (intro frac_less2) auto
  moreover have "(2 :: rat) powi (i - 1) / 2 powi j = 2 powi (i - j - 1)"
    by (simp add: power_int_diff [symmetric] algebra_simps)
  ultimately have low: "2 powi (i - j - 1) < x" by simp
  show ?thesis
    using up low by (simp add: binary_exponent_def q i_def [symmetric] j_def [symmetric] Let_def)
qed

lemma round_even_close: "\<bar>of_int (round_even y) - y\<bar> \<le> 1 / 2"
proof -
  define r where "r = y - of_int \<lfloor>y\<rfloor>"
  have r: "0 \<le> r" "r < 1" by (simp_all add: r_def) (linarith)
  have "of_int (round_even y) - y = (if r > 1 / 2 \<or> (r = 1 / 2 \<and> odd \<lfloor>y\<rfloor>) then 1 - r else - r)"
    by (simp add: round_even_def Let_def r_def)
  with r show ?thesis by auto
qed

lemma round_even_le: "y \<le> of_int n \<Longrightarrow> round_even y \<le> n"
proof -
  assume y: "y \<le> of_int n"
  show ?thesis
  proof (cases "y = of_int n")
    case True
    then show ?thesis by (simp add: round_even_def)
  next
    case False
    with y have "\<lfloor>y\<rfloor> < n" by (simp add: floor_less_iff)
    then show ?thesis by (simp add: round_even_def Let_def)
  qed
qed

lemma round_even_nonneg: "0 \<le> y \<Longrightarrow> 0 \<le> round_even y"
  by (simp add: round_even_def Let_def)

lemma round_f64_unit:
  assumes "0 \<le> x" and "x \<le> 1"
  shows "\<exists>m e. round_f64 s x = F64 s m e \<and> of_nat m * 2 powi e \<le> (1 :: rat) \<and>
    \<bar>of_nat m * 2 powi e - x\<bar> \<le> 2 powi (-53)"
proof (cases "x = 0")
  case True
  then show ?thesis by (simp add: round_f64_def)
next
  case False
  with assms have x: "0 < x" by simp
  define e where "e = max (-1074) (binary_exponent x - 52)"
  define y where "y = x / 2 powi e"
  define q where "q = round_even y"
  have "2 powi binary_exponent x \<le> x" using binary_exponent_bounds [OF x] by simp
  also note assms(2)
  finally have "2 powi binary_exponent x \<le> (2 :: rat) powi 0" by simp
  then have "binary_exponent x \<le> 0" by (simp only: powi_two_le)
  then have e: "e \<le> -52" by (simp add: e_def)
  then have e': "(2 :: rat) powi e \<le> 2 powi (-52)" by (simp only: powi_two_le)
  have y: "0 \<le> y" using assms(1) by (simp add: y_def)
  have q0: "0 \<le> q" using round_even_nonneg [OF y] by (simp add: q_def)
  have "y \<le> 1 / 2 powi e" using assms(2) by (simp add: y_def divide_right_mono)
  also have "\<dots> = of_int (2 ^ nat (- e))" using e by (simp add: power_int_def power_one_over)
  finally have "q \<le> 2 ^ nat (- e)" unfolding q_def by (rule round_even_le)
  then have "of_int q \<le> (of_int (2 ^ nat (- e)) :: rat)" by (simp only: of_int_le_iff)
  also have "\<dots> = 1 / 2 powi e" using e by (simp add: power_int_def power_one_over)
  finally have one: "of_int q * 2 powi e \<le> (1 :: rat)" by (simp add: pos_le_divide_eq)
  have "of_int q * 2 powi e - x = (of_int q - y) * 2 powi e" by (simp add: y_def left_diff_distrib)
  then have "\<bar>of_int q * 2 powi e - x\<bar> = \<bar>of_int q - y\<bar> * 2 powi e" by (simp add: abs_mult)
  also have "\<dots> \<le> 1 / 2 * 2 powi (-52)"
    using round_even_close [of y] e' by (intro mult_mono) (simp_all add: q_def)
  also have "\<dots> = 2 powi (-53)" by (simp add: power_int_def power_one_over)
  finally have close: "\<bar>of_int q * 2 powi e - x\<bar> \<le> 2 powi (-53)" .
  have r: "round_f64 s x = (if nat q = 2 ^ 53 then F64 s (2 ^ 52) (e + 1) else F64 s (nat q) e)"
    using False e by (simp add: round_f64_def e_def [symmetric] y_def [symmetric] q_def [symmetric] Let_def)
  have v: "of_nat (nat q) * 2 powi e = (of_int q :: rat) * 2 powi e" using q0 by simp
  show ?thesis
  proof (cases "nat q = 2 ^ 53")
    case True
    have "of_nat (2 ^ 52) * 2 powi (e + 1) = (of_nat (2 ^ 53) :: rat) * 2 powi e"
      by (simp add: power_int_add)
    with True v one close r show ?thesis by (metis (no_types, lifting))
  next
    case False
    with v one close r show ?thesis by (metis (no_types, lifting))
  qed
qed

section \<open>Decimal texts\<close>

lemma number_scan_digits:
  "list_all is_ascii_digit ds \<Longrightarrow> number_scan d p (ds @ bs) = number_scan (d \<or> ds \<noteq> []) p bs"
  by (induction ds arbitrary: d) auto

lemma u8_of_unat [simp]: "u8_of (unat b) = b"
  by (simp add: u8_of_def)

lemma from_utf8_ascii:
  assumes "\<forall>b \<in> set bs. unat b < 128"
  shows "from_utf8 bs = Some (map unat bs)"
proof -
  have "utf8_encode (map unat bs) = bs"
    using assms by (induction bs) (simp_all add: utf8_encode_def utf8_char_def)
  moreover have "list_all scalar (map unat bs)" using assms by (auto simp: list_all_iff scalar_def)
  ultimately show ?thesis
    using from_utf8_lossy_encode [of "map unat bs"] by (simp add: from_utf8_def)
qed

text \<open>A FIX decimal without a minus sign: an optional plus, digits, and maybe a point with more digits.\<close>

definition decimal_text :: "bytes \<Rightarrow> bytes \<Rightarrow> bytes \<Rightarrow> bool" where
  "decimal_text raw ds fs \<longleftrightarrow> ds @ fs \<noteq> [] \<and> list_all is_ascii_digit (ds @ fs) \<and>
     (\<exists>sign p. raw = sign @ ds @ p \<and> (sign = [] \<or> sign = [43]) \<and> (p = 46 # fs \<or> (fs = [] \<and> p = [])))"

definition decimal_value :: "bytes \<Rightarrow> bytes \<Rightarrow> rat" where
  "decimal_value ds fs = of_nat (digits_value (map unat (ds @ fs))) / 10 ^ length fs"

lemma digits_facts:
  assumes "list_all is_ascii_digit ds"
  shows "list_all is_digit (map unat ds)" and "\<forall>c \<in> set (map unat ds). c \<noteq> 46 \<and> c \<noteq> 43 \<and> c \<noteq> 45 \<and> c < 128"
  using assms by (auto simp: list_all_iff is_ascii_digit_unat is_digit_def)

lemma parse_decimal_text:
  assumes "decimal_text raw ds fs"
  shows "parse_f64 (map unat raw) = Some (round_f64 False (decimal_value ds fs))"
proof -
  let ?d = "map unat ds" and ?f = "map unat fs"
  have dig: "list_all is_digit ?d" "list_all is_digit ?f" "\<forall>c \<in> set ?d. c \<noteq> 46 \<and> c \<noteq> 43 \<and> c \<noteq> 45"
    and ne: "?d @ ?f \<noteq> []"
    using assms digits_facts [of ds] digits_facts [of fs] by (auto simp: decimal_text_def)
  obtain p where p: "map unat raw = 43 # ?d @ p \<or> map unat raw = ?d @ p" "p = 46 # ?f \<or> (?f = [] \<and> p = [])"
  proof -
    from assms obtain sign q where "raw = sign @ ds @ q" "sign = [] \<or> sign = [43]" "q = 46 # fs \<or> (fs = [] \<and> q = [])"
      unfolding decimal_text_def by blast
    then show thesis by (intro that [of "map unat q"]) auto
  qed
  have hd: "?d @ p \<noteq> [] \<and> hd (?d @ p) \<noteq> 43 \<and> hd (?d @ p) \<noteq> 45"
    using dig(3) p(2) ne by (cases ?d) auto
  then have sp: "split_sign (map unat raw) = (False, ?d @ p)"
    using p(1) by (cases "?d @ p") (auto simp: split_sign_def)
  have "takeWhile (\<lambda>c. c \<noteq> 46) (?d @ p) = ?d @ takeWhile (\<lambda>c. c \<noteq> 46) p"
    by (rule takeWhile_append2) (use dig(3) in auto)
  then have tw: "takeWhile (\<lambda>c. c \<noteq> 46) (?d @ p) = ?d" using p(2) by auto
  have "dropWhile (\<lambda>c. c \<noteq> 46) (?d @ p) = dropWhile (\<lambda>c. c \<noteq> 46) p"
    by (rule dropWhile_append2) (use dig(3) in auto)
  then have dw: "drop 1 (dropWhile (\<lambda>c. c \<noteq> 46) (?d @ p)) = ?f" using p(2) by auto
  show ?thesis
    unfolding parse_f64_def sp prod.case Let_def tw dw using dig(1,2) ne by (simp add: decimal_value_def)
qed

lemma fix_number_decimal:
  assumes "decimal_text raw ds fs" and "is_finite (round_f64 False (decimal_value ds fs))"
  shows "fix_number raw t = Inr (round_f64 False (decimal_value ds fs))"
proof -
  have dig: "list_all is_ascii_digit ds" "list_all is_ascii_digit fs" "ds @ fs \<noteq> []"
    using assms(1) by (auto simp: decimal_text_def)
  obtain sign p where raw: "raw = sign @ ds @ p" "sign = [] \<or> sign = [43]" "p = 46 # fs \<or> (fs = [] \<and> p = [])"
    using assms(1) unfolding decimal_text_def by blast
  have "\<not> is_ascii_digit 43" "\<not> is_ascii_digit 45" "\<not> is_ascii_digit 46" by (simp_all add: is_ascii_digit_def)
  then have "(if raw \<noteq> [] \<and> (hd raw = 43 \<or> hd raw = 45) then tl raw else raw) = ds @ p"
    using raw dig by (cases ds) auto
  moreover have "number_scan False False (ds @ p) = Some True"
    using raw(3) dig number_scan_digits [OF dig(1), of False False p] number_scan_digits [OF dig(2), of "ds \<noteq> []" True "[]"]
      \<open>\<not> is_ascii_digit 46\<close> by auto
  moreover have "from_utf8 raw = Some (map unat raw)"
    using raw digits_facts(2) [OF dig(1)] digits_facts(2) [OF dig(2)] by (intro from_utf8_ascii) auto
  ultimately show ?thesis
    using parse_decimal_text [OF assms(1)] assms(2) by (simp add: fix_number_def Let_def ok_or_def)
qed

lemma fix_number_unit:
  assumes "decimal_text raw ds fs" and "decimal_value ds fs \<le> 1"
  shows "\<exists>v. fix_number raw t = Inr v \<and> is_finite v \<and> 0 \<le> f64_val v \<and> f64_val v \<le> 1 \<and>
    \<bar>f64_val v - decimal_value ds fs\<bar> \<le> 2 powi (-53)"
proof -
  have "0 \<le> decimal_value ds fs" by (simp add: decimal_value_def)
  from round_f64_unit [OF this assms(2), of False] obtain m e where
    v: "round_f64 False (decimal_value ds fs) = F64 False m e" "of_nat m * 2 powi e \<le> (1 :: rat)"
      "\<bar>of_nat m * 2 powi e - decimal_value ds fs\<bar> \<le> 2 powi (-53)" by blast
  with fix_number_decimal [OF assms(1), of t] show ?thesis by simp
qed

section \<open>Well-formed books\<close>

definition book_entry_ok :: "bool \<Rightarrow> py_entry \<Rightarrow> bool" where
  "book_entry_ok incremental = (\<lambda>(action, symbol, entry_type, price, size, date, time).
     is_finite price \<and> 0 \<le> f64_val price \<and> f64_val price \<le> 1 \<and> is_finite size \<and> 0 \<le> f64_val size \<and>
     date \<noteq> [] \<and> time \<noteq> [] \<and>
     (if incremental then action \<in> {Some (lit ''0''), Some (lit ''1''), Some (lit ''2'')} \<and> symbol \<notin> {None, Some []} \<and>
        entry_type \<in> {lit ''0'', lit ''1'', lit ''2''}
      else action = None \<and> symbol = None \<and> entry_type \<in> {lit ''0'', lit ''1''}) \<and>
     (entry_type = lit ''2'' \<or> action = Some (lit ''2'') \<or> 0 < f64_val size))"

lemma latin1_ascii [simp]: "latin1 (ascii s) = lit s"
  by (simp add: latin1_def ascii_def lit_def)

lemma latin1_Nil_iff [simp]: "latin1 v = [] \<longleftrightarrow> v = []"
  by (simp add: latin1_def)

lemma required_value_iff: "required_value fs t = Inr v \<longleftrightarrow> find_value fs t = Some v \<and> v \<noteq> []"
  by (auto simp: required_value_def result_simps)

lemma map_of_field_batch: "map_of (field_batch fs) t = map_option latin1 (find_value fs t)"
  by (induction fs) (auto simp: field_batch_def find_value_def)

lemma fix_number_finite: "fix_number raw t = Inr v \<Longrightarrow> is_finite v"
  by (auto simp: fix_number_def result_simps Let_def split: if_splits)

lemma kalshi_entry_steps:
  assumes "kalshi_entry incremental fs = Inr x"
  shows "k_entry_type x \<in> {ascii ''0'', ascii ''1''} \<or> incremental \<and> k_entry_type x = ascii ''2''"
    and "if incremental then k_action x \<in> {Some (ascii ''0''), Some (ascii ''1''), Some (ascii ''2'')} \<and>
        (\<exists>v. k_symbol x = Some v \<and> v \<noteq> []) else k_action x = None \<and> k_symbol x = None"
    and "is_finite (k_price x) \<and> 0 \<le> f64_val (k_price x) \<and> f64_val (k_price x) \<le> 1"
    and "is_finite (k_size x) \<and> 0 \<le> f64_val (k_size x)"
    and "k_entry_type x \<in> {ascii ''0'', ascii ''1''} \<and> k_action x \<noteq> Some (ascii ''2'') \<longrightarrow> f64_val (k_size x) \<noteq> 0"
    and "k_date x \<noteq> [] \<and> k_time x \<noteq> []"
proof -
  obtain ty action symbol price size date time where
    e: "\<not> \<not> (ty \<in> {ascii ''0'', ascii ''1''} \<or> incremental \<and> ty = ascii ''2'')"
      "(if incremental then
          and_then (required_value fs 279) (\<lambda>action.
            if action \<notin> {ascii ''0'', ascii ''1'', ascii ''2''} then Inl (KalshiUpdateAction (from_utf8_lossy action))
            else and_then (required_value fs 55) (\<lambda>symbol. Inr (Some action, Some symbol)))
        else Inr (None, None)) = Inr (action, symbol)"
      "\<exists>v. fix_number v 270 = Inr price" "\<exists>v. fix_number v 271 = Inr size"
      "\<not> \<not> (0 \<le> f64_val price \<and> f64_val price \<le> 1)" "\<not> f64_val size < 0"
      "\<not> (ty \<in> {ascii ''0'', ascii ''1''} \<and> action \<noteq> Some (ascii ''2'') \<and> f64_val size = 0)"
      "required_value fs 272 = Inr date" "required_value fs 273 = Inr time"
    and x: "x = \<lparr>k_action = action, k_symbol = symbol, k_entry_type = ty, k_price = price,
                 k_size = size, k_date = date, k_time = time\<rparr>"
    using assms unfolding kalshi_entry_def and_then_Inr_iff if_error_iff split_paired_Ex prod.case sum.inject by blast
  show "k_entry_type x \<in> {ascii ''0'', ascii ''1''} \<or> incremental \<and> k_entry_type x = ascii ''2''"
    using e(1) by (simp add: x)
  show "if incremental then k_action x \<in> {Some (ascii ''0''), Some (ascii ''1''), Some (ascii ''2'')} \<and>
        (\<exists>v. k_symbol x = Some v \<and> v \<noteq> []) else k_action x = None \<and> k_symbol x = None"
    using e(2) by (cases incremental) (auto simp: x result_simps if_error_iff required_value_iff)
  show "is_finite (k_price x) \<and> 0 \<le> f64_val (k_price x) \<and> f64_val (k_price x) \<le> 1"
    using e(3,5) fix_number_finite by (auto simp: x)
  show "is_finite (k_size x) \<and> 0 \<le> f64_val (k_size x)"
    using e(4,6) fix_number_finite by (auto simp: x)
  show "k_entry_type x \<in> {ascii ''0'', ascii ''1''} \<and> k_action x \<noteq> Some (ascii ''2'') \<longrightarrow> f64_val (k_size x) \<noteq> 0"
    using e(7) by (auto simp: x)
  show "k_date x \<noteq> [] \<and> k_time x \<noteq> []"
    using e(8,9) by (simp add: x required_value_iff)
qed

lemma kalshi_entry_ok:
  assumes "kalshi_entry incremental fs = Inr x"
  shows "book_entry_ok incremental (py_entry_of x)"
proof -
  note e = kalshi_entry_steps [OF assms]
  have t: "latin1 (k_entry_type x) \<in> {lit ''0'', lit ''1''} \<or> incremental \<and> latin1 (k_entry_type x) = lit ''2''"
    using e(1) by auto
  have a: "if incremental then optional_latin1 (k_action x) \<in> {Some (lit ''0''), Some (lit ''1''), Some (lit ''2'')} \<and>
      optional_latin1 (k_symbol x) \<notin> {None, Some []} else optional_latin1 (k_action x) = None \<and> optional_latin1 (k_symbol x) = None"
    using e(2) by (cases incremental) (auto simp: optional_latin1_def)
  have "latin1 (k_entry_type x) = lit ''2'' \<or> optional_latin1 (k_action x) = Some (lit ''2'') \<or> 0 < f64_val (k_size x)"
    using e(1,4,5) by (auto simp: optional_latin1_def)
  with t a e(3,4,6) show ?thesis by (cases incremental) (simp_all add: book_entry_ok_def py_entry_of_def)
qed

lemma kalshi_entries_ok:
  "kalshi_entries incremental d is = Inr xs \<Longrightarrow>
    list_all (book_entry_ok incremental) (map py_entry_of xs) \<and> length xs = length is"
  by (induction "is" arbitrary: xs) (auto simp: result_simps kalshi_entry_ok)

lemma parse_kalshi_book_ok:
  assumes "parse_kalshi_book d = Inr b"
  shows "k_msg_type b \<in> {ascii ''W'', ascii ''X''} \<and> find_value (fix_fields d) 35 = Some (k_msg_type b) \<and>
    find_value (fix_fields d) 34 = Some (k_sequence b) \<and> (k_snapshot_symbol b = None \<longleftrightarrow> k_msg_type b = ascii ''X'') \<and>
    list_all (book_entry_ok (k_msg_type b = ascii ''X'')) (map py_entry_of (k_entries b)) \<and>
    length (k_entries b) = length (entry_starts d)"
  using assms kalshi_entries_ok [of _ d "[0 ..< length (entry_starts d)]"]
  by (auto simp: parse_kalshi_book_def result_simps if_error_iff required_value_iff Let_def split: if_splits)

lemma decode_kalshi_ok:
  assumes "decode_kalshi_book_py frame = Inr (msg_type, seq, symbol, es)"
  shows "\<exists>fs gs. decode_py frame = Inr (fs, gs) \<and> length es = length gs \<and>
    map_of fs 35 = Some msg_type \<and> map_of fs 34 = Some seq \<and>
    msg_type \<in> {lit ''W'', lit ''X''} \<and> (symbol = None \<longleftrightarrow> msg_type = lit ''X'') \<and>
    list_all (book_entry_ok (msg_type = lit ''X'')) es"
proof -
  from assms obtain d b where d: "decode_frame frame = Inr d" and b: "parse_kalshi_book d = Inr b"
    and out: "msg_type = latin1 (k_msg_type b)" "seq = latin1 (k_sequence b)"
      "symbol = optional_latin1 (k_snapshot_symbol b)" "es = map py_entry_of (k_entries b)"
    by (auto simp: decode_kalshi_book_py_def result_simps map_err_Inr_iff)
  have "lit ''W'' \<noteq> lit ''X''" "ascii ''W'' \<noteq> ascii ''X''" by (simp_all add: ascii_def lit_def u8_of_def)
  with parse_kalshi_book_ok [OF b] d show ?thesis
    by (auto simp: decode_py_def map_of_field_batch out optional_latin1_def)
qed

section \<open>Properties\<close>

text \<open>C24 Decimal prices: every FIX decimal whose exact value lies in the unit interval, with or without plus
  sign and point, is read, and the resulting double stays in the unit interval and is within
  \<open>2 ^ (-53)\<close> of the exact value.\<close>

theorem decimal_prices_read:
  assumes "decimal_text raw ds fs" and "decimal_value ds fs \<le> 1"
  shows "\<exists>v. fix_number raw t = Inr v \<and> is_finite v \<and> 0 \<le> f64_val v \<and> f64_val v \<le> 1 \<and>
    \<bar>f64_val v - decimal_value ds fs\<bar> \<le> 2 powi (-53)"
  by (rule fix_number_unit [OF assms])

theorem decimal_prices_read_witness:
  "\<exists>v. fix_number (ascii ''.41'') 270 = Inr v \<and> \<bar>f64_val v - 41 / 100\<bar> \<le> 2 powi (-53)"
proof -
  have "decimal_text (ascii ''.41'') [] (ascii ''41'')"
    by (simp add: decimal_text_def is_ascii_digit_def ascii_def lit_def u8_of_def)
  moreover have "decimal_value [] (ascii ''41'') = 41 / 100"
    by (simp add: decimal_value_def digits_value_def ascii_def lit_def power2_eq_square)
  moreover have "(41 / 100 :: rat) \<le> 1" by simp
  ultimately show ?thesis using decimal_prices_read [of "ascii ''.41''" "[]" "ascii ''41''" 270] by metis
qed

text \<open>C23 A decoded book is well-formed: it comes from a frame the plain decoder accepts, has one entry per
  entry of the frame's group, the message type and sequence number of its header and a symbol
  exactly for snapshots; every price is a finite double in the unit interval, every size finite and
  not negative, positive on active levels, and every code is one of the documented ones.\<close>

theorem decoded_book_well_formed:
  assumes "decode_kalshi_book_py frame = Inr (msg_type, seq, symbol, es)"
  shows "\<exists>fs gs. decode_py frame = Inr (fs, gs) \<and> length es = length gs \<and>
    map_of fs 35 = Some msg_type \<and> map_of fs 34 = Some seq \<and>
    msg_type \<in> {lit ''W'', lit ''X''} \<and> (symbol = None \<longleftrightarrow> msg_type = lit ''X'') \<and>
    list_all (book_entry_ok (msg_type = lit ''X'')) es"
  by (rule decode_kalshi_ok [OF assms])

definition demo_fields :: "(nat \<times> string) list \<Rightarrow> FieldRef list" where
  "demo_fields = map (\<lambda>(t, v). \<lparr>field_tag = t, field_value = ascii v\<rparr>)"

definition demo_snapshot :: "FieldRef list" where
  "demo_snapshot = demo_fields
     [(35, ''W''), (49, ''A''), (56, ''B''), (34, ''1''), (52, ''T''), (55, ''F''), (268, ''1'')]"

definition demo_entry :: "FieldRef list" where
  "demo_entry = demo_fields [(269, ''0''), (270, ''.41''), (271, ''1''), (272, ''D''), (273, ''T'')]"

lemma demo_snapshot_ok: "fix_message demo_snapshot [demo_entry]"
proof -
  have "standard_header demo_snapshot"
    unfolding standard_header_def demo_snapshot_def demo_fields_def
    by (simp add: required_Nil_iff [of 35] required_Nil_iff [of 56] nonempty_field_def ascii_def lit_def)
      (intro requiredI [of "[]", simplified] conjI TrueI, simp_all add: nonempty_field_def required_Nil_iff [of 56] ascii_def lit_def)
  moreover have "show_bytes 1 = ascii ''1''"
    by (simp add: show_bytes_def show_nat.simps ascii_def lit_def)
  then have "body_ok (head_fields demo_snapshot [demo_entry]) demo_snapshot [demo_entry]"
    by (simp add: body_ok_def has_count_def demo_snapshot_def demo_fields_def demo_entry_def head_fields_def begin_field_def
        length_field_def scalar_tag_def body_tag_def group_lead_tag_def find_value_def entry_ok_def MAX_GROUP_ENTRIES_def)
  ultimately show ?thesis
    by (simp add: fix_message_def demo_snapshot_def demo_entry_def demo_fields_def field_ok_def U32_MAX_def SOH_def
        ascii_def lit_def u8_of_def MAX_FIELDS_def)
qed

lemma demo_book: "\<exists>p q. decode_kalshi_book_py (fix_frame demo_snapshot [demo_entry]) =
  Inr (lit ''W'', lit ''1'', Some (lit ''F''), [(None, None, lit ''0'', p, q, lit ''D'', lit ''T'')])"
proof -
  let ?d = "fix_decoded demo_snapshot [demo_entry]"
  have "length (body_bytes demo_snapshot [demo_entry]) = 68"
    by (simp add: body_bytes_def demo_snapshot_def demo_entry_def demo_fields_def wire_field_def show_bytes_def
        show_nat.simps ascii_def lit_def)
  moreover have "length (fix_head 68) = 16"
    by (simp add: fix_head_def begin_field_def length_field_def wire_field_def show_bytes_def show_nat.simps ascii_def lit_def)
  ultimately have "length (fix_frame demo_snapshot [demo_entry]) \<le> MAX_FIX_FRAME_LEN"
    by (simp add: fix_frame_def summed_head MAX_FIX_FRAME_LEN_def)
  with demo_snapshot_ok have dec: "decode_frame (fix_frame demo_snapshot [demo_entry]) = Inr ?d"
    by (rule decode_frame_complete)
  have texts: "decimal_text (ascii ''.41'') [] (ascii ''41'')" "decimal_text (ascii ''1'') (ascii ''1'') []"
    by (auto simp: decimal_text_def is_ascii_digit_def ascii_def lit_def u8_of_def)
  have val: "decimal_value [] (ascii ''41'') = 41 / 100" "decimal_value (ascii ''1'') [] = 1"
    by (simp_all add: decimal_value_def digits_value_def ascii_def lit_def power2_eq_square)
  obtain p where p: "fix_number (ascii ''.41'') 270 = Inr p" "0 \<le> f64_val p" "f64_val p \<le> 1"
    using fix_number_unit [OF texts(1), of 270] val(1) by auto
  obtain q where q: "fix_number (ascii ''1'') 271 = Inr q" "0 \<le> f64_val q" "\<bar>f64_val q - 1\<bar> \<le> 2 powi (-53)"
    using fix_number_unit [OF texts(2), of 271] val(2) by auto
  have "f64_val q \<noteq> 0" using q(3) by auto
  moreover have "ascii ''W'' \<noteq> ascii ''X''" "\<And>c. ascii [c] \<noteq> []" "ascii ''.41'' \<noteq> []"
    by (simp_all add: ascii_def lit_def u8_of_def)
  ultimately have "parse_kalshi_book ?d = Inr \<lparr>k_msg_type = ascii ''W'', k_sequence = ascii ''1'',
      k_snapshot_symbol = Some (ascii ''F''), k_entries = [\<lparr>k_action = None, k_symbol = None, k_entry_type = ascii ''0'',
        k_price = p, k_size = q, k_date = ascii ''D'', k_time = ascii ''T''\<rparr>]\<rparr>"
    using p q entry_decoded [of 0 "[demo_entry]" demo_snapshot]
    by (simp add: parse_kalshi_book_def kalshi_entry_def required_value_def find_value_def ok_or_def fix_decoded_def
        demo_snapshot_def demo_entry_def demo_fields_def head_fields_def begin_field_def length_field_def)
  with dec show ?thesis by (simp add: decode_kalshi_book_py_def py_entry_of_def optional_latin1_def)
qed

theorem decoded_book_well_formed_witness:
  "\<exists>fs gs. decode_py (fix_frame demo_snapshot [demo_entry]) = Inr (fs, gs) \<and> length gs = 1 \<and> map_of fs 35 = Some (lit ''W'')"
proof -
  from demo_book obtain p q where "decode_kalshi_book_py (fix_frame demo_snapshot [demo_entry]) =
    Inr (lit ''W'', lit ''1'', Some (lit ''F''), [(None, None, lit ''0'', p, q, lit ''D'', lit ''T'')])" by blast
  from decoded_book_well_formed [OF this] show ?thesis by auto
qed

end
