(* ===== verification/Spec2Isabelle.thy ===== *)
theory Spec2Isabelle
  imports Client_Life Fix_Book
begin

text \<open>
  A verification development for \<^verbatim>\<open>websocket-rs\<close>, a WebSocket client library written in Rust with
  Python bindings.  It models the native asyncio client under \<^verbatim>\<open>src/src/native_client/\<close> from the
  frame codec up to the protocol object asyncio calls, and the FIX decoder of \<^verbatim>\<open>src/src/fix.rs\<close>.

  \<^bold>\<open>The program and its theories.\<close>
  Bytes enter through the asyncio callbacks of \<^verbatim>\<open>NativeClient\<close> (\<^verbatim>\<open>client.rs\<close>), are split into frames by
  the codec (\<^verbatim>\<open>codec.rs\<close>) and turned into events by the protocol core (\<^verbatim>\<open>protocol.rs\<close>), which also
  decides the opening handshake.  The client acts on the events: it resolves Python futures, queues
  messages, calls the user's callback and writes frames to the transport.

  \<^item> \<open>Ws_Prelude\<close>: the result type (\<open>and_then\<close>, \<open>guard\<close>, \<open>ok_or\<close>), checked arithmetic of \<^verbatim>\<open>usize\<close>, big-endian
    numbers and the simplification collections of the components.
  \<^item> \<open>Rust_Std\<close>: what the sources use of the standard library: UTF-8 decoding with replacement,
    \<^verbatim>\<open>str::lines\<close>, \<^verbatim>\<open>trim\<close>, \<^verbatim>\<open>split_once\<close>, ASCII case and decimal printing.
  \<^item> \<open>Masking\<close>: the XOR kernels of \<^verbatim>\<open>codec.rs\<close>, the portable one and the AVX-512 one with its
    intrinsics.  Every kernel equals the byte-wise XOR of RFC 6455.
  \<^item> \<open>Frame_Codec\<close>: \<^verbatim>\<open>parse_header\<close>, \<^verbatim>\<open>parse_close_payload\<close>, \<^verbatim>\<open>find_header_end\<close> and the frame walker
    \<^verbatim>\<open>walk_frames\<close>: soundness of headers, round trip, honesty of the walk's outcome.
  \<^item> \<open>Protocol_Core\<close>: \<^verbatim>\<open>ProtocolCore::next_event\<close> with reassembly and decompression.  The interface
    \<open>event_pump\<close> states what a loop over events promises.  Its lemmas give independence of the way
    the stream is cut, refinement of frame-level reassembly, and agreement with the walker.
  \<^item> \<open>Handshake\<close>: \<^verbatim>\<open>build_handshake\<close> and \<^verbatim>\<open>process_handshake\<close>: which fields the request has, which
    replies are accepted, and that the reply of a conforming server is one of them.
  \<^item> \<open>Client_State\<close>: the \<^verbatim>\<open>State\<close> record, the futures as a heap, delivery to receivers and to the backlog,
    \<^verbatim>\<open>recv\<close> and \<^verbatim>\<open>__anext__\<close>, the sweep of abandoned receivers.
  \<^item> \<open>Client_Send\<close>: \<^verbatim>\<open>send\<close> with its three ways to the wire (socket, transport, write queue), \<^verbatim>\<open>ping\<close>,
    \<^verbatim>\<open>pong\<close>, \<^verbatim>\<open>close\<close>, flow control and \<^verbatim>\<open>connection_made\<close>.  The interface \<open>byte_sink\<close> is the contract
    of an asyncio transport.
  \<^item> \<open>Client_Deflate\<close>: the compression loop of \<^verbatim>\<open>send\<close>: it ends, and what it sends inflates to the message.
  \<^item> \<open>Client_Receive\<close>: the handling of events, the buffering slow path, the zero-copy fast path, the
    entry points \<^verbatim>\<open>data_received\<close> and \<^verbatim>\<open>buffer_updated\<close>, \<^verbatim>\<open>connection_lost\<close> and \<^verbatim>\<open>ping_waiter\<close>.
  \<^item> \<open>Client_Paths\<close>: the two paths give the same client.  The interface \<open>passive_callback\<close> says what is
    asked of the user's callback, and is interpreted on callbacks that call the client's own API.
  \<^item> \<open>Client_Stream\<close>: any sequence of reads refines the whole stream, for both protocol interfaces.
  \<^item> \<open>Client_Life\<close>: all operations as steps of one relation, and the invariant of the reachable clients.  The
    interfaces \<open>receive_invariant\<close> and \<open>careful_callback\<close> say what the entry points need of their parts
    and of the user's callback.
  \<^item> \<open>Fix_Decode\<close>, \<open>Fix_Frames\<close>, \<open>Fix_Exact\<close>: the FIX decoder, the specification of a well-formed message and
    its wire form, and the theorem that the decoder accepts exactly these, so that a single
    corrupted byte is always noticed.
  \<^item> \<open>Fix_Book\<close>: the Kalshi order-book projection with its reading of decimals into doubles.

  \<^bold>\<open>State and effects.\<close>
  \<open>State\<close> has the fields of the Rust struct; \<open>client\<close> extends it with the world the code acts on: the
  heap of futures, what has been written to the socket and to the transport, the results the socket
  will give.  Python references the code holds are booleans (held or dropped).  A \<^verbatim>\<open>PyResult\<close> is a sum
  with the error on the left.  \<^verbatim>\<open>usize\<close> is a natural number with the 64-bit bound written out where the
  code computes with it; bytes, checksums and masks are machine words.

  \<^bold>\<open>Loops.\<close>
  The event loop and the walker are total functions with a measure on the unread bytes.  The
  compression loop and the callback loop depend on foreign code and are partial functions into
  \<open>option\<close>; that \<^verbatim>\<open>send\<close> returns is proved for every compressor that makes progress.
  \<open>read_masked_frames\<close>, a server's view of the wire, takes the number of frames to read, and the
  properties ask it for as many frames as messages were sent.

  \<^bold>\<open>Parameters.\<close>
  DEFLATE, SHA-1, base64, the random source and the user's callback are arguments of the definitions
  that use them.  The hypotheses on them (\<open>streaming_compressor\<close>, \<open>sync_flush_inverse\<close>) state documented
  behaviour and are shown satisfiable on a stored-block compressor.

  \<^bold>\<open>Not modelled.\<close>
  The connection set-up of \<^verbatim>\<open>native_client/mod.rs\<close> around the handshake (URL parsing, DNS, TLS backend
  choice, the Python helper) and \<^verbatim>\<open>rustls_transport.rs\<close> drive foreign libraries and sockets.
  \<^verbatim>\<open>sync_client.rs\<close> and \<^verbatim>\<open>async_client.rs\<close> wrap \<^verbatim>\<open>tungstenite\<close>, which has the protocol logic.  The echo
  servers under \<^verbatim>\<open>bin/\<close> are test tools.  Module registration, \<^verbatim>\<open>WSMessage\<close> and its buffer protocol, and
  the address getters are binding glue.
\<close>

end
